(* ===== verification/Prelude.thy ===== *)
theory Prelude
  imports Main "HOL-Library.Word"
begin

text \<open>
  Shared vocabulary of the development: the integer types of the code, the store of
  \<open>Sequence\<close> objects, the exceptions a C++ call can end with, and the arithmetic of
  power-of-two masks that both the ring buffers and the sequencers rely on.

  Sequence numbers are \<open>int64_t\<close> in the code.  Plain signed arithmetic on them has no
  defined result outside the 64-bit range, so the model computes in \<open>int\<close> and proves where
  it matters that the values stay in range; the conversions the code does perform (the atomic
  \<open>fetch_add\<close>, the casts to \<open>int\<close>, the unsigned offsets) are written out with
  \<open>wrap64\<close>, \<open>wrap32\<close> or as machine words.
\<close>

unbundle bit_operations_syntax

named_theorems seq_simps \<open>what the operations on the store of sequences compute\<close>
named_theorems gate_simps \<open>what the operations on gating vectors compute\<close>
named_theorems inv_intros \<open>which operations keep which invariant\<close>

section \<open>Integers\<close>

definition int64_max :: int where
  "int64_max = 2 ^ 63 - 1"

definition int64_min :: int where
  "int64_min = - (2 ^ 63)"

definition int32_max :: int where
  "int32_max = 2 ^ 31 - 1"

definition in_int64 :: "int \<Rightarrow> bool" where
  "in_int64 x \<longleftrightarrow> int64_min \<le> x \<and> x \<le> int64_max"

definition wrap64 :: "int \<Rightarrow> int" where
  "wrap64 x = signed_take_bit 63 x"

definition wrap32 :: "int \<Rightarrow> int" where
  "wrap32 x = signed_take_bit 31 x"

lemma wrap64_id [simp]: "in_int64 x \<Longrightarrow> wrap64 x = x"
  by (simp add: wrap64_def in_int64_def int64_min_def int64_max_def signed_take_bit_int_eq_self)

lemma wrap32_id: "- (2 ^ 31) \<le> x \<Longrightarrow> x < 2 ^ 31 \<Longrightarrow> wrap32 x = x"
  by (simp add: wrap32_def signed_take_bit_int_eq_self)

lemma wrap32_eq_iff: "wrap32 x = wrap32 y \<longleftrightarrow> x mod 2 ^ 32 = y mod 2 ^ 32"
  by (simp add: wrap32_def signed_take_bit_eq_iff_take_bit_eq take_bit_eq_mod)

lemma in_int64_mono: "in_int64 a \<Longrightarrow> in_int64 c \<Longrightarrow> a \<le> b \<Longrightarrow> b \<le> c \<Longrightarrow> in_int64 b"
  by (simp add: in_int64_def)

section \<open>Powers of two and masks\<close>

text \<open>The test \<open>(n & (n - 1)) != 0\<close> of the constructors, and what it establishes.\<close>

definition is_pow2 :: "int \<Rightarrow> bool" where
  "is_pow2 n \<longleftrightarrow> 1 \<le> n \<and> n AND (n - 1) = 0"

lemma and_pred_double: "(2 * m) AND (2 * m - 1) = 2 * (m AND (m - 1))" for m :: int
proof -
  have "(2 * m - 1) div 2 = m - 1" by presburger
  then show ?thesis by (subst and_rec) simp
qed

lemma and_pred_odd: "(2 * m + 1) AND (2 * m) = 2 * m" for m :: int
  by (subst and_rec) simp

lemma is_pow2_ex: "is_pow2 n \<Longrightarrow> \<exists>k. n = 2 ^ k"
proof (induction "nat n" arbitrary: n rule: less_induct)
  case less
  from less.prems have n: "1 \<le> n" "n AND (n - 1) = 0"
    by (auto simp: is_pow2_def)
  show ?case
  proof (cases "even n")
    case True
    then obtain m where m: "n = 2 * m" by (elim evenE)
    with n have "is_pow2 m"
      by (auto simp: is_pow2_def and_pred_double)
    moreover from m n have "nat m < nat n" by simp
    ultimately obtain k where "m = 2 ^ k" using less.hyps by blast
    with m have "n = 2 ^ Suc k" by simp
    then show ?thesis by blast
  next
    case False
    then obtain m where m: "n = 2 * m + 1" by (elim oddE)
    with n have "m = 0" by (simp add: and_pred_odd)
    with m have "n = 2 ^ 0" by simp
    then show ?thesis by blast
  qed
qed

lemma pow2_is_pow2: "is_pow2 (2 ^ k)"
proof (induction k)
  case 0
  then show ?case by (simp add: is_pow2_def)
next
  case (Suc k)
  then show ?case
    using and_pred_double [of "2 ^ k"] one_le_power [of "2::int" "Suc k"] by (simp add: is_pow2_def)
qed

lemma is_pow2_iff: "is_pow2 n \<longleftrightarrow> (\<exists>k. n = 2 ^ k)"
  using is_pow2_ex pow2_is_pow2 by blast

lemma is_pow2_pos: "is_pow2 n \<Longrightarrow> 0 < n"
  by (simp add: is_pow2_def)

lemma mask_mod: "x AND (2 ^ k - 1) = x mod 2 ^ k" for x :: int
  by (simp add: take_bit_eq_mask [symmetric] mask_eq_exp_minus_1 [symmetric] take_bit_eq_mod)

text \<open>The largest power of two an \<open>int\<close> holds.\<close>

lemma is_pow2_int32:
  assumes "is_pow2 n" and "n \<le> int32_max"
  shows "n \<le> 2 ^ 30"
proof -
  from assms(1) obtain k where k: "n = 2 ^ k" using is_pow2_ex by blast
  with assms(2) have "(2::int) ^ k < 2 ^ 31" by (simp add: int32_max_def)
  then have "k < 31" by (simp add: power_strict_increasing_iff [of "2::int", symmetric])
  then show ?thesis unfolding k by (intro power_increasing) simp_all
qed

lemma is_pow2_mask: "is_pow2 n \<Longrightarrow> x AND (n - 1) = x mod n"
  using is_pow2_ex mask_mod by blast

text \<open>Casting to a 32-bit \<open>int\<close> first does not change the masked index.\<close>

lemma wrap32_mod_pow2:
  assumes "is_pow2 n" and "n \<le> 2 ^ 31"
  shows "wrap32 x mod n = x mod n"
proof -
  from assms(1) obtain k where k: "n = 2 ^ k" using is_pow2_ex by blast
  with assms(2) have "k \<le> 31"
    using power_increasing_iff [of "2::int" k 31] by simp
  then have "take_bit k (wrap32 x) = take_bit k x"
    unfolding wrap32_def by (simp add: take_bit_signed_take_bit)
  then show ?thesis by (simp add: k take_bit_eq_mod)
qed

text \<open>Two numbers less than one lap apart share a slot only when they are equal.\<close>

lemma same_slot_eq:
  fixes a b n :: int
  assumes "a mod n = b mod n" and "a - n < b" and "b < a + n"
  shows "a = b"
proof -
  from assms(1) have "n dvd a - b" by (simp add: mod_eq_dvd_iff)
  then obtain k where k: "a - b = n * k" by (elim dvdE)
  have "0 < n" using assms(2,3) by simp
  have "n * k < n * 1" and "n * - 1 < n * k" using assms(2,3) unfolding k [symmetric] by simp_all
  with \<open>0 < n\<close> have "k < 1" and "- 1 < k"
    by (simp_all only: mult_less_cancel_left_pos)
  then have "k = 0" by simp
  then show ?thesis using k by simp
qed

section \<open>The store of Sequence objects\<close>

text \<open>
  A \<open>Sequence\<close> object is known by its address; the store maps an address to the value its
  \<open>get()\<close> returns.  Sharing of sequences between sequencers, barriers and processors is
  sharing of addresses.
\<close>

type_synonym sid = nat
type_synonym store = "sid \<Rightarrow> int"

definition INITIAL_VALUE :: int where
  "INITIAL_VALUE = -1"

text \<open>
  What the other threads do to the store between the polls of a waiting loop: one function
  per gap, applied in order.
\<close>

definition run_env :: "(store \<Rightarrow> store) list \<Rightarrow> store \<Rightarrow> store" where
  "run_env fs \<sigma> = fold (\<lambda>f \<tau>. f \<tau>) fs \<sigma>"

lemma run_env_simps [simp]: "run_env [] \<sigma> = \<sigma>" "run_env (f # fs) \<sigma> = run_env fs (f \<sigma>)"
  by (simp_all add: run_env_def)

section \<open>Exceptions\<close>

text \<open>
  What a C++ call can end with besides a value.  \<open>StdExn\<close> stands for any other
  \<open>std::exception\<close> thrown by user code, \<open>ForeignExn\<close> for a thrown object that is not one,
  \<open>UseAfterFree\<close> and \<open>OutOfBounds\<close> for a read through a dangling pointer or outside a
  container, which are not exceptions at all: nothing catches them.
\<close>

datatype exn =
    InvalidArgument string
  | RuntimeErr string
  | AlertExn
  | TimeoutExn
  | RewindableExn string
  | StdExn string
  | ForeignExn
  | UseAfterFree
  | OutOfBounds

definition is_std_exception :: "exn \<Rightarrow> bool" where
  "is_std_exception e \<longleftrightarrow> e \<noteq> ForeignExn \<and> e \<noteq> UseAfterFree \<and> e \<noteq> OutOfBounds"

text \<open>What \<open>catch (...)\<close> catches.\<close>

definition is_thrown :: "exn \<Rightarrow> bool" where
  "is_thrown e \<longleftrightarrow> e \<noteq> UseAfterFree \<and> e \<noteq> OutOfBounds"

text \<open>The message of an exception.\<close>

fun exn_what :: "exn \<Rightarrow> string" where
  "exn_what (InvalidArgument m) = m"
| "exn_what (RuntimeErr m) = m"
| "exn_what AlertExn = ''AlertException''"
| "exn_what TimeoutExn = ''TimeoutException''"
| "exn_what (RewindableExn _) = ''REWINDING BATCH''"
| "exn_what (StdExn m) = m"
| "exn_what _ = []"

section \<open>Lists\<close>

lemma foldr_min_le: "foldr min xs m \<le> m" for m :: int
  by (induction xs) (auto simp: min_le_iff_disj)

lemma count_list_eq_0: "count_list xs x = 0 \<longleftrightarrow> x \<notin> set xs"
  by (induction xs) auto

lemma nth_list_update_same_iff:
  "i < length xs \<Longrightarrow> xs[i := v] ! j = (if j = i then v else xs ! j)"
  by (auto simp: nth_list_update_eq nth_list_update_neq)

lemma upto_join: "a \<le> b \<Longrightarrow> b \<le> c \<Longrightarrow> [a + 1..b] @ [b + 1..c] = [a + 1..c]" for a b c :: int
  using upto_split1 [of "a + 1" "b + 1" c] by (cases "b = c") simp_all

end
