(* ===== verification/Sequences.thy ===== *)
theory Sequences
  imports Prelude
begin

text \<open>
  The class \<open>Sequence\<close> (\<open>include/disruptor/Sequence.h\<close>): an atomic 64-bit counter.  Every
  operation is an atomic step on the store; the fences of the code order the steps of one
  thread and have no effect on a store whose steps are interleaved one after the other.

  \<open>fetch_add\<close> wraps modulo \<open>2 ^ 64\<close>; the \<open>+ 1\<close> and \<open>+ increment\<close> applied to its result are
  plain additions.  \<open>compareAndSet\<close> uses \<open>compare_exchange_weak\<close>, which the standard allows
  to fail although the values agree: the first argument says whether it does.
\<close>

section \<open>Operations\<close>

definition seq_new :: "sid \<Rightarrow> int \<Rightarrow> store \<Rightarrow> store" where
  "seq_new s initial \<sigma> = \<sigma>(s := initial)"

definition seq_new_default :: "sid \<Rightarrow> store \<Rightarrow> store" where
  "seq_new_default s \<sigma> = seq_new s INITIAL_VALUE \<sigma>"

definition seq_get :: "store \<Rightarrow> sid \<Rightarrow> int" where
  "seq_get \<sigma> s = \<sigma> s"

definition seq_set :: "sid \<Rightarrow> int \<Rightarrow> store \<Rightarrow> store" where
  "seq_set s v \<sigma> = \<sigma>(s := v)"

definition seq_setVolatile :: "sid \<Rightarrow> int \<Rightarrow> store \<Rightarrow> store" where
  "seq_setVolatile s v \<sigma> = \<sigma>(s := v)"

definition seq_compareAndSet :: "bool \<Rightarrow> sid \<Rightarrow> int \<Rightarrow> int \<Rightarrow> store \<Rightarrow> bool \<times> store" where
  "seq_compareAndSet spurious s expected desired \<sigma> =
     (if \<sigma> s = expected \<and> \<not> spurious then (True, \<sigma>(s := desired)) else (False, \<sigma>))"

definition seq_incrementAndGet :: "sid \<Rightarrow> store \<Rightarrow> int \<times> store" where
  "seq_incrementAndGet s \<sigma> = (\<sigma> s + 1, \<sigma>(s := wrap64 (\<sigma> s + 1)))"

definition seq_addAndGet :: "sid \<Rightarrow> int \<Rightarrow> store \<Rightarrow> int \<times> store" where
  "seq_addAndGet s increment \<sigma> = (\<sigma> s + increment, \<sigma>(s := wrap64 (\<sigma> s + increment)))"

definition seq_getAndAdd :: "sid \<Rightarrow> int \<Rightarrow> store \<Rightarrow> int \<times> store" where
  "seq_getAndAdd s increment \<sigma> = (\<sigma> s, \<sigma>(s := wrap64 (\<sigma> s + increment)))"

lemma seq_get_set [seq_simps, simp]:
  "seq_get (seq_set s v \<sigma>) t = (if t = s then v else seq_get \<sigma> t)"
  by (simp add: seq_get_def seq_set_def)

lemma seq_get_setVolatile [seq_simps, simp]:
  "seq_get (seq_setVolatile s v \<sigma>) t = (if t = s then v else seq_get \<sigma> t)"
  by (simp add: seq_get_def seq_setVolatile_def)

lemma seq_get_new [seq_simps, simp]:
  "seq_get (seq_new s v \<sigma>) t = (if t = s then v else seq_get \<sigma> t)"
  by (simp add: seq_get_def seq_new_def)

lemma seq_set_apply [seq_simps, simp]: "seq_set s v \<sigma> t = (if t = s then v else \<sigma> t)"
  by (simp add: seq_set_def)

lemma seq_setVolatile_apply [seq_simps, simp]:
  "seq_setVolatile s v \<sigma> t = (if t = s then v else \<sigma> t)"
  by (simp add: seq_setVolatile_def)

lemma fst_getAndAdd [seq_simps, simp]: "fst (seq_getAndAdd s n \<sigma>) = \<sigma> s"
  by (simp add: seq_getAndAdd_def)

lemma snd_getAndAdd [seq_simps, simp]:
  "snd (seq_getAndAdd s n \<sigma>) t = (if t = s then wrap64 (\<sigma> s + n) else \<sigma> t)"
  by (simp add: seq_getAndAdd_def)

section \<open>A retry loop around compareAndSet\<close>

text \<open>
  The shape every caller of \<open>compareAndSet\<close> has: read, compute, try to install, retry.
  One element of the script is one failed attempt: what the other threads did to the store
  between the read and the exchange, and whether the exchange failed spuriously.
\<close>

fun cas_loop :: "((store \<Rightarrow> store) \<times> bool) list \<Rightarrow> sid \<Rightarrow> (int \<Rightarrow> int) \<Rightarrow> store \<Rightarrow> int \<times> store" where
  "cas_loop [] s f \<sigma> = (f (\<sigma> s), \<sigma>(s := f (\<sigma> s)))"
| "cas_loop ((env, spurious) # script) s f \<sigma> =
     (let current = \<sigma> s;
          (ok, \<sigma>') = seq_compareAndSet spurious s current (f current) (env \<sigma>)
      in if ok then (f current, \<sigma>') else cas_loop script s f \<sigma>')"

text \<open>
  Whatever the interference and however often the weak exchange fails, the loop returns the
  value it installed, computed from the value it replaced.
\<close>

lemma cas_loop_atomic:
  "cas_loop script s f \<sigma> = (r, \<sigma>') \<Longrightarrow> \<exists>\<tau>. r = f (\<tau> s) \<and> \<sigma>' = \<tau>(s := f (\<tau> s))"
proof (induction script arbitrary: \<sigma>)
  case Nil
  then show ?case by auto
next
  case (Cons a script)
  obtain env spurious where a: "a = (env, spurious)" by (cases a)
  show ?case
  proof (cases "env \<sigma> s = \<sigma> s \<and> \<not> spurious")
    case True
    with Cons.prems a have "r = f (env \<sigma> s) \<and> \<sigma>' = (env \<sigma>)(s := f (env \<sigma> s))"
      by (auto simp: seq_compareAndSet_def Let_def)
    then show ?thesis by blast
  next
    case False
    then have "cas_loop script s f (env \<sigma>) = (r, \<sigma>')"
      using Cons.prems a by (auto simp: seq_compareAndSet_def Let_def split: if_splits)
    then show ?thesis by (rule Cons.IH)
  qed
qed

section \<open>Tickets\<close>

text \<open>
  A run of \<open>getAndAdd\<close> calls on one sequence, in the order in which the atomic additions take
  effect: each call is given by its increment and gets the value before its addition.
\<close>

fun getAndAdd_run :: "sid \<Rightarrow> int list \<Rightarrow> store \<Rightarrow> int list \<times> store" where
  "getAndAdd_run s [] \<sigma> = ([], \<sigma>)"
| "getAndAdd_run s (n # ns) \<sigma> =
     (let (v, \<sigma>1) = seq_getAndAdd s n \<sigma>; (vs, \<sigma>2) = getAndAdd_run s ns \<sigma>1 in (v # vs, \<sigma>2))"

lemma getAndAdd_run_Cons:
  "fst (getAndAdd_run s (n # ns) \<sigma>) =
     \<sigma> s # fst (getAndAdd_run s ns (\<sigma>(s := wrap64 (\<sigma> s + n))))"
  by (simp add: seq_getAndAdd_def split: prod.split)

lemma length_getAndAdd_run: "length (fst (getAndAdd_run s ns \<sigma>)) = length ns"
  by (induction ns arbitrary: \<sigma>) (simp_all add: getAndAdd_run_Cons del: getAndAdd_run.simps(2))

text \<open>The conditions on the increments are inherited by the rest of the run.\<close>

definition tickets_ok :: "store \<Rightarrow> sid \<Rightarrow> int list \<Rightarrow> bool" where
  "tickets_ok \<sigma> s ns \<longleftrightarrow>
     (\<forall>n\<in>set ns. 0 \<le> n) \<and> in_int64 (\<sigma> s) \<and> in_int64 (\<sigma> s + sum_list ns)"

lemma tickets_ok_Cons:
  assumes "tickets_ok \<sigma> s (n # ns)"
  shows "wrap64 (\<sigma> s + n) = \<sigma> s + n" and "tickets_ok (\<sigma>(s := \<sigma> s + n)) s ns" and "0 \<le> n"
proof -
  have nn: "0 \<le> n" "0 \<le> sum_list ns"
    using assms by (auto simp: tickets_ok_def intro: sum_list_nonneg)
  then have fits: "in_int64 (\<sigma> s + n)"
    using assms in_int64_mono [of "\<sigma> s" "\<sigma> s + sum_list (n # ns)" "\<sigma> s + n"]
    by (simp add: tickets_ok_def)
  then show "wrap64 (\<sigma> s + n) = \<sigma> s + n" by simp
  show "tickets_ok (\<sigma>(s := \<sigma> s + n)) s ns"
    using assms fits by (simp add: tickets_ok_def algebra_simps)
  show "0 \<le> n" by (rule nn)
qed

lemma getAndAdd_run_lower:
  assumes "tickets_ok \<sigma> s ns" and "v \<in> set (fst (getAndAdd_run s ns \<sigma>))"
  shows "\<sigma> s \<le> v"
  using assms
proof (induction ns arbitrary: \<sigma>)
  case Nil
  then show ?case by simp
next
  case (Cons n ns)
  note ok = tickets_ok_Cons [OF Cons.prems(1)]
  have "v = \<sigma> s \<or> v \<in> set (fst (getAndAdd_run s ns (\<sigma>(s := \<sigma> s + n))))"
    using Cons.prems(2) ok(1) by (simp add: getAndAdd_run_Cons del: getAndAdd_run.simps(2))
  then show ?case using Cons.IH [OF ok(2)] ok(3)
    by (metis fun_upd_same le_add_same_cancel1 order_refl order_trans)
qed

text \<open>The intervals \<open>(v, v + n]\<close> handed out to different calls never overlap.\<close>

lemma getAndAdd_run_disjoint:
  assumes "tickets_ok \<sigma> s ns" and "i < j" and "j < length ns"
  shows "fst (getAndAdd_run s ns \<sigma>) ! i + ns ! i \<le> fst (getAndAdd_run s ns \<sigma>) ! j"
  using assms
proof (induction ns arbitrary: \<sigma> i j)
  case Nil
  then show ?case by simp
next
  case (Cons n ns)
  note ok = tickets_ok_Cons [OF Cons.prems(1)]
  let ?\<tau> = "\<sigma>(s := \<sigma> s + n)"
  have run: "fst (getAndAdd_run s (n # ns) \<sigma>) = \<sigma> s # fst (getAndAdd_run s ns ?\<tau>)"
    using ok(1) by (simp add: getAndAdd_run_Cons del: getAndAdd_run.simps(2))
  from Cons.prems(2,3) obtain j' where j: "j = Suc j'" "j' < length ns" by (cases j) auto
  show ?case
  proof (cases i)
    case 0
    have "fst (getAndAdd_run s ns ?\<tau>) ! j' \<in> set (fst (getAndAdd_run s ns ?\<tau>))"
      using j(2) by (simp add: length_getAndAdd_run)
    then have "\<sigma> s + n \<le> fst (getAndAdd_run s ns ?\<tau>) ! j'"
      using getAndAdd_run_lower [OF ok(2)] by fastforce
    then show ?thesis using 0 j by (simp only: run nth_Cons_0 nth_Cons_Suc)
  next
    case (Suc i')
    then show ?thesis using Cons.IH [OF ok(2), of i' j'] Cons.prems j
      by (simp only: run nth_Cons_Suc)
  qed
qed

end
