(* ===== verification/Util_Funs.thy ===== *)
theory Util_Funs
  imports Sequences
begin

text \<open>
  The static functions of \<open>util::Util\<close> (\<open>include/disruptor/util/Util.h\<close>): the minimum of a
  vector of sequences, the power-of-two helpers, and the bookkeeping of a timed wait.
\<close>

section \<open>Minimum of a vector of sequences\<close>

text \<open>A vector of sequence pointers; a null pointer is skipped by the code.\<close>

type_synonym seqs = "sid option list"

fun getMinimumSequence :: "store \<Rightarrow> seqs \<Rightarrow> int \<Rightarrow> int" where
  "getMinimumSequence \<sigma> [] minimum = minimum"
| "getMinimumSequence \<sigma> (None # xs) minimum = getMinimumSequence \<sigma> xs minimum"
| "getMinimumSequence \<sigma> (Some s # xs) minimum =
     getMinimumSequence \<sigma> xs (min minimum (seq_get \<sigma> s))"

definition getMinimumSequence_max :: "store \<Rightarrow> seqs \<Rightarrow> int" where
  "getMinimumSequence_max \<sigma> xs = getMinimumSequence \<sigma> xs int64_max"

definition ptrs :: "seqs \<Rightarrow> sid set" where
  "ptrs xs = {s. Some s \<in> set xs}"

lemma ptrs_simps [simp]:
  "ptrs [] = {}" "ptrs (None # xs) = ptrs xs" "ptrs (Some s # xs) = insert s (ptrs xs)"
  "ptrs (xs @ ys) = ptrs xs \<union> ptrs ys"
  by (auto simp: ptrs_def)

lemma finite_ptrs [simp]: "finite (ptrs xs)"
proof (induction xs)
  case (Cons x xs)
  then show ?case by (cases x) simp_all
qed simp

text \<open>The one characterisation the other components use.\<close>

lemma getMinimumSequence_Min:
  "getMinimumSequence \<sigma> xs m = Min (insert m (\<sigma> ` ptrs xs))"
proof (induction \<sigma> xs m rule: getMinimumSequence.induct)
  case (3 \<sigma> s xs m)
  then show ?case
    by (cases "ptrs xs = {}") (auto simp: seq_get_def min.assoc min.left_commute)
qed auto

lemma getMinimumSequence_ge_iff:
  "b \<le> getMinimumSequence \<sigma> xs m \<longleftrightarrow> b \<le> m \<and> (\<forall>s\<in>ptrs xs. b \<le> \<sigma> s)"
  by (simp add: getMinimumSequence_Min)

lemma getMinimumSequence_le_default: "getMinimumSequence \<sigma> xs m \<le> m"
  by (simp add: getMinimumSequence_Min)

lemma getMinimumSequence_le_member: "s \<in> ptrs xs \<Longrightarrow> getMinimumSequence \<sigma> xs m \<le> \<sigma> s"
  by (simp add: getMinimumSequence_Min)

lemma getMinimumSequence_cases:
  "getMinimumSequence \<sigma> xs m = m \<or> (\<exists>s\<in>ptrs xs. getMinimumSequence \<sigma> xs m = \<sigma> s)"
proof -
  have "Min (insert m (\<sigma> ` ptrs xs)) \<in> insert m (\<sigma> ` ptrs xs)"
    by (rule Min_in) simp_all
  then show ?thesis by (auto simp: getMinimumSequence_Min)
qed

lemma getMinimumSequence_mono:
  assumes "\<And>s. s \<in> ptrs xs \<Longrightarrow> \<sigma> s \<le> \<tau> s"
  shows "getMinimumSequence \<sigma> xs m \<le> getMinimumSequence \<tau> xs m"
  using assms
  by (auto simp: getMinimumSequence_ge_iff getMinimumSequence_le_default
      intro: order_trans [OF getMinimumSequence_le_member])

lemma getMinimumSequence_cong:
  assumes "\<And>s. s \<in> ptrs xs \<Longrightarrow> \<sigma> s = \<tau> s"
  shows "getMinimumSequence \<sigma> xs m = getMinimumSequence \<tau> xs m"
  using assms by (auto intro!: antisym getMinimumSequence_mono)

section \<open>Sequences of a list of processors\<close>

text \<open>
  \<open>getSequencesFor\<close> over an array of possibly null processor pointers, and over a vector,
  where a null pointer is dereferenced (no defined behaviour: the model has no result).  The
  first argument is \<open>EventProcessor::getSequence\<close>.
\<close>

definition getSequencesFor :: "('p \<Rightarrow> sid) \<Rightarrow> 'p option list \<Rightarrow> seqs" where
  "getSequencesFor getSequence processors = map (map_option getSequence) processors"

fun getSequencesFor_vector :: "('p \<Rightarrow> sid) \<Rightarrow> 'p option list \<Rightarrow> seqs option" where
  "getSequencesFor_vector getSequence [] = Some []"
| "getSequencesFor_vector getSequence (None # ps) = None"
| "getSequencesFor_vector getSequence (Some p # ps) =
     map_option ((#) (Some (getSequence p))) (getSequencesFor_vector getSequence ps)"

lemma getSequencesFor_vector_eq:
  "None \<notin> set ps \<Longrightarrow> getSequencesFor_vector gs ps = Some (getSequencesFor gs ps)"
  by (induction gs ps rule: getSequencesFor_vector.induct) (auto simp: getSequencesFor_def)

section \<open>Power-of-two helpers\<close>

text \<open>\<open>std::bit_width\<close> and \<open>std::countl_zero\<close> of a 32-bit unsigned value.\<close>

fun bit_width :: "nat \<Rightarrow> nat" where
  "bit_width n = (if n = 0 then 0 else Suc (bit_width (n div 2)))"

declare bit_width.simps [simp del]

definition countl_zero32 :: "nat \<Rightarrow> int" where
  "countl_zero32 v = 32 - int (bit_width v)"

definition ceilingNextPowerOfTwo :: "int \<Rightarrow> exn + int" where
  "ceilingNextPowerOfTwo x =
     (if x \<le> 0 then Inl (InvalidArgument ''x must be a positive number'')
      else let v = nat (x - 1);
               leading = countl_zero32 v
           in Inr (wrap32 (2 ^ nat (32 - leading))))"

definition util_log2 :: "int \<Rightarrow> exn + int" where
  "util_log2 value =
     (if value < 1 then Inl (InvalidArgument ''value must be a positive number'')
      else Inr (int (bit_width (nat value)) - 1))"

lemma bit_width_0 [simp]: "bit_width 0 = 0"
  by (simp add: bit_width.simps)

lemma bit_width_bounds: "0 < n \<Longrightarrow> 2 ^ (bit_width n - 1) \<le> n \<and> n < 2 ^ bit_width n"
proof (induction n rule: bit_width.induct)
  case (1 n)
  show ?case
  proof (cases "n div 2 = 0")
    case True
    with 1 have "n = 1" by auto
    then show ?thesis by (simp add: bit_width.simps)
  next
    case False
    with 1 have IH: "2 ^ (bit_width (n div 2) - 1) \<le> n div 2" "n div 2 < 2 ^ bit_width (n div 2)"
      by auto
    from False have pos: "0 < bit_width (n div 2)"
      by (subst bit_width.simps) simp
    have eq: "bit_width n = Suc (bit_width (n div 2))"
      using 1(2) by (subst bit_width.simps) simp
    have "2 * 2 ^ (bit_width (n div 2) - 1) = (2::nat) ^ bit_width (n div 2)"
      using pos by (cases "bit_width (n div 2)") simp_all
    with IH have "2 ^ bit_width (n div 2) \<le> n" by linarith
    moreover have "n < 2 * 2 ^ bit_width (n div 2)" using IH(2) by linarith
    ultimately show ?thesis by (simp add: eq)
  qed
qed

lemma bit_width_pow2 [simp]: "bit_width (2 ^ k) = Suc k"
proof (induction k)
  case 0
  then show ?case by (simp add: bit_width.simps)
next
  case (Suc k)
  then show ?case by (subst bit_width.simps) simp
qed

lemma bit_width_mono_pow2: "n < 2 ^ k \<Longrightarrow> bit_width n \<le> k"
proof (rule ccontr)
  assume n: "n < 2 ^ k" and "\<not> bit_width n \<le> k"
  then have k: "k \<le> bit_width n - 1" and "0 < n" by (auto intro: gr0I)
  then have "2 ^ (bit_width n - 1) \<le> n" using bit_width_bounds by blast
  moreover have "(2::nat) ^ k \<le> 2 ^ (bit_width n - 1)" using k by (rule power_increasing) simp
  ultimately show False using n by linarith
qed

lemma util_log2_pow2: "util_log2 (2 ^ k) = Inr (int k)"
proof -
  have eq: "nat (2 ^ k) = 2 ^ k" by (simp add: nat_power_eq)
  have "(1::int) \<le> 2 ^ k" by simp
  then show ?thesis by (simp add: util_log2_def eq not_less)
qed

section \<open>Timed waits\<close>

text \<open>
  \<open>awaitNanos\<close> waits at most \<open>awaitNanos_request\<close> nanoseconds (the millisecond and nanosecond
  parts are C++ quotient and remainder) and returns what is left of the timeout; \<open>waited\<close> is
  what the clock measured.
\<close>

definition ONE_MILLISECOND_IN_NANOSECONDS :: int where
  "ONE_MILLISECOND_IN_NANOSECONDS = 1000000"

definition c_div :: "int \<Rightarrow> int \<Rightarrow> int" where
  "c_div a b = sgn a * sgn b * (\<bar>a\<bar> div \<bar>b\<bar>)"

definition c_mod :: "int \<Rightarrow> int \<Rightarrow> int" where
  "c_mod a b = a - c_div a b * b"

definition awaitNanos_request :: "int \<Rightarrow> int" where
  "awaitNanos_request timeoutNanos =
     (let millis = c_div timeoutNanos ONE_MILLISECOND_IN_NANOSECONDS;
          nanos = c_mod timeoutNanos ONE_MILLISECOND_IN_NANOSECONDS
      in millis * ONE_MILLISECOND_IN_NANOSECONDS + nanos)"

definition awaitNanos :: "int \<Rightarrow> int \<Rightarrow> int" where
  "awaitNanos waited timeoutNanos = timeoutNanos - waited"

lemma awaitNanos_request_eq: "awaitNanos_request t = t"
  by (simp add: awaitNanos_request_def c_mod_def Let_def)

end
