(* ===== verification/Shared_Ptr.thy ===== *)
theory Shared_Ptr
  imports Prelude
begin

text \<open>
  \<open>AtomicSharedPtr\<close> (\<open>include/disruptor/AtomicSharedPtr.h\<close>): a shared pointer behind a
  spin lock.  The first part gives what one operation does to the pointer.  The second part
  runs any number of threads through lock, body and unlock, one atomic access at a time, and
  shows that the lock makes every operation one atomic step; the other components therefore
  use the operations of the first part.
\<close>

section \<open>The operations\<close>

definition asp_load :: "'p option \<Rightarrow> 'p option" where
  "asp_load p = p"

definition asp_store :: "'p option \<Rightarrow> 'p option \<Rightarrow> 'p option" where
  "asp_store desired p = desired"

text \<open>The result, the value left in \<open>expected\<close>, and the pointer afterwards.\<close>

definition asp_cas :: "'p option \<Rightarrow> 'p option \<Rightarrow> 'p option \<Rightarrow> bool \<times> 'p option \<times> 'p option" where
  "asp_cas expected desired p =
     (if p = expected then (True, expected, desired) else (False, p, p))"

section \<open>The spin lock\<close>

datatype 'p request =
    Load
  | Store "'p option"
  | Cas "'p option" "'p option"

datatype 'p response =
    Loaded "'p option"
  | Stored
  | Exchanged bool "'p option"

fun asp_apply :: "'p request \<Rightarrow> 'p option \<Rightarrow> 'p response \<times> 'p option" where
  "asp_apply Load p = (Loaded (asp_load p), p)"
| "asp_apply (Store d) p = (Stored, asp_store d p)"
| "asp_apply (Cas e d) p = (case asp_cas e d p of (ok, e', p') \<Rightarrow> (Exchanged ok e', p'))"

text \<open>Where a thread stands: outside, in \<open>lock()\<close>, holding the lock, before \<open>unlock()\<close>.\<close>

datatype 'p asp_pc =
    Outside
  | Spinning "'p request"
  | Holding "'p request"
  | Unlocking "'p response"

record 'p asp =
  asp_flag :: bool
  asp_ptr :: "'p option"
  asp_pcs :: "nat \<Rightarrow> 'p asp_pc"

definition asp_init :: "'p option \<Rightarrow> 'p asp" where
  "asp_init p = \<lparr>asp_flag = False, asp_ptr = p, asp_pcs = (\<lambda>_. Outside)\<rparr>"

datatype 'p asp_event = Internal | Effect nat "'p request" "'p response"

inductive asp_step :: "'p asp \<Rightarrow> 'p asp_event \<Rightarrow> 'p asp \<Rightarrow> bool" where
  call: "asp_pcs a i = Outside \<Longrightarrow>
    asp_step a Internal (a\<lparr>asp_pcs := (asp_pcs a)(i := Spinning r)\<rparr>)"
| spin: "asp_pcs a i = Spinning r \<Longrightarrow> asp_flag a \<Longrightarrow> asp_step a Internal a"
| acquire: "asp_pcs a i = Spinning r \<Longrightarrow> \<not> asp_flag a \<Longrightarrow>
    asp_step a Internal (a\<lparr>asp_flag := True, asp_pcs := (asp_pcs a)(i := Holding r)\<rparr>)"
| body: "asp_pcs a i = Holding r \<Longrightarrow> asp_apply r (asp_ptr a) = (q, p') \<Longrightarrow>
    asp_step a (Effect i r q) (a\<lparr>asp_ptr := p', asp_pcs := (asp_pcs a)(i := Unlocking q)\<rparr>)"
| release: "asp_pcs a i = Unlocking q \<Longrightarrow>
    asp_step a Internal (a\<lparr>asp_flag := False, asp_pcs := (asp_pcs a)(i := Outside)\<rparr>)"

inductive asp_reach :: "'p option \<Rightarrow> 'p asp_event list \<Rightarrow> 'p asp \<Rightarrow> bool" for p where
  start: "asp_reach p [] (asp_init p)"
| step: "asp_reach p es a \<Longrightarrow> asp_step a e b \<Longrightarrow> asp_reach p (es @ [e]) b"

definition in_section :: "'p asp_pc \<Rightarrow> bool" where
  "in_section pc = (case pc of Holding _ \<Rightarrow> True | Unlocking _ \<Rightarrow> True | _ \<Rightarrow> False)"

lemma in_section_simps [simp]:
  "\<not> in_section Outside" "\<not> in_section (Spinning r)" "in_section (Holding r)"
  "in_section (Unlocking q)"
  by (simp_all add: in_section_def)

text \<open>At most one thread is between \<open>lock()\<close> and \<open>unlock()\<close>, and the flag says whether.\<close>

definition asp_inv :: "'p asp \<Rightarrow> bool" where
  "asp_inv a \<longleftrightarrow>
     (\<forall>i. in_section (asp_pcs a i) \<longrightarrow> asp_flag a \<and> (\<forall>j. in_section (asp_pcs a j) \<longrightarrow> j = i))"

lemma asp_inv_init [inv_intros]: "asp_inv (asp_init p)"
  by (simp add: asp_inv_def asp_init_def)

lemma asp_inv_step [inv_intros]: "asp_step a e b \<Longrightarrow> asp_inv a \<Longrightarrow> asp_inv b"
proof (induction rule: asp_step.induct)
  case (body a i r q p')
  then have "in_section (asp_pcs a i)" by simp
  with body(3) show ?case by (auto simp: asp_inv_def)
next
  case (release a i q)
  then have "in_section (asp_pcs a i)" by simp
  with release(2) show ?case by (auto simp: asp_inv_def)
qed (auto simp: asp_inv_def)

lemma asp_reach_inv: "asp_reach p es a \<Longrightarrow> asp_inv a"
  by (induction rule: asp_reach.induct) (auto intro: inv_intros)

text \<open>The effects of a run, replayed one whole operation after the other.\<close>

fun asp_replay :: "'p asp_event list \<Rightarrow> 'p option \<Rightarrow> 'p option option" where
  "asp_replay [] p = Some p"
| "asp_replay (Internal # es) p = asp_replay es p"
| "asp_replay (Effect i r q # es) p =
     (case asp_apply r p of (q', p') \<Rightarrow> if q' = q then asp_replay es p' else None)"

lemma asp_replay_append:
  "asp_replay (es @ es') p = (case asp_replay es p of None \<Rightarrow> None | Some p' \<Rightarrow> asp_replay es' p')"
  by (induction es p rule: asp_replay.induct) (auto split: prod.splits)

lemma asp_step_replay: "asp_step a e b \<Longrightarrow> asp_replay [e] (asp_ptr a) = Some (asp_ptr b)"
  by (induction rule: asp_step.induct) auto

lemma asp_reach_replay: "asp_reach p es a \<Longrightarrow> asp_replay es p = Some (asp_ptr a)"
proof (induction rule: asp_reach.induct)
  case start
  then show ?case by (simp add: asp_init_def)
next
  case (step es a e b)
  then show ?case by (simp add: asp_replay_append asp_step_replay)
qed

section \<open>Properties\<close>

text \<open>C23: \<open>AtomicSharedPtr\<close> is linearizable: whatever the interleaving of loads, stores and
  compare-exchanges that spin for its lock, at most one thread is inside the locked section, and
  the responses are those of performing the operations one after the other, in the order in which
  their locked sections ran.\<close>

theorem asp_linearizable:
  assumes "asp_reach p es a"
  shows "asp_replay es p = Some (asp_ptr a) \<and>
    (\<forall>i j. in_section (asp_pcs a i) \<longrightarrow> in_section (asp_pcs a j) \<longrightarrow> i = j) \<and>
    (\<forall>i. in_section (asp_pcs a i) \<longrightarrow> asp_flag a)"
  using asp_reach_replay[OF assms] asp_reach_inv[OF assms] unfolding asp_inv_def by blast

lemma asp_linearizable_witness:
  "\<exists>a. asp_reach None [Internal, Internal, Effect 0 (Cas None (Some (3::nat))) (Exchanged True None)] a \<and>
     asp_ptr a = Some 3 \<and> asp_flag a"
proof -
  let ?r = "Cas None (Some (3::nat))"
  let ?a1 = "(asp_init None)\<lparr>asp_pcs := (asp_pcs (asp_init None))(0 := Spinning ?r)\<rparr>"
  let ?a2 = "?a1\<lparr>asp_flag := True, asp_pcs := (asp_pcs ?a1)(0 := Holding ?r)\<rparr>"
  let ?a3 = "?a2\<lparr>asp_ptr := Some 3, asp_pcs := (asp_pcs ?a2)(0 := Unlocking (Exchanged True None))\<rparr>"
  have 1: "asp_reach None ([] @ [Internal]) ?a1"
    by (rule asp_reach.step[OF asp_reach.start asp_step.call]) (simp add: asp_init_def)
  have 2: "asp_reach None (([] @ [Internal]) @ [Internal]) ?a2"
    by (rule asp_reach.step[OF 1 asp_step.acquire[where r = ?r]]) (simp_all add: asp_init_def)
  have 3: "asp_reach None ((([] @ [Internal]) @ [Internal]) @ [Effect 0 ?r (Exchanged True None)]) ?a3"
    by (rule asp_reach.step[OF 2 asp_step.body]) (simp_all add: asp_init_def asp_cas_def)
  then show ?thesis using asp_linearizable[OF 3] by (intro exI[of _ ?a3]) simp
qed

end
