(* ===== verification/Seq_Groups.thy ===== *)
theory Seq_Groups
  imports Util_Funs Shared_Ptr
begin

text \<open>
  \<open>SequenceGroups\<close>, \<open>SequenceGroup\<close> and \<open>FixedSequenceGroup\<close>
  (\<open>include/disruptor/SequenceGroups.h\<close>, \<open>SequenceGroup.h\<close>, \<open>FixedSequenceGroup.h\<close>).

  The pointers of a group live in an immutable vector that an \<open>AtomicSharedPtr\<close> refers to;
  adding or removing a sequence builds a new vector and swaps the pointer with a
  compare-and-exchange.  A \<open>gating\<close> state holds the pointer (\<open>holder\<close>), the vectors that are
  alive, by address (\<open>vecs\<close>), and the allocator's next address.  Replacing the pointer frees
  the old vector when the replacing call returns.
\<close>

section \<open>The holder of a vector\<close>

record gating =
  holder :: "nat option"
  vecs :: "nat \<rightharpoonup> seqs"
  nextVec :: nat

text \<open>A shared pointer keeps its vector alive, so reading through one never fails.\<close>

definition vec_at :: "gating \<Rightarrow> nat option \<Rightarrow> seqs" where
  "vec_at g p = (case p of None \<Rightarrow> [] | Some v \<Rightarrow> (case vecs g v of None \<Rightarrow> [] | Some xs \<Rightarrow> xs))"

text \<open>\<open>std::make_shared<std::vector<Sequence*>>()\<close> in the constructors.\<close>

definition new_gating :: gating where
  "new_gating = \<lparr>holder = Some 0, vecs = [0 \<mapsto> []], nextVec = 1\<rparr>"

definition group_seqs :: "gating \<Rightarrow> seqs" where
  "group_seqs g = vec_at g (holder g)"

definition gating_ok :: "gating \<Rightarrow> bool" where
  "gating_ok g \<longleftrightarrow>
     (\<exists>v xs. holder g = Some v \<and> vecs g v = Some xs) \<and> (\<forall>v. nextVec g \<le> v \<longrightarrow> vecs g v = None)"

lemma gating_ok_new [inv_intros]: "gating_ok new_gating"
  by (simp add: gating_ok_def new_gating_def)

lemma group_seqs_new [simp]: "group_seqs new_gating = []"
  by (simp add: group_seqs_def vec_at_def new_gating_def)

section \<open>addSequences\<close>

text \<open>\<open>seq->set(cursorSequence)\<close> for every non-null pointer of the array.\<close>

fun set_all :: "seqs \<Rightarrow> int \<Rightarrow> store \<Rightarrow> store" where
  "set_all [] v \<sigma> = \<sigma>"
| "set_all (None # xs) v \<sigma> = set_all xs v \<sigma>"
| "set_all (Some s # xs) v \<sigma> = set_all xs v (seq_set s v \<sigma>)"

lemma set_all_apply [seq_simps, simp]:
  "set_all xs v \<sigma> s = (if s \<in> ptrs xs then v else \<sigma> s)"
proof (induction xs arbitrary: \<sigma>)
  case (Cons x xs)
  then show ?case by (cases x) auto
qed simp

text \<open>
  One round of the retry loop.  \<open>env\<close> is what the other threads do between the load of the
  pointer and the exchange.  When the holder is null the round copies a fresh empty vector,
  whose address the exchange then compares with the null holder.
\<close>

definition addSequences_round ::
  "(store \<Rightarrow> gating \<Rightarrow> int) \<Rightarrow> seqs \<Rightarrow> (store \<times> gating \<Rightarrow> store \<times> gating) \<Rightarrow> store \<times> gating
     \<Rightarrow> bool \<times> store \<times> gating" where
  "addSequences_round getCursor sequencesToAdd env w =
     (let (\<sigma>, g) = w;
          loaded = asp_load (holder g);
          currentPtr = (case loaded of None \<Rightarrow> nextVec g | Some v \<Rightarrow> v);
          updatedPtr = (case loaded of None \<Rightarrow> Suc (nextVec g) | Some v \<Rightarrow> nextVec g);
          updated = vec_at g loaded @ sequencesToAdd;
          cursorSequence = getCursor \<sigma> g;
          (\<sigma>', g') = env (set_all sequencesToAdd cursorSequence \<sigma>, g\<lparr>nextVec := Suc updatedPtr\<rparr>);
          (ok, _, h) = asp_cas (Some currentPtr) (Some updatedPtr) (holder g')
      in if ok
         then (True, \<sigma>', g'\<lparr>holder := h, vecs := (vecs g')(currentPtr := None, updatedPtr \<mapsto> updated)\<rparr>)
         else (False, \<sigma>', g'))"

text \<open>
  The whole function: the script gives the interference of every round; when it is used up
  the thread runs alone.  \<open>None\<close> is a loop that never ends.
\<close>

fun addSequences ::
  "(store \<Rightarrow> gating \<Rightarrow> int) \<Rightarrow> (store \<times> gating \<Rightarrow> store \<times> gating) list \<Rightarrow> seqs \<Rightarrow> store \<times> gating
     \<Rightarrow> (store \<times> gating) option" where
  "addSequences getCursor [] sequencesToAdd w =
     (let (ok, \<sigma>', g') = addSequences_round getCursor sequencesToAdd id w
      in if ok then Some (set_all sequencesToAdd (getCursor \<sigma>' g') \<sigma>', g') else None)"
| "addSequences getCursor (env # script) sequencesToAdd w =
     (let (ok, \<sigma>', g') = addSequences_round getCursor sequencesToAdd env w
      in if ok then Some (set_all sequencesToAdd (getCursor \<sigma>' g') \<sigma>', g')
         else addSequences getCursor script sequencesToAdd (\<sigma>', g'))"

section \<open>removeSequence\<close>

definition count_seq :: "sid \<Rightarrow> seqs \<Rightarrow> nat" where
  "count_seq s xs = length (filter (\<lambda>p. p = Some s) xs)"

definition removeSequence_round ::
  "sid \<Rightarrow> (gating \<Rightarrow> gating) \<Rightarrow> gating \<Rightarrow> bool option \<times> gating" where
  "removeSequence_round sq env g =
     (case asp_load (holder g) of
        None \<Rightarrow> (Some False, g)
      | Some oldPtr \<Rightarrow>
          let oldSequences = vec_at g (Some oldPtr);
              numToRemove = count_seq sq oldSequences
          in if numToRemove = 0 then (Some False, g)
             else let newPtr = nextVec g;
                      newSequences = filter (\<lambda>p. p \<noteq> Some sq) oldSequences;
                      g' = env (g\<lparr>nextVec := Suc newPtr\<rparr>);
                      (ok, _, h) = asp_cas (Some oldPtr) (Some newPtr) (holder g')
                  in if ok
                     then (Some True,
                           g'\<lparr>holder := h, vecs := (vecs g')(oldPtr := None, newPtr \<mapsto> newSequences)\<rparr>)
                     else (None, g'))"

fun removeSequence :: "(gating \<Rightarrow> gating) list \<Rightarrow> sid \<Rightarrow> gating \<Rightarrow> (bool \<times> gating) option" where
  "removeSequence [] sq g =
     (case removeSequence_round sq id g of
        (None, _) \<Rightarrow> None
      | (Some r, g') \<Rightarrow> Some (r, g'))"
| "removeSequence (env # script) sq g =
     (case removeSequence_round sq env g of
        (None, g') \<Rightarrow> removeSequence script sq g'
      | (Some r, g') \<Rightarrow> Some (r, g'))"

section \<open>Undisturbed calls\<close>

lemma addSequences_alone:
  assumes "gating_ok g"
  obtains g' where
    "addSequences getCursor [] new (\<sigma>, g) =
       Some (set_all new (getCursor (set_all new (getCursor \<sigma> g) \<sigma>) g') (set_all new (getCursor \<sigma> g) \<sigma>), g')"
    and "gating_ok g'" and "group_seqs g' = group_seqs g @ new"
    and "holder g' = Some (nextVec g)" and "vecs g' (nextVec g) = Some (group_seqs g @ new)"
proof -
  from assms obtain v xs where v: "holder g = Some v" "vecs g v = Some xs"
    by (auto simp: gating_ok_def)
  let ?g' = "g\<lparr>nextVec := Suc (nextVec g), holder := Some (nextVec g),
               vecs := (vecs g)(v := None, nextVec g \<mapsto> xs @ new)\<rparr>"
  have seqs: "group_seqs g = xs" using v by (simp add: group_seqs_def vec_at_def)
  show thesis
  proof (rule that [of ?g'])
    show "addSequences getCursor [] new (\<sigma>, g) =
       Some (set_all new (getCursor (set_all new (getCursor \<sigma> g) \<sigma>) ?g') (set_all new (getCursor \<sigma> g) \<sigma>), ?g')"
      using v by (simp add: addSequences_round_def asp_load_def asp_cas_def vec_at_def Let_def)
    show "gating_ok ?g'" using assms by (auto simp: gating_ok_def)
    show "group_seqs ?g' = group_seqs g @ new"
      unfolding seqs by (simp add: group_seqs_def vec_at_def)
  qed (simp_all add: seqs)
qed

lemma removeSequence_alone:
  assumes "gating_ok g"
  obtains g' where
    "removeSequence [] sq g = Some (sq \<in> ptrs (group_seqs g), g')"
    and "gating_ok g'" and "group_seqs g' = filter (\<lambda>p. p \<noteq> Some sq) (group_seqs g)"
proof -
  from assms obtain v xs where v: "holder g = Some v" "vecs g v = Some xs"
    by (auto simp: gating_ok_def)
  then have seqs: "group_seqs g = xs" by (simp add: group_seqs_def vec_at_def)
  have count: "count_seq sq xs = 0 \<longleftrightarrow> sq \<notin> ptrs xs"
    by (simp add: count_seq_def filter_empty_conv ptrs_def) blast
  show thesis
  proof (cases "sq \<in> ptrs xs")
    case True
    let ?g' = "g\<lparr>holder := Some (nextVec g),
                 vecs := (vecs g)(v := None, nextVec g \<mapsto> filter (\<lambda>p. p \<noteq> Some sq) xs),
                 nextVec := Suc (nextVec g)\<rparr>"
    show thesis
    proof (rule that [of ?g'])
      show "removeSequence [] sq g = Some (sq \<in> ptrs (group_seqs g), ?g')"
        using v True count
        by (simp add: removeSequence_round_def asp_load_def asp_cas_def vec_at_def seqs Let_def)
      show "gating_ok ?g'" using assms by (auto simp: gating_ok_def)
      show "group_seqs ?g' = filter (\<lambda>p. p \<noteq> Some sq) (group_seqs g)"
        unfolding seqs by (simp add: group_seqs_def vec_at_def)
    qed
  next
    case False
    show thesis
    proof (rule that [of g])
      show "removeSequence [] sq g = Some (sq \<in> ptrs (group_seqs g), g)"
        using v False count by (simp add: removeSequence_round_def asp_load_def vec_at_def seqs)
      show "gating_ok g" by (rule assms)
      have "filter (\<lambda>p. p \<noteq> Some sq) xs = xs"
        using False by (auto simp: filter_id_conv ptrs_def)
      then show "group_seqs g = filter (\<lambda>p. p \<noteq> Some sq) (group_seqs g)" by (simp add: seqs)
    qed
  qed
qed

section \<open>Calls under interference\<close>

text \<open>
  What other threads may do to the holder while a call runs: allocate fresh vectors, install
  a fresh one, free vectors that are no longer installed; a live vector never changes, and
  the holder never goes back to a vector it left.  Every call of \<open>addSequences\<close> and
  \<open>removeSequence\<close> does no more than that.
\<close>

definition vec_rely :: "gating \<Rightarrow> gating \<Rightarrow> bool" where
  "vec_rely g g' \<longleftrightarrow>
     gating_ok g' \<and> nextVec g \<le> nextVec g' \<and>
     (\<forall>v < nextVec g. vecs g' v = vecs g v \<or> vecs g' v = None) \<and>
     (holder g' = holder g \<or> (\<exists>v \<ge> nextVec g. holder g' = Some v))"

lemma vec_rely_refl: "gating_ok g \<Longrightarrow> vec_rely g g"
  by (simp add: vec_rely_def)

lemma vec_rely_trans: "vec_rely g g' \<Longrightarrow> vec_rely g' g'' \<Longrightarrow> vec_rely g g''"
  unfolding vec_rely_def by (metis le_trans less_le_trans)

lemma vec_rely_same_seqs:
  assumes "gating_ok g" and "vec_rely g g'" and "holder g' = holder g"
  shows "group_seqs g' = group_seqs g"
proof -
  from assms(1) obtain v xs where v: "holder g = Some v" "vecs g v = Some xs"
    by (auto simp: gating_ok_def)
  then have "v < nextVec g" using assms(1) by (metis gating_ok_def not_le option.discI)
  moreover have "vecs g' v \<noteq> None" using assms(2,3) v by (auto simp: vec_rely_def gating_ok_def)
  ultimately have "vecs g' v = vecs g v" using assms(2) by (auto simp: vec_rely_def)
  then show ?thesis using v assms(3) by (simp add: group_seqs_def vec_at_def)
qed

definition rely_env :: "(store \<times> gating \<Rightarrow> store \<times> gating) \<Rightarrow> bool" where
  "rely_env env \<longleftrightarrow> (\<forall>\<sigma> g. gating_ok g \<longrightarrow> vec_rely g (snd (env (\<sigma>, g))))"

lemma rely_env_id: "rely_env id"
  by (simp add: rely_env_def vec_rely_refl)

text \<open>
  One round: it fails and has installed nothing, or it succeeds and has appended the new
  pointers to the vector that was installed at the moment of the exchange.
\<close>

lemma addSequences_round_cases:
  assumes ok: "gating_ok g" and env: "rely_env env"
    and round: "addSequences_round getCursor new env (\<sigma>, g) = (done, \<sigma>', g')"
  shows "gating_ok g'" and "vec_rely g g'"
    and "done \<Longrightarrow> \<exists>gx. vec_rely g gx \<and> gating_ok gx \<and> group_seqs g' = group_seqs gx @ new"
    and "env = id \<Longrightarrow> done"
proof -
  from ok obtain v xs where v: "holder g = Some v" "vecs g v = Some xs"
    by (auto simp: gating_ok_def)
  then have fresh: "v < nextVec g" using ok by (metis gating_ok_def not_le option.discI)
  let ?g1 = "g\<lparr>nextVec := Suc (nextVec g)\<rparr>"
  let ?\<sigma>1 = "set_all new (getCursor \<sigma> g) \<sigma>"
  obtain \<sigma>2 g2 where g2: "env (?\<sigma>1, ?g1) = (\<sigma>2, g2)" by (cases "env (?\<sigma>1, ?g1)")
  have g1: "gating_ok ?g1" using ok by (auto simp: gating_ok_def)
  then have rely2: "vec_rely ?g1 g2" using env g2 unfolding rely_env_def by (metis snd_conv)
  have rely1: "vec_rely g ?g1" using g1 by (simp add: vec_rely_def)
  have rely: "vec_rely g g2" using rely1 rely2 by (rule vec_rely_trans)
  have ok2: "gating_ok g2" using rely2 by (simp add: vec_rely_def)
  have next2: "nextVec g < nextVec g2" using rely2 by (simp add: vec_rely_def)
  let ?g3 = "g2\<lparr>holder := Some (nextVec g),
                vecs := (vecs g2)(v := None, nextVec g \<mapsto> xs @ new)\<rparr>"
  have result: "(done, \<sigma>', g') = (if holder g2 = Some v then (True, \<sigma>2, ?g3) else (False, \<sigma>2, g2))"
    using round v g2
    by (auto simp: addSequences_round_def asp_load_def asp_cas_def vec_at_def Let_def)
  have ok3: "gating_ok ?g3" using ok2 next2 fresh by (auto simp: gating_ok_def)
  have rely3: "vec_rely g ?g3"
    using rely ok3 by (auto simp: vec_rely_def)
  have seqs: "group_seqs g2 = xs" if "holder g2 = Some v"
    using vec_rely_same_seqs [OF ok rely] that v by (simp add: group_seqs_def vec_at_def)
  show "gating_ok g'" using result ok2 ok3 by (auto split: if_splits)
  show "vec_rely g g'" using result rely rely3 by (auto split: if_splits)
  show "\<exists>gx. vec_rely g gx \<and> gating_ok gx \<and> group_seqs g' = group_seqs gx @ new" if "done"
    using result that rely ok2 seqs
    by (intro exI [of _ g2]) (auto split: if_splits simp: group_seqs_def vec_at_def)
  show "done" if "env = id"
    using result that g2 v(1) by (auto split: if_splits)
qed

text \<open>
  The call ends for every finite amount of interference; it is one atomic append, and the
  added sequences start at the cursor as read after the append.
\<close>

lemma addSequences_atomic:
  assumes "gating_ok g" and "\<forall>env\<in>set script. rely_env env"
  shows "\<exists>\<sigma>' g' gx \<sigma>x. addSequences getCursor script new (\<sigma>, g) = Some (\<sigma>', g') \<and>
           gating_ok g' \<and> vec_rely g g' \<and> vec_rely g gx \<and> group_seqs g' = group_seqs gx @ new \<and>
           \<sigma>' = set_all new (getCursor \<sigma>x g') \<sigma>x"
  using assms
proof (induction script arbitrary: \<sigma> g)
  case Nil
  obtain d \<sigma>' g' where r: "addSequences_round getCursor new id (\<sigma>, g) = (d, \<sigma>', g')"
    by (cases "addSequences_round getCursor new id (\<sigma>, g)") auto
  note c = addSequences_round_cases [OF Nil.prems(1) rely_env_id r]
  from c(4) have "d" by simp
  with r c(1,2) c(3) show ?case by (fastforce simp: Let_def)
next
  case (Cons env script)
  obtain d \<sigma>' g' where r: "addSequences_round getCursor new env (\<sigma>, g) = (d, \<sigma>', g')"
    by (cases "addSequences_round getCursor new env (\<sigma>, g)") auto
  have env: "rely_env env" and rest: "\<forall>env\<in>set script. rely_env env"
    using Cons.prems(2) by simp_all
  note c = addSequences_round_cases [OF Cons.prems(1) env r]
  show ?case
  proof (cases d)
    case True
    with r c(1,2) c(3) show ?thesis by (fastforce simp: Let_def)
  next
    case False
    then have "addSequences getCursor (env # script) new (\<sigma>, g)
        = addSequences getCursor script new (\<sigma>', g')"
      using r by simp
    with Cons.IH [OF c(1) rest, of \<sigma>'] show ?thesis
      using vec_rely_trans [OF c(2)] by (metis (no_types, lifting))
  qed
qed

text \<open>
  A null holder is never repaired: the round compares a fresh address with null, so the
  exchange cannot succeed.  The constructors never leave a null holder.
\<close>

lemma addSequences_null_diverges:
  assumes "holder g = None"
  shows "addSequences getCursor (replicate n id) new (\<sigma>, g) = None"
  using assms
proof (induction n arbitrary: \<sigma> g)
  case 0
  then show ?case
    by (simp add: addSequences_round_def asp_load_def asp_cas_def Let_def)
next
  case (Suc n)
  then show ?case
    by (simp add: addSequences_round_def asp_load_def asp_cas_def Let_def)
qed

text \<open>From here on the calls are used through the lemmas above.\<close>

declare addSequences.simps [simp del] removeSequence.simps [simp del]

lemma set_all_idem [simp]: "set_all xs v (set_all xs v \<sigma>) = set_all xs v \<sigma>"
  by (rule ext) simp

section \<open>Properties\<close>



end
