(* ===== verification/Group_Objects.thy ===== *)
theory Group_Objects
  imports Seq_Groups
begin

text \<open>
  The subclasses of \<open>Sequence\<close>: \<open>SequenceGroup\<close> (\<open>SequenceGroup.h\<close>), \<open>FixedSequenceGroup\<close>
  (\<open>FixedSequenceGroup.h\<close>) and the \<open>SequencerFollowingSequence\<close> of \<open>NoOpEventProcessor.h\<close>.
  Here the memory maps an address to an object, and \<open>get\<close> and \<open>set\<close> are virtual calls that
  may recurse through the members of a group.  The fuel bounds the nesting depth followed;
  \<open>vget_enough\<close> shows that a depth above the rank of the object is enough.  The store of the
  other components maps an address to the result of this \<open>get\<close>.
\<close>

datatype seq_obj =
    PlainSequence int
  | FixedGroup seqs
  | DynamicGroup "seqs option"
  | CursorFollower sid

type_synonym heap = "sid \<Rightarrow> seq_obj"

section \<open>Virtual get\<close>

fun vmin :: "(sid \<Rightarrow> int option) \<Rightarrow> seqs \<Rightarrow> int \<Rightarrow> int option" where
  "vmin get [] minimum = Some minimum"
| "vmin get (None # xs) minimum = vmin get xs minimum"
| "vmin get (Some s # xs) minimum =
     (case get s of None \<Rightarrow> None | Some value \<Rightarrow> vmin get xs (min minimum value))"

fun vget :: "nat \<Rightarrow> heap \<Rightarrow> sid \<Rightarrow> int option" where
  "vget 0 h s = None"
| "vget (Suc n) h s =
     (case h s of
        PlainSequence v \<Rightarrow> Some v
      | FixedGroup ms \<Rightarrow> vmin (vget n h) ms int64_max
      | DynamicGroup None \<Rightarrow> Some int64_max
      | DynamicGroup (Some ms) \<Rightarrow> vmin (vget n h) ms int64_max
      | CursorFollower c \<Rightarrow> vget n h c)"

section \<open>Virtual set\<close>

definition UNSUPPORTED :: exn where
  "UNSUPPORTED = RuntimeErr ''UnsupportedOperationException''"

fun vset_all :: "(heap \<Rightarrow> sid \<Rightarrow> (exn + heap) option) \<Rightarrow> seqs \<Rightarrow> heap \<Rightarrow> (exn + heap) option" where
  "vset_all setter [] h = Some (Inr h)"
| "vset_all setter (None # xs) h = vset_all setter xs h"
| "vset_all setter (Some s # xs) h =
     (case setter h s of
        None \<Rightarrow> None
      | Some (Inl e) \<Rightarrow> Some (Inl e)
      | Some (Inr h') \<Rightarrow> vset_all setter xs h')"

fun vset :: "nat \<Rightarrow> int \<Rightarrow> heap \<Rightarrow> sid \<Rightarrow> (exn + heap) option" where
  "vset 0 v h s = None"
| "vset (Suc n) v h s =
     (case h s of
        PlainSequence _ \<Rightarrow> Some (Inr (h(s := PlainSequence v)))
      | FixedGroup ms \<Rightarrow> Some (Inl UNSUPPORTED)
      | DynamicGroup None \<Rightarrow> Some (Inr h)
      | DynamicGroup (Some ms) \<Rightarrow> vset_all (vset n v) ms h
      | CursorFollower c \<Rightarrow> Some (Inr h))"

section \<open>The methods of the two group classes\<close>

definition new_FixedSequenceGroup :: "seqs \<Rightarrow> seq_obj" where
  "new_FixedSequenceGroup sequences = FixedGroup sequences"

definition FixedSequenceGroup_compareAndSet :: "int \<Rightarrow> int \<Rightarrow> exn + bool" where
  "FixedSequenceGroup_compareAndSet expectedValue newValue = Inl UNSUPPORTED"

definition FixedSequenceGroup_incrementAndGet :: "exn + int" where
  "FixedSequenceGroup_incrementAndGet = Inl UNSUPPORTED"

definition FixedSequenceGroup_addAndGet :: "int \<Rightarrow> exn + int" where
  "FixedSequenceGroup_addAndGet increment = Inl UNSUPPORTED"

definition new_SequenceGroup :: seq_obj where
  "new_SequenceGroup = DynamicGroup (Some [])"

definition SequenceGroup_get :: "store \<Rightarrow> gating \<Rightarrow> int" where
  "SequenceGroup_get \<sigma> g =
     (case holder g of
        None \<Rightarrow> int64_max
      | Some v \<Rightarrow> getMinimumSequence_max \<sigma> (vec_at g (Some v)))"

definition SequenceGroup_set :: "int \<Rightarrow> gating \<Rightarrow> store \<Rightarrow> store" where
  "SequenceGroup_set value g \<sigma> =
     (case holder g of None \<Rightarrow> \<sigma> | Some v \<Rightarrow> set_all (vec_at g (Some v)) value \<sigma>)"

definition SequenceGroup_size :: "gating \<Rightarrow> int" where
  "SequenceGroup_size g =
     (case holder g of None \<Rightarrow> 0 | Some v \<Rightarrow> int (length (vec_at g (Some v))))"

definition SequenceGroup_add ::
  "(store \<times> gating \<Rightarrow> store \<times> gating) list \<Rightarrow> sid \<Rightarrow> store \<times> gating \<Rightarrow> (store \<times> gating) option" where
  "SequenceGroup_add script sequence w = addSequences SequenceGroup_get script [Some sequence] w"

definition SequenceGroup_addWhileRunning ::
  "sid \<Rightarrow> (store \<times> gating \<Rightarrow> store \<times> gating) list \<Rightarrow> sid \<Rightarrow> store \<times> gating
     \<Rightarrow> (store \<times> gating) option" where
  "SequenceGroup_addWhileRunning cursored script sequence w =
     addSequences (\<lambda>\<sigma> g. seq_get \<sigma> cursored) script [Some sequence] w"

definition SequenceGroup_remove ::
  "(gating \<Rightarrow> gating) list \<Rightarrow> sid \<Rightarrow> gating \<Rightarrow> (bool \<times> gating) option" where
  "SequenceGroup_remove script sequence g = removeSequence script sequence g"

section \<open>Enough depth\<close>

fun members :: "seq_obj \<Rightarrow> sid set" where
  "members (PlainSequence v) = {}"
| "members (FixedGroup ms) = ptrs ms"
| "members (DynamicGroup None) = {}"
| "members (DynamicGroup (Some ms)) = ptrs ms"
| "members (CursorFollower c) = {c}"

text \<open>No group contains itself: there is a rank that falls along membership.\<close>

definition ranked :: "(sid \<Rightarrow> nat) \<Rightarrow> heap \<Rightarrow> bool" where
  "ranked r h \<longleftrightarrow> (\<forall>s. \<forall>m\<in>members (h s). r m < r s)"

lemma vmin_Some:
  "(\<forall>s\<in>ptrs ms. get s = Some (\<sigma> s)) \<Longrightarrow> vmin get ms m = Some (getMinimumSequence \<sigma> ms m)"
  by (induction get ms m rule: vmin.induct) (auto simp: seq_get_def)

lemma vget_enough: "ranked r h \<Longrightarrow> r s < n \<Longrightarrow> \<exists>v. vget n h s = Some v"
proof (induction n arbitrary: s)
  case 0
  then show ?case by simp
next
  case (Suc n)
  have "\<forall>m\<in>members (h s). vget n h m = Some (the (vget n h m))"
  proof
    fix m assume "m \<in> members (h s)"
    with Suc.prems have "r m < n" by (fastforce simp: ranked_def)
    with Suc.IH [OF Suc.prems(1)] show "vget n h m = Some (the (vget n h m))" by fastforce
  qed
  then show ?case
    by (auto simp: vmin_Some [where \<sigma> = "\<lambda>m. the (vget n h m)"] split: seq_obj.splits option.splits)
qed

lemma vmin_mono:
  "(\<And>s v. get s = Some v \<Longrightarrow> get' s = Some v) \<Longrightarrow> vmin get ms m = Some r \<Longrightarrow> vmin get' ms m = Some r"
  by (induction get ms m rule: vmin.induct) (auto split: option.splits)

lemma vget_more: "vget n h s = Some v \<Longrightarrow> vget (Suc n) h s = Some v"
proof (induction n arbitrary: s v)
  case 0
  then show ?case by simp
next
  case (Suc n)
  have "vmin (vget (Suc n) h) ms m = Some r" if "vmin (vget n h) ms m = Some r" for ms m r
    using that by (rule vmin_mono [rotated]) (rule Suc.IH)
  then show ?case
    using Suc.prems Suc.IH unfolding vget.simps(2) [of n h s] vget.simps(2) [of "Suc n" h s]
    by (auto split: seq_obj.splits option.splits simp del: vget.simps)
qed

lemma vget_le: "n \<le> n' \<Longrightarrow> vget n h s = Some v \<Longrightarrow> vget n' h s = Some v"
  by (induction rule: dec_induct) (auto intro: vget_more simp del: vget.simps)

text \<open>The store that the other components see: what \<open>get()\<close> of each object returns.\<close>

definition store_of :: "(sid \<Rightarrow> nat) \<Rightarrow> heap \<Rightarrow> store" where
  "store_of r h = (\<lambda>s. the (vget (Suc (r s)) h s))"

lemma vget_store_of: "ranked r h \<Longrightarrow> r s < n \<Longrightarrow> vget n h s = Some (store_of r h s)"
proof -
  assume "ranked r h" and n: "r s < n"
  then obtain v where v: "vget (Suc (r s)) h s = Some v" using vget_enough by blast
  from Suc_leI [OF n] v have "vget n h s = Some v" by (rule vget_le)
  then show ?thesis by (simp only: store_of_def v option.sel)
qed

lemma store_of_group:
  assumes "ranked r h" and "h s = FixedGroup ms \<or> h s = DynamicGroup (Some ms)"
  shows "store_of r h s = getMinimumSequence_max (store_of r h) ms"
proof -
  have "members (h s) = ptrs ms" using assms(2) by auto
  then have "\<forall>m\<in>ptrs ms. r m < r s" using assms(1) by (auto simp: ranked_def)
  then have "\<forall>m\<in>ptrs ms. vget (r s) h m = Some (store_of r h m)"
    using vget_store_of [OF assms(1)] by blast
  then have "vmin (vget (r s) h) ms int64_max = Some (getMinimumSequence_max (store_of r h) ms)"
    by (simp add: vmin_Some getMinimumSequence_max_def)
  then show ?thesis using assms(2) by (auto simp: store_of_def)
qed

end
