(* ===== verification/Abstract_Sequencer.thy ===== *)
theory Abstract_Sequencer
  imports Group_Objects
begin

text \<open>
  \<open>AbstractSequencer\<close> (\<open>include/disruptor/AbstractSequencer.h\<close>), the state and operations
  shared by the two sequencers.  The concrete sequencers extend the record, as the classes
  extend the base class.  The wait strategy appears as what a sequencer uses of it: whether it
  is a blocking one, and how often \<open>signalAllWhenBlocking\<close> was called.
\<close>

record abstract_sequencer =
  bufferSize :: int
  cursor :: sid
  gatingSequences :: gating
  kIsBlockingStrategy :: bool
  signals :: nat

definition check_bufferSize :: "int \<Rightarrow> exn option" where
  "check_bufferSize n =
     (if n < 1 then Some (InvalidArgument ''bufferSize must not be less than 1'')
      else if n AND (n - 1) \<noteq> 0 then Some (InvalidArgument ''bufferSize must be a power of 2'')
      else None)"

definition getCursor :: "store \<Rightarrow> 'a abstract_sequencer_scheme \<Rightarrow> int" where
  "getCursor \<sigma> s = seq_get \<sigma> (cursor s)"

definition getBufferSize :: "'a abstract_sequencer_scheme \<Rightarrow> int" where
  "getBufferSize s = bufferSize s"

definition cursorSequence :: "'a abstract_sequencer_scheme \<Rightarrow> sid" where
  "cursorSequence s = cursor s"

definition signalAll :: "'a abstract_sequencer_scheme \<Rightarrow> 'a abstract_sequencer_scheme" where
  "signalAll s = (if kIsBlockingStrategy s then s\<lparr>signals := Suc (signals s)\<rparr> else s)"

definition as_addGatingSequences ::
  "(store \<times> gating \<Rightarrow> store \<times> gating) list \<Rightarrow> seqs \<Rightarrow> store \<times> 'a abstract_sequencer_scheme
     \<Rightarrow> (store \<times> 'a abstract_sequencer_scheme) option" where
  "as_addGatingSequences script new w =
     (let (\<sigma>, s) = w in
      map_option (\<lambda>(\<sigma>', g'). (\<sigma>', s\<lparr>gatingSequences := g'\<rparr>))
        (addSequences (\<lambda>\<sigma> g. seq_get \<sigma> (cursor s)) script new (\<sigma>, gatingSequences s)))"

definition as_removeGatingSequence ::
  "(gating \<Rightarrow> gating) list \<Rightarrow> sid \<Rightarrow> 'a abstract_sequencer_scheme
     \<Rightarrow> (bool \<times> 'a abstract_sequencer_scheme) option" where
  "as_removeGatingSequence script sq s =
     map_option (\<lambda>(r, g'). (r, s\<lparr>gatingSequences := g'\<rparr>))
       (removeSequence script sq (gatingSequences s))"

definition as_getMinimumSequence :: "store \<Rightarrow> 'a abstract_sequencer_scheme \<Rightarrow> int" where
  "as_getMinimumSequence \<sigma> s =
     (case asp_load (holder (gatingSequences s)) of
        None \<Rightarrow> seq_get \<sigma> (cursor s)
      | Some v \<Rightarrow> getMinimumSequence \<sigma> (vec_at (gatingSequences s) (Some v)) (seq_get \<sigma> (cursor s)))"

text \<open>The consumers that hold a sequencer back.\<close>

definition gates :: "'a abstract_sequencer_scheme \<Rightarrow> sid set" where
  "gates s = ptrs (group_seqs (gatingSequences s))"

text \<open>The slowest of them, or \<open>d\<close> when that is less: what \<open>minimumSequence(d)\<close> returns.\<close>

definition gate_min :: "int \<Rightarrow> store \<Rightarrow> 'a abstract_sequencer_scheme \<Rightarrow> int" where
  "gate_min d \<sigma> s = Min (insert d (\<sigma> ` gates s))"

lemma finite_gates [simp]: "finite (gates s)"
  by (simp add: gates_def)

lemma gate_min_ge_iff: "b \<le> gate_min d \<sigma> s \<longleftrightarrow> b \<le> d \<and> (\<forall>c\<in>gates s. b \<le> \<sigma> c)"
  by (simp add: gate_min_def)

lemma gate_min_le: "gate_min d \<sigma> s \<le> d" "c \<in> gates s \<Longrightarrow> gate_min d \<sigma> s \<le> \<sigma> c"
  by (simp_all add: gate_min_def)

lemma gate_min_snapshot:
  assumes "gating_ok (gatingSequences s)"
  obtains v xs where "holder (gatingSequences s) = Some v" and "vecs (gatingSequences s) v = Some xs"
    and "vec_at (gatingSequences s) (Some v) = xs"
    and "\<And>\<sigma> d. getMinimumSequence \<sigma> xs d = gate_min d \<sigma> s"
proof -
  from assms obtain v xs where v: "holder (gatingSequences s) = Some v"
      "vecs (gatingSequences s) v = Some xs"
    by (auto simp: gating_ok_def)
  show thesis
    by (rule that [OF v])
      (use v in \<open>simp_all add: vec_at_def getMinimumSequence_Min gate_min_def gates_def group_seqs_def\<close>)
qed

lemma check_bufferSize_None: "check_bufferSize n = None \<longleftrightarrow> is_pow2 n"
  by (auto simp: check_bufferSize_def is_pow2_def)

lemma signalAll_simps [simp]:
  "bufferSize (signalAll s) = bufferSize s" "cursor (signalAll s) = cursor s"
  "gatingSequences (signalAll s) = gatingSequences s"
  "kIsBlockingStrategy (signalAll s) = kIsBlockingStrategy s"
  "abstract_sequencer.more (signalAll s) = abstract_sequencer.more s"
  "gates (signalAll s) = gates s"
  "signals (signalAll s) = (if kIsBlockingStrategy s then Suc (signals s) else signals s)"
  by (simp_all add: signalAll_def gates_def)

text \<open>
  With at least one gating sequence not ahead of the cursor the minimum is the slowest
  consumer; with none it is the cursor.
\<close>

lemma as_getMinimumSequence_eq:
  "gating_ok (gatingSequences s) \<Longrightarrow>
     as_getMinimumSequence \<sigma> s = Min (insert (\<sigma> (cursor s)) (\<sigma> ` gates s))"
  by (auto simp: gating_ok_def as_getMinimumSequence_def asp_load_def getMinimumSequence_Min
      gates_def group_seqs_def seq_get_def)

lemma as_addGatingSequences_alone:
  assumes "gating_ok (gatingSequences s)"
  obtains g' where
    "as_addGatingSequences [] new (\<sigma>, s) =
       Some (set_all new (\<sigma> (cursor s)) \<sigma>, s\<lparr>gatingSequences := g'\<rparr>)"
    and "gating_ok g'" and "group_seqs g' = group_seqs (gatingSequences s) @ new"
proof -
  let ?c = "\<lambda>\<sigma> g. seq_get \<sigma> (cursor s)"
  have "set_all new (\<sigma> (cursor s)) \<sigma> (cursor s) = \<sigma> (cursor s)" by simp
  then obtain g' where g':
      "addSequences ?c [] new (\<sigma>, gatingSequences s) = Some (set_all new (\<sigma> (cursor s)) \<sigma>, g')"
    and ok: "gating_ok g'" "group_seqs g' = group_seqs (gatingSequences s) @ new"
    using addSequences_alone [OF assms, where getCursor = ?c and new = new and \<sigma> = \<sigma>]
    unfolding seq_get_def by (metis set_all_idem)
  show thesis
    by (rule that [OF _ ok]) (simp add: as_addGatingSequences_def g')
qed

lemma as_removeGatingSequence_alone:
  assumes "gating_ok (gatingSequences s)"
  obtains g' where
    "as_removeGatingSequence [] sq s = Some (sq \<in> gates s, s\<lparr>gatingSequences := g'\<rparr>)"
    and "gating_ok g'"
    and "group_seqs g' = filter (\<lambda>p. p \<noteq> Some sq) (group_seqs (gatingSequences s))"
proof -
  obtain g' where g': "removeSequence [] sq (gatingSequences s) =
      Some (sq \<in> ptrs (group_seqs (gatingSequences s)), g')"
    and ok: "gating_ok g'"
      "group_seqs g' = filter (\<lambda>p. p \<noteq> Some sq) (group_seqs (gatingSequences s))"
    using removeSequence_alone [OF assms, of sq] by metis
  show thesis
    by (rule that [OF _ ok]) (simp add: as_removeGatingSequence_def g' gates_def)
qed

end
