(* ===== verification/Expected_Result.thy ===== *)
theory Expected_Result
  imports Prelude
begin

text \<open>
  \<open>Error\<close> (\<open>include/disruptor/Error.h\<close>) and the \<open>Expected\<close> polyfill
  (\<open>include/disruptor/Expected.h\<close>): a flag and a union.  Reading or destroying the member of
  the union that is not active has no defined behaviour, so these operations return an
  option.  The invariant says the flag always names the active member; with it every
  operation is defined and the class behaves as the sum type \<open>'e + 't\<close>, which is what the
  sequencers' models return.
\<close>

section \<open>Error\<close>

datatype error_code = InsufficientCapacity | InvalidArgumentCode | RuntimeErrorCode

record error =
  err_code :: error_code
  err_message :: string

definition error_insufficient_capacity :: error where
  "error_insufficient_capacity =
     \<lparr>err_code = InsufficientCapacity, err_message = ''InsufficientCapacityException''\<rparr>"

definition error_invalid_argument :: "string \<Rightarrow> error" where
  "error_invalid_argument msg = \<lparr>err_code = InvalidArgumentCode, err_message = msg\<rparr>"

definition error_runtime_error :: "string \<Rightarrow> error" where
  "error_runtime_error msg = \<lparr>err_code = RuntimeErrorCode, err_message = msg\<rparr>"

section \<open>Expected\<close>

datatype ('t, 'e) storage = ActiveValue 't | ActiveError 'e | NoneActive

record ('t, 'e) expected =
  hasValue :: bool
  storage :: "('t, 'e) storage"

definition expected_value :: "'t \<Rightarrow> ('t, 'e) expected" where
  "expected_value v = \<lparr>hasValue = True, storage = ActiveValue v\<rparr>"

definition expected_unexpected :: "'e \<Rightarrow> ('t, 'e) expected" where
  "expected_unexpected e = \<lparr>hasValue = False, storage = ActiveError e\<rparr>"

fun read_value :: "('t, 'e) storage \<Rightarrow> 't option" where
  "read_value (ActiveValue v) = Some v"
| "read_value _ = None"

fun read_error :: "('t, 'e) storage \<Rightarrow> 'e option" where
  "read_error (ActiveError e) = Some e"
| "read_error _ = None"

definition expected_copy :: "('t, 'e) expected \<Rightarrow> ('t, 'e) expected option" where
  "expected_copy src =
     (if hasValue src
      then map_option (\<lambda>v. \<lparr>hasValue = hasValue src, storage = ActiveValue v\<rparr>) (read_value (storage src))
      else map_option (\<lambda>e. \<lparr>hasValue = hasValue src, storage = ActiveError e\<rparr>) (read_error (storage src)))"

definition expected_destroy :: "('t, 'e) expected \<Rightarrow> ('t, 'e) expected option" where
  "expected_destroy x =
     (if hasValue x
      then map_option (\<lambda>_. x\<lparr>storage := NoneActive\<rparr>) (read_value (storage x))
      else map_option (\<lambda>_. x\<lparr>storage := NoneActive\<rparr>) (read_error (storage x)))"

text \<open>Assignment; the first argument says whether both sides are the same object.\<close>

definition expected_assign ::
  "bool \<Rightarrow> ('t, 'e) expected \<Rightarrow> ('t, 'e) expected \<Rightarrow> ('t, 'e) expected option" where
  "expected_assign same x src =
     (if same then Some x
      else case expected_destroy x of
             None \<Rightarrow> None
           | Some x1 \<Rightarrow>
               let x2 = x1\<lparr>hasValue := hasValue src\<rparr> in
               if hasValue x2
               then map_option (\<lambda>v. x2\<lparr>storage := ActiveValue v\<rparr>) (read_value (storage src))
               else map_option (\<lambda>e. x2\<lparr>storage := ActiveError e\<rparr>) (read_error (storage src)))"

definition expected_has_value :: "('t, 'e) expected \<Rightarrow> bool" where
  "expected_has_value x = hasValue x"

text \<open>The assertion of \<open>value()\<close> and \<open>error()\<close> fails, or the read has no result.\<close>

definition expected_get_value :: "('t, 'e) expected \<Rightarrow> 't option" where
  "expected_get_value x = (if hasValue x then read_value (storage x) else None)"

definition expected_get_error :: "('t, 'e) expected \<Rightarrow> 'e option" where
  "expected_get_error x = (if \<not> hasValue x then read_error (storage x) else None)"

section \<open>Expected is the sum type\<close>

definition expected_ok :: "('t, 'e) expected \<Rightarrow> bool" where
  "expected_ok x \<longleftrightarrow>
     (case storage x of ActiveValue _ \<Rightarrow> hasValue x | ActiveError _ \<Rightarrow> \<not> hasValue x | NoneActive \<Rightarrow> False)"

fun expected_abs :: "('t, 'e) expected \<Rightarrow> ('e + 't) option" where
  "expected_abs x =
     (case storage x of ActiveValue v \<Rightarrow> Some (Inr v) | ActiveError e \<Rightarrow> Some (Inl e) | NoneActive \<Rightarrow> None)"

lemma expected_ok_intros [inv_intros]:
  "expected_ok (expected_value v)" "expected_ok (expected_unexpected e)"
  by (simp_all add: expected_ok_def expected_value_def expected_unexpected_def)

lemma expected_copy_ok: "expected_ok src \<Longrightarrow> expected_copy src = Some src"
  by (cases "storage src") (auto simp: expected_ok_def expected_copy_def)

lemma expected_assign_ok:
  "expected_ok x \<Longrightarrow> expected_ok src \<Longrightarrow> expected_assign same x src = Some (if same then x else src)"
  by (cases "storage x"; cases "storage src")
    (auto simp: expected_ok_def expected_assign_def expected_destroy_def Let_def)

lemma expected_reads:
  "expected_ok x \<Longrightarrow> expected_abs x = Some r \<Longrightarrow>
     expected_has_value x = (\<exists>v. r = Inr v) \<and>
     expected_get_value x = (case r of Inl _ \<Rightarrow> None | Inr v \<Rightarrow> Some v) \<and>
     expected_get_error x = (case r of Inl e \<Rightarrow> Some e | Inr _ \<Rightarrow> None)"
  by (cases "storage x")
    (auto simp: expected_ok_def expected_has_value_def expected_get_value_def expected_get_error_def)

section \<open>Properties\<close>



end
