(* ===== verification/Single_Producer.thy ===== *)
theory Single_Producer
  imports Abstract_Sequencer Expected_Result
begin

text \<open>
  \<open>SingleProducerSequencer\<close> (\<open>include/disruptor/SingleProducerSequencer.h\<close>).

  The cached pointer to the gating vector is an address into the vectors of the gating state;
  reading through it fails with \<open>UseAfterFree\<close> when the vector is gone.  The waiting loop of
  \<open>next\<close> runs against a script: what the other threads do to the store of sequences between
  one evaluation of the loop's condition and the following one.  \<open>None\<close> is a call that is
  still waiting when the script ends.
\<close>

section \<open>State\<close>

record sp_sequencer = abstract_sequencer +
  nextValue :: int
  cachedValue :: int
  sp_gatingCache :: "nat option"
  producerThread :: "nat option"
  wrapWaitEntries :: "64 word"
  wrapWaitLoops :: "64 word"

text \<open>
  The constructor.  The debug-only table of producer threads is keyed by the address of the
  sequencer, and nothing removes an entry: \<open>stale\<close> is what the table holds for the address.
\<close>

definition new_sp ::
  "sid \<Rightarrow> bool \<Rightarrow> nat option \<Rightarrow> int \<Rightarrow> store \<Rightarrow> exn + store \<times> sp_sequencer" where
  "new_sp cursorId blocking stale n \<sigma> =
     (case check_bufferSize n of
        Some e \<Rightarrow> Inl e
      | None \<Rightarrow> Inr (seq_new cursorId INITIAL_VALUE \<sigma>,
          \<lparr>bufferSize = n, cursor = cursorId, gatingSequences = new_gating,
           kIsBlockingStrategy = blocking, signals = 0,
           nextValue = INITIAL_VALUE, cachedValue = INITIAL_VALUE, sp_gatingCache = None,
           producerThread = stale, wrapWaitEntries = 0, wrapWaitLoops = 0\<rparr>))"

section \<open>Operations\<close>

definition sp_minimumSequence :: "int \<Rightarrow> store \<Rightarrow> sp_sequencer \<Rightarrow> (exn + int) \<times> sp_sequencer" where
  "sp_minimumSequence defaultMin \<sigma> s =
     (case sp_gatingCache s of
        None \<Rightarrow>
          (case asp_load (holder (gatingSequences s)) of
             None \<Rightarrow> (Inr defaultMin, s)
           | Some v \<Rightarrow>
               (Inr (getMinimumSequence \<sigma> (vec_at (gatingSequences s) (Some v)) defaultMin),
                s\<lparr>sp_gatingCache := Some v\<rparr>))
      | Some v \<Rightarrow>
          (case vecs (gatingSequences s) v of
             None \<Rightarrow> (Inl UseAfterFree, s)
           | Some xs \<Rightarrow> (Inr (getMinimumSequence \<sigma> xs defaultMin), s)))"

definition sp_hasAvailableCapacity ::
  "int \<Rightarrow> bool \<Rightarrow> store \<times> sp_sequencer \<Rightarrow> (exn + bool) \<times> store \<times> sp_sequencer" where
  "sp_hasAvailableCapacity requiredCapacity doStore w =
     (let (\<sigma>, s) = w;
          next = nextValue s;
          wrapPoint = (next + requiredCapacity) - bufferSize s;
          cachedGatingSequence = cachedValue s
      in if wrapPoint > cachedGatingSequence \<or> cachedGatingSequence > next
         then let \<sigma>1 = (if doStore then seq_setVolatile (cursor s) next \<sigma> else \<sigma>)
              in case sp_minimumSequence next \<sigma>1 s of
                   (Inl e, s1) \<Rightarrow> (Inl e, \<sigma>1, s1)
                 | (Inr minSequence, s1) \<Rightarrow>
                     (Inr (\<not> wrapPoint > minSequence), \<sigma>1, s1\<lparr>cachedValue := minSequence\<rparr>)
         else (Inr True, \<sigma>, s))"

text \<open>\<open>sameThread()\<close>: always true in a release build (\<open>NDEBUG\<close>).\<close>

definition sp_sameThread :: "bool \<Rightarrow> nat \<Rightarrow> sp_sequencer \<Rightarrow> bool \<times> sp_sequencer" where
  "sp_sameThread ndebug tid s =
     (if ndebug then (True, s)
      else case producerThread s of
             None \<Rightarrow> (True, s\<lparr>producerThread := Some tid\<rparr>)
           | Some t \<Rightarrow> (t = tid, s))"

fun sp_wrapWait ::
  "(store \<Rightarrow> store) list \<Rightarrow> int \<Rightarrow> int \<Rightarrow> store \<times> sp_sequencer
     \<Rightarrow> ((exn + int) \<times> store \<times> sp_sequencer) option" where
  "sp_wrapWait script wrapPoint next (\<sigma>, s) =
     (case sp_minimumSequence next \<sigma> s of
        (Inl e, s1) \<Rightarrow> Some (Inl e, \<sigma>, s1)
      | (Inr minSequence, s1) \<Rightarrow>
          if wrapPoint > minSequence
          then (case script of
                  [] \<Rightarrow> None
                | env # rest \<Rightarrow>
                    sp_wrapWait rest wrapPoint next
                      (env \<sigma>, s1\<lparr>wrapWaitLoops := wrapWaitLoops s1 + 1\<rparr>))
          else Some (Inr minSequence, \<sigma>, s1))"

declare sp_wrapWait.simps [simp del]

definition sp_next_body ::
  "(store \<Rightarrow> store) list \<Rightarrow> int \<Rightarrow> store \<times> sp_sequencer
     \<Rightarrow> ((exn + int) \<times> store \<times> sp_sequencer) option" where
  "sp_next_body script n w =
     (let (\<sigma>, s) = w in
      if n < 1 \<or> n > bufferSize s
      then Some (Inl (InvalidArgument ''n must be > 0 and < bufferSize''), \<sigma>, s)
      else let next = nextValue s;
               nextSequence = next + n;
               wrapPoint = nextSequence - bufferSize s;
               cachedGatingSequence = cachedValue s
           in if wrapPoint > cachedGatingSequence \<or> cachedGatingSequence > next
              then case sp_wrapWait script wrapPoint next
                          (seq_setVolatile (cursor s) next \<sigma>,
                           s\<lparr>wrapWaitEntries := wrapWaitEntries s + 1\<rparr>) of
                     None \<Rightarrow> None
                   | Some (Inl e, w') \<Rightarrow> Some (Inl e, w')
                   | Some (Inr minSequence, \<sigma>', s') \<Rightarrow>
                       Some (Inr nextSequence, \<sigma>',
                             s'\<lparr>cachedValue := minSequence, nextValue := nextSequence\<rparr>)
              else Some (Inr nextSequence, \<sigma>, s\<lparr>nextValue := nextSequence\<rparr>))"

definition sp_next_n ::
  "bool \<Rightarrow> nat \<Rightarrow> (store \<Rightarrow> store) list \<Rightarrow> int \<Rightarrow> store \<times> sp_sequencer
     \<Rightarrow> ((exn + int) \<times> store \<times> sp_sequencer) option" where
  "sp_next_n ndebug tid script n w =
     (let (\<sigma>, s) = w; (same, s1) = sp_sameThread ndebug tid s in
      if same then sp_next_body script n (\<sigma>, s1)
      else Some (Inl (RuntimeErr ''Accessed by two threads - use ProducerType.MULTI!''), \<sigma>, s1))"

definition sp_next where
  "sp_next ndebug tid script w = sp_next_n ndebug tid script 1 w"

definition sp_tryNext_n ::
  "int \<Rightarrow> store \<times> sp_sequencer \<Rightarrow> (exn + (error + int)) \<times> store \<times> sp_sequencer" where
  "sp_tryNext_n n w =
     (if n < 1 then (Inr (Inl (error_invalid_argument ''n must be > 0'')), w)
      else case sp_hasAvailableCapacity n True w of
             (Inl e, w1) \<Rightarrow> (Inl e, w1)
           | (Inr False, w1) \<Rightarrow> (Inr (Inl error_insufficient_capacity), w1)
           | (Inr True, \<sigma>1, s1) \<Rightarrow>
               (let s2 = s1\<lparr>nextValue := nextValue s1 + n\<rparr> in (Inr (Inr (nextValue s2)), \<sigma>1, s2)))"

definition sp_tryNext where
  "sp_tryNext w = sp_tryNext_n 1 w"

definition sp_hasCapacity ::
  "int \<Rightarrow> store \<times> sp_sequencer \<Rightarrow> (exn + bool) \<times> store \<times> sp_sequencer" where
  "sp_hasCapacity requiredCapacity w = sp_hasAvailableCapacity requiredCapacity False w"

definition sp_remainingCapacity ::
  "store \<times> sp_sequencer \<Rightarrow> (exn + int) \<times> store \<times> sp_sequencer" where
  "sp_remainingCapacity w =
     (let (\<sigma>, s) = w in
      case sp_minimumSequence (nextValue s) \<sigma> s of
        (Inl e, s1) \<Rightarrow> (Inl e, \<sigma>, s1)
      | (Inr consumed, s1) \<Rightarrow>
          let produced = nextValue s in (Inr (getBufferSize s1 - (produced - consumed)), \<sigma>, s1))"

definition sp_claim :: "int \<Rightarrow> store \<times> sp_sequencer \<Rightarrow> store \<times> sp_sequencer" where
  "sp_claim sequence w = (let (\<sigma>, s) = w in (\<sigma>, s\<lparr>nextValue := sequence\<rparr>))"

definition sp_publish :: "int \<Rightarrow> store \<times> sp_sequencer \<Rightarrow> store \<times> sp_sequencer" where
  "sp_publish sequence w = (let (\<sigma>, s) = w in (seq_set (cursor s) sequence \<sigma>, signalAll s))"

definition sp_publish_range :: "int \<Rightarrow> int \<Rightarrow> store \<times> sp_sequencer \<Rightarrow> store \<times> sp_sequencer" where
  "sp_publish_range lo hi w = sp_publish hi w"

definition sp_isAvailable :: "int \<Rightarrow> store \<times> sp_sequencer \<Rightarrow> bool" where
  "sp_isAvailable sequence w =
     (let (\<sigma>, s) = w; currentSequence = seq_get \<sigma> (cursor s) in
      sequence \<le> currentSequence \<and> sequence > currentSequence - bufferSize s)"

definition sp_getHighestPublishedSequence :: "int \<Rightarrow> int \<Rightarrow> store \<times> sp_sequencer \<Rightarrow> int" where
  "sp_getHighestPublishedSequence lowerBound availableSequence w = availableSequence"

definition sp_addGatingSequences ::
  "(store \<times> gating \<Rightarrow> store \<times> gating) list \<Rightarrow> seqs \<Rightarrow> store \<times> sp_sequencer
     \<Rightarrow> (store \<times> sp_sequencer) option" where
  "sp_addGatingSequences script new w =
     map_option (\<lambda>(\<sigma>', s'). (\<sigma>', s'\<lparr>sp_gatingCache := None\<rparr>)) (as_addGatingSequences script new w)"

definition sp_removeGatingSequence ::
  "(gating \<Rightarrow> gating) list \<Rightarrow> sid \<Rightarrow> store \<times> sp_sequencer
     \<Rightarrow> (bool \<times> store \<times> sp_sequencer) option" where
  "sp_removeGatingSequence script sq w =
     (let (\<sigma>, s) = w in
      map_option (\<lambda>(r, s'). (r, \<sigma>, s'\<lparr>sp_gatingCache := None\<rparr>)) (as_removeGatingSequence script sq s))"

section \<open>Invariants\<close>

text \<open>Structure: the buffer size, the gating vectors, and the cached pointer.\<close>

definition sp_wf :: "sp_sequencer \<Rightarrow> bool" where
  "sp_wf s \<longleftrightarrow>
     is_pow2 (bufferSize s) \<and> bufferSize s \<le> 2 ^ 30 \<and> gating_ok (gatingSequences s) \<and>
     (sp_gatingCache s = None \<or> sp_gatingCache s = holder (gatingSequences s))"

text \<open>No consumer is lapped by a claim, and the cached minimum is a lower bound while it is used.\<close>

definition sp_no_lap :: "store \<Rightarrow> sp_sequencer \<Rightarrow> bool" where
  "sp_no_lap \<sigma> s \<longleftrightarrow>
     (\<forall>c\<in>gates s. nextValue s - bufferSize s \<le> \<sigma> c \<and>
        (cachedValue s \<le> nextValue s \<longrightarrow> cachedValue s \<le> \<sigma> c))"

text \<open>In a well-formed sequencer the cached pointer is never dangling.\<close>

lemma sp_minimumSequence_wf:
  assumes "sp_wf s"
  obtains "sp_minimumSequence d \<sigma> s =
      (Inr (gate_min d \<sigma> s), s\<lparr>sp_gatingCache := holder (gatingSequences s)\<rparr>)"
proof -
  have "gating_ok (gatingSequences s)" using assms by (simp add: sp_wf_def)
  then obtain v xs where v: "holder (gatingSequences s) = Some v" "vecs (gatingSequences s) v = Some xs"
      "vec_at (gatingSequences s) (Some v) = xs" "\<And>\<sigma> d. getMinimumSequence \<sigma> xs d = gate_min d \<sigma> s"
    using gate_min_snapshot by blast
  from assms v(1) have "sp_gatingCache s = None \<or> sp_gatingCache s = Some v"
    by (auto simp: sp_wf_def)
  then show thesis
    using v that by (auto simp: sp_minimumSequence_def asp_load_def)
qed

lemma sp_wf_cache [simp]:
  "sp_wf (s\<lparr>sp_gatingCache := holder (gatingSequences s)\<rparr>) \<longleftrightarrow>
     is_pow2 (bufferSize s) \<and> bufferSize s \<le> 2 ^ 30 \<and> gating_ok (gatingSequences s)"
  by (simp add: sp_wf_def)

lemma sp_wf_D: "sp_wf s \<Longrightarrow> is_pow2 (bufferSize s) \<and> gating_ok (gatingSequences s)"
  by (simp add: sp_wf_def)

lemma sp_updates [simp]:
  "gates (s\<lparr>sp_gatingCache := p\<rparr>) = gates s" "gates (s\<lparr>cachedValue := x\<rparr>) = gates s"
  "gates (s\<lparr>nextValue := x\<rparr>) = gates s" "gates (s\<lparr>wrapWaitEntries := k\<rparr>) = gates s"
  "gates (s\<lparr>wrapWaitLoops := k\<rparr>) = gates s" "gates (s\<lparr>producerThread := t\<rparr>) = gates s"
  "gate_min d \<sigma> (s\<lparr>sp_gatingCache := p\<rparr>) = gate_min d \<sigma> s"
  "gate_min d \<sigma> (s\<lparr>wrapWaitLoops := k\<rparr>) = gate_min d \<sigma> s"
  "gate_min d \<sigma> (s\<lparr>wrapWaitEntries := k\<rparr>) = gate_min d \<sigma> s"
  by (simp_all add: gates_def gate_min_def)

section \<open>The waiting loop\<close>

text \<open>
  The loop stops at the first poll that finds room, and returns the minimum it saw there.
\<close>

lemma sp_wrapWait_Some:
  assumes "sp_wf s" and "sp_wrapWait script wrapPoint d (\<sigma>, s) = Some (r, \<sigma>', s')"
  shows "\<exists>k \<le> length script. \<sigma>' = run_env (take k script) \<sigma> \<and>
     wrapPoint \<le> gate_min d \<sigma>' s \<and> r = Inr (gate_min d \<sigma>' s) \<and>
     s' = s\<lparr>sp_gatingCache := holder (gatingSequences s),
             wrapWaitLoops := wrapWaitLoops s + of_nat k\<rparr> \<and>
     (\<forall>j < k. gate_min d (run_env (take j script) \<sigma>) s < wrapPoint)"
  using assms
proof (induction script arbitrary: \<sigma> s)
  case Nil
  obtain m where m: "sp_minimumSequence d \<sigma> s = m" and
    "m = (Inr (gate_min d \<sigma> s), s\<lparr>sp_gatingCache := holder (gatingSequences s)\<rparr>)"
    using sp_minimumSequence_wf [OF Nil.prems(1)] by metis
  with Nil.prems(2) show ?case
    by (auto simp: sp_wrapWait.simps not_less split: if_splits)
next
  case (Cons env script)
  let ?s1 = "s\<lparr>sp_gatingCache := holder (gatingSequences s)\<rparr>"
  have m: "sp_minimumSequence d \<sigma> s = (Inr (gate_min d \<sigma> s), ?s1)"
    using sp_minimumSequence_wf [OF Cons.prems(1)] by metis
  show ?case
  proof (cases "wrapPoint > gate_min d \<sigma> s")
    case False
    with Cons.prems(2) m show ?thesis
      by (intro exI [of _ 0]) (auto simp: sp_wrapWait.simps not_less)
  next
    case True
    let ?s2 = "?s1\<lparr>wrapWaitLoops := wrapWaitLoops ?s1 + 1\<rparr>"
    have wf: "sp_wf ?s2" using Cons.prems(1) by (simp add: sp_wf_def)
    have eq: "sp_wrapWait script wrapPoint d (env \<sigma>, ?s2) = Some (r, \<sigma>', s')"
      using Cons.prems(2) m True by (simp add: sp_wrapWait.simps [of "env # script"])
    from Cons.IH [OF wf eq] obtain k where k: "k \<le> length script"
        "\<sigma>' = run_env (take k script) (env \<sigma>)" "wrapPoint \<le> gate_min d \<sigma>' s"
        "r = Inr (gate_min d \<sigma>' s)"
        "s' = ?s2\<lparr>sp_gatingCache := holder (gatingSequences ?s2),
                  wrapWaitLoops := wrapWaitLoops ?s2 + of_nat k\<rparr>"
        "\<forall>j < k. gate_min d (run_env (take j script) (env \<sigma>)) s < wrapPoint"
      by auto
    have "\<forall>j < Suc k. gate_min d (run_env (take j (env # script)) \<sigma>) s < wrapPoint"
      using k(6) True by (auto simp: less_Suc_eq_0_disj)
    with k show ?thesis
      by (intro exI [of _ "Suc k"]) (simp add: algebra_simps)
  qed
qed

text \<open>It does stop when the consumers make room at some point of the script.\<close>

lemma sp_wrapWait_progress:
  assumes "sp_wf s" and "wrapPoint \<le> gate_min d (run_env pre \<sigma>) s"
  shows "\<exists>r w. sp_wrapWait (pre @ post) wrapPoint d (\<sigma>, s) = Some (r, w)"
  using assms
proof (induction pre arbitrary: \<sigma> s)
  case Nil
  have "sp_minimumSequence d \<sigma> s =
      (Inr (gate_min d \<sigma> s), s\<lparr>sp_gatingCache := holder (gatingSequences s)\<rparr>)"
    using sp_minimumSequence_wf [OF Nil.prems(1)] by metis
  with Nil.prems(2) show ?case by (auto simp: sp_wrapWait.simps)
next
  case (Cons env pre)
  let ?s1 = "s\<lparr>sp_gatingCache := holder (gatingSequences s)\<rparr>"
  let ?s2 = "?s1\<lparr>wrapWaitLoops := wrapWaitLoops ?s1 + 1\<rparr>"
  have m: "sp_minimumSequence d \<sigma> s = (Inr (gate_min d \<sigma> s), ?s1)"
    using sp_minimumSequence_wf [OF Cons.prems(1)] by metis
  have wf: "sp_wf ?s2" using Cons.prems(1) by (simp add: sp_wf_def)
  have "\<exists>r w. sp_wrapWait (pre @ post) wrapPoint d (env \<sigma>, ?s2) = Some (r, w)"
    using Cons.IH [OF wf, of "env \<sigma>"] Cons.prems(2) by simp
  with m show ?case by (auto simp: sp_wrapWait.simps [of "env # pre @ post"])
qed

section \<open>What the operations do\<close>

text \<open>The other threads only move gating sequences forward, and leave the cursor alone.\<close>

definition consumers_advance :: "sp_sequencer \<Rightarrow> (store \<Rightarrow> store) \<Rightarrow> bool" where
  "consumers_advance s f \<longleftrightarrow> (\<forall>\<sigma>. (\<forall>c\<in>gates s. \<sigma> c \<le> f \<sigma> c) \<and> f \<sigma> (cursor s) = \<sigma> (cursor s))"

lemma run_env_advance:
  "\<forall>f\<in>set fs. consumers_advance s f \<Longrightarrow> c \<in> gates s \<Longrightarrow> \<sigma> c \<le> run_env fs \<sigma> c"
proof (induction fs arbitrary: \<sigma>)
  case (Cons f fs)
  then have "\<sigma> c \<le> f \<sigma> c" by (simp add: consumers_advance_def)
  also have "\<dots> \<le> run_env fs (f \<sigma>) c" using Cons by simp
  finally show ?case by simp
qed simp

lemma run_env_cursor:
  "\<forall>f\<in>set fs. consumers_advance s f \<Longrightarrow> run_env fs \<sigma> (cursor s) = \<sigma> (cursor s)"
  by (induction fs arbitrary: \<sigma>) (auto simp: consumers_advance_def)

text \<open>The optimised capacity test agrees with the test on the slowest consumer.\<close>

lemma sp_hasAvailableCapacity_eq:
  assumes "sp_wf s" and "sp_no_lap \<sigma> s"
    and "sp_hasAvailableCapacity n doStore (\<sigma>, s) = (r, \<sigma>', s')"
  shows "r = Inr (nextValue s + n - bufferSize s \<le> gate_min (nextValue s) \<sigma>' s)"
    and "sp_wf s'" and "sp_no_lap \<sigma>' s'" and "nextValue s' = nextValue s" and "gates s' = gates s"
    and "bufferSize s' = bufferSize s" and "cursor s' = cursor s"
    and "\<sigma>' = \<sigma> \<or> doStore \<and> \<sigma>' = seq_setVolatile (cursor s) (nextValue s) \<sigma>"
proof -
  let ?slow = "nextValue s + n - bufferSize s > cachedValue s \<or> cachedValue s > nextValue s"
  define \<sigma>1 where "\<sigma>1 = (if doStore then seq_setVolatile (cursor s) (nextValue s) \<sigma> else \<sigma>)"
  let ?m = "gate_min (nextValue s) \<sigma>1 s"
  let ?s1 = "s\<lparr>sp_gatingCache := holder (gatingSequences s)\<rparr>"
  have m: "sp_minimumSequence (nextValue s) \<sigma>1 s = (Inr ?m, ?s1)"
    using sp_minimumSequence_wf [OF assms(1)] by metis
  have slow: "(r, \<sigma>', s') =
      (Inr (nextValue s + n - bufferSize s \<le> ?m), \<sigma>1, ?s1\<lparr>cachedValue := ?m\<rparr>)" if "?slow"
    using that assms(3) m
    by (auto simp: sp_hasAvailableCapacity_def Let_def not_less \<sigma>1_def [symmetric])
  have fast: "(r, \<sigma>', s') = (Inr True, \<sigma>, s)" if "\<not> ?slow"
    using that assms(3) by (simp add: sp_hasAvailableCapacity_def Let_def)
  have pos: "0 < bufferSize s" using assms(1) by (auto simp: sp_wf_def dest: is_pow2_pos)
  show "r = Inr (nextValue s + n - bufferSize s \<le> gate_min (nextValue s) \<sigma>' s)"
    using slow fast assms(2) by (cases ?slow) (auto simp: gate_min_ge_iff sp_no_lap_def)
  show "sp_wf s'"
    using slow fast assms(1) by (cases ?slow) (auto simp: sp_wf_def)
  have "\<forall>c\<in>gates s. nextValue s - bufferSize s \<le> \<sigma>1 c"
    using assms(2) pos by (auto simp: \<sigma>1_def sp_no_lap_def)
  then have "sp_no_lap \<sigma>1 (?s1\<lparr>cachedValue := ?m\<rparr>)"
    using gate_min_le(2) [of _ s "nextValue s" \<sigma>1] by (auto simp: sp_no_lap_def)
  then show "sp_no_lap \<sigma>' s'"
    using slow fast assms(2) by (cases ?slow) auto
  show "nextValue s' = nextValue s" and "gates s' = gates s" and "bufferSize s' = bufferSize s"
    and "cursor s' = cursor s"
    and "\<sigma>' = \<sigma> \<or> doStore \<and> \<sigma>' = seq_setVolatile (cursor s) (nextValue s) \<sigma>"
    using slow fast unfolding \<sigma>1_def by (cases ?slow; auto split: if_splits)+
qed

text \<open>A claim: what \<open>next(n)\<close> returns and leaves behind, on every branch.\<close>

definition sp_slow :: "int \<Rightarrow> sp_sequencer \<Rightarrow> bool" where
  "sp_slow n s \<longleftrightarrow> nextValue s + n - bufferSize s > cachedValue s \<or> cachedValue s > nextValue s"

lemma sp_next_body_error:
  assumes "sp_wf s" and "sp_next_body script n (\<sigma>, s) = Some (Inl e, w')"
  shows "(n < 1 \<or> n > bufferSize s) \<and>
     e = InvalidArgument ''n must be > 0 and < bufferSize'' \<and> w' = (\<sigma>, s)"
proof -
  let ?s1 = "s\<lparr>wrapWaitEntries := wrapWaitEntries s + 1\<rparr>"
  have wf: "sp_wf ?s1" using assms(1) by (simp add: sp_wf_def)
  have "sp_wrapWait script wp d (\<tau>, ?s1) \<noteq> Some (Inl e', w)" for wp d \<tau> e' w
    using sp_wrapWait_Some [OF wf, of script wp d \<tau> "Inl e'" "fst w" "snd w"] by (cases w) auto
  with assms(2) show ?thesis
    by (auto simp: sp_next_body_def Let_def split: if_splits option.splits sum.splits prod.splits)
qed

lemma sp_next_body_value:
  assumes wf: "sp_wf s" and "sp_next_body script n (\<sigma>, s) = Some (Inr q, \<sigma>', s')"
  shows "1 \<le> n" and "n \<le> bufferSize s" and "q = nextValue s + n" and "nextValue s' = q"
    and "sp_wf s'" and "gates s' = gates s" and "bufferSize s' = bufferSize s"
    and "cursor s' = cursor s"
    and "if sp_slow n s
         then \<exists>k \<le> length script.
                \<sigma>' = run_env (take k script) (seq_setVolatile (cursor s) (nextValue s) \<sigma>) \<and>
                cachedValue s' = gate_min (nextValue s) \<sigma>' s \<and> q - bufferSize s \<le> cachedValue s'
         else \<sigma>' = \<sigma> \<and> cachedValue s' = cachedValue s"
proof -
  let ?s1 = "s\<lparr>wrapWaitEntries := wrapWaitEntries s + 1\<rparr>"
  let ?\<sigma>1 = "seq_setVolatile (cursor s) (nextValue s) \<sigma>"
  let ?wp = "nextValue s + n - bufferSize s"
  have wf1: "sp_wf ?s1" using wf by (simp add: sp_wf_def)
  show n: "1 \<le> n" "n \<le> bufferSize s"
    using assms(2) by (auto simp: sp_next_body_def split: if_splits)
  have "\<exists>k m s2. k \<le> length script \<and> \<sigma>' = run_env (take k script) ?\<sigma>1 \<and>
      m = gate_min (nextValue s) \<sigma>' s \<and> ?wp \<le> m \<and> q = nextValue s + n \<and> sp_wf s2 \<and>
      s2 = ?s1\<lparr>sp_gatingCache := holder (gatingSequences s), wrapWaitLoops := wrapWaitLoops s + of_nat k\<rparr> \<and>
      s' = s2\<lparr>cachedValue := m, nextValue := q\<rparr>" if slow: "sp_slow n s"
  proof -
    from slow n assms(2) obtain m s2 where w: "sp_wrapWait script ?wp (nextValue s) (?\<sigma>1, ?s1) = Some (Inr m, \<sigma>', s2)"
      and q: "q = nextValue s + n" "s' = s2\<lparr>cachedValue := m, nextValue := q\<rparr>"
      by (auto simp: sp_next_body_def sp_slow_def Let_def split: option.splits sum.splits prod.splits)
    from sp_wrapWait_Some [OF wf1 w] q wf show ?thesis
      by (auto simp: sp_wf_def)
  qed
  moreover have "\<sigma>' = \<sigma> \<and> q = nextValue s + n \<and> s' = s\<lparr>nextValue := q\<rparr>" if "\<not> sp_slow n s"
    using that n assms(2) by (auto simp: sp_next_body_def sp_slow_def Let_def)
  ultimately have cases: "(sp_slow n s \<and> (\<exists>k m s2. k \<le> length script \<and> \<sigma>' = run_env (take k script) ?\<sigma>1 \<and>
      m = gate_min (nextValue s) \<sigma>' s \<and> ?wp \<le> m \<and> q = nextValue s + n \<and> sp_wf s2 \<and>
      s2 = ?s1\<lparr>sp_gatingCache := holder (gatingSequences s), wrapWaitLoops := wrapWaitLoops s + of_nat k\<rparr> \<and>
      s' = s2\<lparr>cachedValue := m, nextValue := q\<rparr>)) \<or>
      (\<not> sp_slow n s \<and> \<sigma>' = \<sigma> \<and> q = nextValue s + n \<and> s' = s\<lparr>nextValue := q\<rparr>)"
    by blast
  from cases show "q = nextValue s + n" by blast
  from cases show "nextValue s' = q" by auto
  from cases show "sp_wf s'" using wf by (auto simp: sp_wf_def)
  from cases show "gates s' = gates s" and "bufferSize s' = bufferSize s" and "cursor s' = cursor s"
    by auto
  from cases show "if sp_slow n s
         then \<exists>k \<le> length script. \<sigma>' = run_env (take k script) ?\<sigma>1 \<and>
                cachedValue s' = gate_min (nextValue s) \<sigma>' s \<and> q - bufferSize s \<le> cachedValue s'
         else \<sigma>' = \<sigma> \<and> cachedValue s' = cachedValue s"
    by auto
qed

lemma sp_next_body_no_lap:
  assumes "sp_wf s" and "sp_no_lap \<sigma> s"
    and "sp_next_body script n (\<sigma>, s) = Some (Inr q, \<sigma>', s')"
  shows "sp_no_lap \<sigma>' s'"
proof -
  note v = sp_next_body_value [OF assms(1,3)]
  show ?thesis
  proof (cases "sp_slow n s")
    case True
    with v(9) have "q - bufferSize s \<le> gate_min (nextValue s) \<sigma>' s"
      and "cachedValue s' = gate_min (nextValue s) \<sigma>' s" by auto
    then have "q - bufferSize s \<le> \<sigma>' c \<and> cachedValue s' \<le> \<sigma>' c" if "c \<in> gates s" for c
      using gate_min_le(2) [OF that, of "nextValue s" \<sigma>'] by simp
    then show ?thesis by (simp add: sp_no_lap_def v(4,6,7))
  next
    case False
    with v(9) have "\<sigma>' = \<sigma>" "cachedValue s' = cachedValue s" by auto
    then show ?thesis
      using v(3,4,6,7) False assms(2) by (fastforce simp: sp_no_lap_def sp_slow_def)
  qed
qed

lemma sp_next_body_progress:
  assumes "sp_wf s" and "1 \<le> n" and "n \<le> bufferSize s"
    and "nextValue s + n - bufferSize s \<le> gate_min (nextValue s)
           (run_env pre (seq_setVolatile (cursor s) (nextValue s) \<sigma>)) s"
  shows "\<exists>w'. sp_next_body (pre @ post) n (\<sigma>, s) = Some (Inr (nextValue s + n), w')"
proof (cases "sp_slow n s")
  case True
  let ?s1 = "s\<lparr>wrapWaitEntries := wrapWaitEntries s + 1\<rparr>"
  let ?\<sigma>1 = "seq_setVolatile (cursor s) (nextValue s) \<sigma>"
  have wf: "sp_wf ?s1" using assms(1) by (simp add: sp_wf_def)
  have room: "nextValue s + n - bufferSize s \<le> gate_min (nextValue s) (run_env pre ?\<sigma>1) ?s1"
    using assms(4) by simp
  obtain r \<tau> s2 where w: "sp_wrapWait (pre @ post) (nextValue s + n - bufferSize s) (nextValue s)
      (?\<sigma>1, ?s1) = Some (r, \<tau>, s2)"
    using sp_wrapWait_progress [OF wf room, of post] by auto
  moreover from sp_wrapWait_Some [OF wf w] obtain m where "r = Inr m" by blast
  ultimately have "sp_wrapWait (pre @ post) (nextValue s + n - bufferSize s) (nextValue s)
      (?\<sigma>1, ?s1) = Some (Inr m, \<tau>, s2)" by simp
  with True assms(2,3) show ?thesis
    by (auto simp: sp_next_body_def sp_slow_def Let_def)
next
  case False
  with assms(2,3) show ?thesis by (auto simp: sp_next_body_def sp_slow_def Let_def)
qed

section \<open>Publication and the gating set\<close>

lemma signalAll_sp [simp]:
  "sp_gatingCache (signalAll s) = sp_gatingCache s" "producerThread (signalAll s) = producerThread s"
  "nextValue (signalAll s) = nextValue s" "cachedValue (signalAll s) = cachedValue s"
  "sp_wf (signalAll s) \<longleftrightarrow> sp_wf s"
  by (auto simp: signalAll_def sp_wf_def)

lemma sp_publish_wf [inv_intros]: "sp_wf s \<Longrightarrow> sp_wf (snd (sp_publish q (\<sigma>, s)))"
  by (simp add: sp_publish_def sp_wf_def signalAll_def)

lemma sp_publish_available:
  "0 < bufferSize s \<Longrightarrow> sp_isAvailable l (sp_publish q (\<sigma>, s)) \<longleftrightarrow> q - bufferSize s < l \<and> l \<le> q"
  by (auto simp: sp_isAvailable_def sp_publish_def Let_def)

text \<open>
  A new consumer starts at the cursor; when everything claimed is published, it cannot be
  lapped by what was claimed before it came.
\<close>

lemma sp_addGating_safe:
  assumes "sp_wf s" and "sp_no_lap \<sigma> s" and "nextValue s = \<sigma> (cursor s)"
  shows "\<exists>\<sigma>' s'. sp_addGatingSequences [] new (\<sigma>, s) = Some (\<sigma>', s') \<and> sp_wf s' \<and> sp_no_lap \<sigma>' s' \<and>
     gates s' = gates s \<union> ptrs new \<and> (\<forall>c\<in>ptrs new. \<sigma>' c = \<sigma> (cursor s)) \<and> sp_gatingCache s' = None"
proof -
  have pos: "0 < bufferSize s" using assms(1) by (auto simp: sp_wf_def dest: is_pow2_pos)
  obtain g' where g': "as_addGatingSequences [] new (\<sigma>, s) =
       Some (set_all new (\<sigma> (cursor s)) \<sigma>, s\<lparr>gatingSequences := g'\<rparr>)"
    and ok: "gating_ok g'" "group_seqs g' = group_seqs (gatingSequences s) @ new"
    using as_addGatingSequences_alone [of s new \<sigma>] assms(1) unfolding sp_wf_def by metis
  let ?s' = "s\<lparr>gatingSequences := g', sp_gatingCache := None\<rparr>"
  have gates: "gates ?s' = gates s \<union> ptrs new" using ok(2) by (simp add: gates_def)
  have "sp_wf ?s'" using assms(1) ok(1) by (simp add: sp_wf_def)
  moreover have "sp_no_lap (set_all new (\<sigma> (cursor s)) \<sigma>) ?s'"
    using assms(2,3) pos unfolding sp_no_lap_def gates by auto
  ultimately show ?thesis using g' gates by (simp add: sp_addGatingSequences_def)
qed

lemma sp_removeGating_safe:
  assumes "sp_wf s" and "sp_no_lap \<sigma> s"
  shows "\<exists>s'. sp_removeGatingSequence [] sq (\<sigma>, s) = Some (sq \<in> gates s, \<sigma>, s') \<and> sp_wf s' \<and>
     sp_no_lap \<sigma> s' \<and> gates s' = gates s - {sq} \<and> sp_gatingCache s' = None"
proof -
  obtain g' where g': "as_removeGatingSequence [] sq s = Some (sq \<in> gates s, s\<lparr>gatingSequences := g'\<rparr>)"
    and ok: "gating_ok g'" "group_seqs g' = filter (\<lambda>p. p \<noteq> Some sq) (group_seqs (gatingSequences s))"
    using as_removeGatingSequence_alone [of s sq] assms(1) unfolding sp_wf_def by metis
  let ?s' = "s\<lparr>gatingSequences := g', sp_gatingCache := None\<rparr>"
  have gates: "gates ?s' = gates s - {sq}" using ok(2) by (auto simp: gates_def ptrs_def)
  have "sp_wf ?s'" using assms(1) ok(1) by (simp add: sp_wf_def)
  moreover have "sp_no_lap \<sigma> ?s'" using assms(2) unfolding sp_no_lap_def gates by simp
  ultimately show ?thesis using g' gates by (simp add: sp_removeGatingSequence_def)
qed

lemma sp_remainingCapacity_bounds:
  assumes "sp_wf s" and "sp_no_lap \<sigma> s"
  shows "\<exists>r s'. sp_remainingCapacity (\<sigma>, s) = (Inr r, \<sigma>, s') \<and> 0 \<le> r \<and> r \<le> bufferSize s \<and>
     r = bufferSize s - (nextValue s - gate_min (nextValue s) \<sigma> s)"
proof -
  have m: "sp_minimumSequence (nextValue s) \<sigma> s =
      (Inr (gate_min (nextValue s) \<sigma> s), s\<lparr>sp_gatingCache := holder (gatingSequences s)\<rparr>)"
    using sp_minimumSequence_wf [OF assms(1)] by metis
  have pos: "0 < bufferSize s" using assms(1) by (auto simp: sp_wf_def dest: is_pow2_pos)
  have "nextValue s - bufferSize s \<le> gate_min (nextValue s) \<sigma> s"
    using assms(2) pos by (auto simp: gate_min_ge_iff sp_no_lap_def)
  then show ?thesis using m gate_min_le(1) [of "nextValue s" \<sigma> s]
    by (simp add: sp_remainingCapacity_def getBufferSize_def Let_def)
qed

text \<open>The constructor establishes the invariants.\<close>

lemma new_sp_wf:
  assumes "new_sp cursorId blocking stale n \<sigma> = Inr (\<sigma>', s)" and "n \<le> int32_max"
  shows "sp_wf s" and "sp_no_lap \<sigma>' s" and "bufferSize s = n" and "gates s = {}"
    and "nextValue s = INITIAL_VALUE" and "\<sigma>' (cursor s) = INITIAL_VALUE"
proof -
  from assms(1) have p: "is_pow2 n"
    by (auto simp: new_sp_def check_bufferSize_None split: option.splits)
  have s: "s = \<lparr>bufferSize = n, cursor = cursorId, gatingSequences = new_gating,
           kIsBlockingStrategy = blocking, signals = 0,
           nextValue = INITIAL_VALUE, cachedValue = INITIAL_VALUE, sp_gatingCache = None,
           producerThread = stale, wrapWaitEntries = 0, wrapWaitLoops = 0\<rparr>"
    "\<sigma>' = seq_new cursorId INITIAL_VALUE \<sigma>"
    using assms(1) by (auto simp: new_sp_def split: option.splits)
  show "sp_wf s" using p is_pow2_int32 [OF p assms(2)] by (simp add: s sp_wf_def gating_ok_new)
  show "sp_no_lap \<sigma>' s" "gates s = {}" by (simp_all add: s sp_no_lap_def gates_def)
  show "bufferSize s = n" "nextValue s = INITIAL_VALUE" "\<sigma>' (cursor s) = INITIAL_VALUE"
    by (simp_all add: s seq_new_def)
qed

end
