(* ===== verification/Multi_Producer.thy ===== *)
theory Multi_Producer
  imports Abstract_Sequencer Expected_Result
begin

text \<open>
  \<open>MultiProducerSequencer\<close> (\<open>include/disruptor/MultiProducerSequencer.h\<close>).

  Producers claim by an atomic addition on the cursor and publish by storing, in the slot of
  each sequence, the number of the lap it belongs to (cast to a 32-bit \<open>int\<close>).  The cached
  gating sequence is itself a \<open>Sequence\<close> of the store.
\<close>

section \<open>State\<close>

record mp_sequencer = abstract_sequencer +
  gatingSequenceCache :: sid
  availableBuffer :: "int list"
  indexMask :: int
  indexShift :: nat
  mp_gatingCache :: "nat option"

definition new_mp :: "sid \<Rightarrow> sid \<Rightarrow> bool \<Rightarrow> int \<Rightarrow> store \<Rightarrow> exn + store \<times> mp_sequencer" where
  "new_mp cursorId cacheId blocking n \<sigma> =
     (case check_bufferSize n of
        Some e \<Rightarrow> Inl e
      | None \<Rightarrow>
          (case util_log2 n of
             Inl e \<Rightarrow> Inl e
           | Inr shift \<Rightarrow>
               Inr (seq_new cacheId INITIAL_VALUE (seq_new cursorId INITIAL_VALUE \<sigma>),
                 \<lparr>bufferSize = n, cursor = cursorId, gatingSequences = new_gating,
                  kIsBlockingStrategy = blocking, signals = 0,
                  gatingSequenceCache = cacheId, availableBuffer = replicate (nat n) (- 1),
                  indexMask = n - 1, indexShift = nat shift, mp_gatingCache = None\<rparr>)))"

section \<open>The availability buffer\<close>

definition calculateIndex :: "mp_sequencer \<Rightarrow> int \<Rightarrow> int" where
  "calculateIndex s sequence = wrap32 sequence AND indexMask s"

definition calculateAvailabilityFlag :: "mp_sequencer \<Rightarrow> int \<Rightarrow> int" where
  "calculateAvailabilityFlag s sequence = wrap32 (drop_bit (indexShift s) sequence)"

definition setAvailableBufferValue :: "int \<Rightarrow> int \<Rightarrow> mp_sequencer \<Rightarrow> mp_sequencer" where
  "setAvailableBufferValue index flag s =
     s\<lparr>availableBuffer := (availableBuffer s)[nat index := flag]\<rparr>"

definition setAvailable :: "int \<Rightarrow> mp_sequencer \<Rightarrow> mp_sequencer" where
  "setAvailable sequence s =
     setAvailableBufferValue (calculateIndex s sequence) (calculateAvailabilityFlag s sequence) s"

definition mp_isAvailable :: "int \<Rightarrow> mp_sequencer \<Rightarrow> bool" where
  "mp_isAvailable sequence s =
     (let index = calculateIndex s sequence; flag = calculateAvailabilityFlag s sequence
      in availableBuffer s ! nat index = flag)"

function setAvailable_range :: "int \<Rightarrow> int \<Rightarrow> mp_sequencer \<Rightarrow> mp_sequencer" where
  "setAvailable_range l hi s =
     (if l \<le> hi then setAvailable_range (l + 1) hi (setAvailable l s) else s)"
  by pat_completeness auto
termination
  by (relation "measure (\<lambda>(l, hi, s). nat (hi + 1 - l))") auto

declare setAvailable_range.simps [simp del]

definition mp_publish :: "int \<Rightarrow> store \<times> mp_sequencer \<Rightarrow> store \<times> mp_sequencer" where
  "mp_publish sequence w = (let (\<sigma>, s) = w in (\<sigma>, signalAll (setAvailable sequence s)))"

definition mp_publish_range :: "int \<Rightarrow> int \<Rightarrow> store \<times> mp_sequencer \<Rightarrow> store \<times> mp_sequencer" where
  "mp_publish_range lo hi w = (let (\<sigma>, s) = w in (\<sigma>, signalAll (setAvailable_range lo hi s)))"

function mp_scan :: "mp_sequencer \<Rightarrow> int \<Rightarrow> int \<Rightarrow> int" where
  "mp_scan s sequence availableSequence =
     (if sequence \<le> availableSequence
      then if \<not> mp_isAvailable sequence s then sequence - 1
           else mp_scan s (sequence + 1) availableSequence
      else availableSequence)"
  by pat_completeness auto
termination
  by (relation "measure (\<lambda>(s, q, a). nat (a + 1 - q))") auto

declare mp_scan.simps [simp del]

definition mp_getHighestPublishedSequence :: "int \<Rightarrow> int \<Rightarrow> store \<times> mp_sequencer \<Rightarrow> int" where
  "mp_getHighestPublishedSequence lowerBound availableSequence w =
     mp_scan (snd w) lowerBound availableSequence"

section \<open>Claims\<close>

definition mp_minimumSequence :: "int \<Rightarrow> store \<Rightarrow> mp_sequencer \<Rightarrow> (exn + int) \<times> mp_sequencer" where
  "mp_minimumSequence defaultMin \<sigma> s =
     (case mp_gatingCache s of
        None \<Rightarrow>
          (case asp_load (holder (gatingSequences s)) of
             None \<Rightarrow> (Inr defaultMin, s)
           | Some v \<Rightarrow>
               (Inr (getMinimumSequence \<sigma> (vec_at (gatingSequences s) (Some v)) defaultMin),
                s\<lparr>mp_gatingCache := Some v\<rparr>))
      | Some v \<Rightarrow>
          (case vecs (gatingSequences s) v of
             None \<Rightarrow> (Inl UseAfterFree, s)
           | Some xs \<Rightarrow> (Inr (getMinimumSequence \<sigma> xs defaultMin), s)))"

fun mp_wrapWait ::
  "(store \<Rightarrow> store) list \<Rightarrow> int \<Rightarrow> int \<Rightarrow> store \<times> mp_sequencer
     \<Rightarrow> ((exn + int) \<times> store \<times> mp_sequencer) option" where
  "mp_wrapWait script wrapPoint current (\<sigma>, s) =
     (case mp_minimumSequence current \<sigma> s of
        (Inl e, s1) \<Rightarrow> Some (Inl e, \<sigma>, s1)
      | (Inr gatingSequence, s1) \<Rightarrow>
          if wrapPoint > gatingSequence
          then (case script of
                  [] \<Rightarrow> None
                | env # rest \<Rightarrow> mp_wrapWait rest wrapPoint current (env \<sigma>, s1))
          else Some (Inr gatingSequence, \<sigma>, s1))"

declare mp_wrapWait.simps [simp del]

definition mp_next_n ::
  "(store \<Rightarrow> store) list \<Rightarrow> int \<Rightarrow> store \<times> mp_sequencer
     \<Rightarrow> ((exn + int) \<times> store \<times> mp_sequencer) option" where
  "mp_next_n script n w =
     (let (\<sigma>, s) = w in
      if n < 1 \<or> n > bufferSize s
      then Some (Inl (InvalidArgument ''n must be > 0 and < bufferSize''), \<sigma>, s)
      else let (current, \<sigma>1) = seq_getAndAdd (cursor s) n \<sigma>;
               nextSequence = current + n;
               wrapPoint = nextSequence - bufferSize s;
               cachedGatingSequence = seq_get \<sigma>1 (gatingSequenceCache s)
           in if wrapPoint > cachedGatingSequence \<or> cachedGatingSequence > current
              then case mp_wrapWait script wrapPoint current (\<sigma>1, s) of
                     None \<Rightarrow> None
                   | Some (Inl e, w') \<Rightarrow> Some (Inl e, w')
                   | Some (Inr gatingSequence, \<sigma>', s') \<Rightarrow>
                       Some (Inr nextSequence, seq_set (gatingSequenceCache s') gatingSequence \<sigma>', s')
              else Some (Inr nextSequence, \<sigma>1, s))"

definition mp_next where
  "mp_next script w = mp_next_n script 1 w"

text \<open>The private capacity test, on a snapshot of the gating vector (null or not).\<close>

definition mp_hasAvailableCapacity ::
  "seqs option \<Rightarrow> int \<Rightarrow> int \<Rightarrow> store \<times> mp_sequencer \<Rightarrow> bool \<times> store \<times> mp_sequencer" where
  "mp_hasAvailableCapacity gatingSeqs requiredCapacity cursorValue w =
     (let (\<sigma>, s) = w;
          wrapPoint = (cursorValue + requiredCapacity) - bufferSize s;
          cachedGatingSequence = seq_get \<sigma> (gatingSequenceCache s)
      in if wrapPoint > cachedGatingSequence \<or> cachedGatingSequence > cursorValue
         then let minSequence = (case gatingSeqs of
                     Some xs \<Rightarrow> getMinimumSequence \<sigma> xs cursorValue
                   | None \<Rightarrow> cursorValue);
                  \<sigma>1 = seq_set (gatingSequenceCache s) minSequence \<sigma>
              in (\<not> wrapPoint > minSequence, \<sigma>1, s)
         else (True, \<sigma>, s))"

definition gating_snapshot :: "'a abstract_sequencer_scheme \<Rightarrow> seqs option" where
  "gating_snapshot s =
     (case asp_load (holder (gatingSequences s)) of
        None \<Rightarrow> None
      | Some v \<Rightarrow> Some (vec_at (gatingSequences s) (Some v)))"

definition mp_hasCapacity :: "int \<Rightarrow> store \<times> mp_sequencer \<Rightarrow> bool \<times> store \<times> mp_sequencer" where
  "mp_hasCapacity requiredCapacity w =
     (let (\<sigma>, s) = w in
      mp_hasAvailableCapacity (gating_snapshot s) requiredCapacity (seq_get \<sigma> (cursor s)) w)"

text \<open>
  The retry loop of \<open>tryNext\<close>.  An element of the script is one failed attempt: what the
  other threads did between the capacity test and the exchange, and whether the weak exchange
  failed spuriously.
\<close>

fun mp_tryNext_loop ::
  "((store \<Rightarrow> store) \<times> bool) list \<Rightarrow> int \<Rightarrow> store \<times> mp_sequencer
     \<Rightarrow> (error + int) \<times> store \<times> mp_sequencer" where
  "mp_tryNext_loop [] n (\<sigma>, s) =
     (let current = seq_get \<sigma> (cursor s); next = current + n;
          (room, \<sigma>1, s1) = mp_hasAvailableCapacity (gating_snapshot s) n current (\<sigma>, s)
      in if \<not> room then (Inl error_insufficient_capacity, \<sigma>1, s1)
         else (Inr next, snd (seq_compareAndSet False (cursor s) current next \<sigma>1), s1))"
| "mp_tryNext_loop ((env, spurious) # script) n (\<sigma>, s) =
     (let current = seq_get \<sigma> (cursor s); next = current + n;
          (room, \<sigma>1, s1) = mp_hasAvailableCapacity (gating_snapshot s) n current (\<sigma>, s)
      in if \<not> room then (Inl error_insufficient_capacity, \<sigma>1, s1)
         else let (ok, \<sigma>2) = seq_compareAndSet spurious (cursor s) current next (env \<sigma>1)
              in if ok then (Inr next, \<sigma>2, s1) else mp_tryNext_loop script n (\<sigma>2, s1))"

definition mp_tryNext_n ::
  "((store \<Rightarrow> store) \<times> bool) list \<Rightarrow> int \<Rightarrow> store \<times> mp_sequencer
     \<Rightarrow> (error + int) \<times> store \<times> mp_sequencer" where
  "mp_tryNext_n script n w =
     (if n < 1 then (Inl (error_invalid_argument ''n must be > 0''), w)
      else mp_tryNext_loop script n w)"

definition mp_tryNext where
  "mp_tryNext script w = mp_tryNext_n script 1 w"

definition mp_remainingCapacity ::
  "store \<times> mp_sequencer \<Rightarrow> (exn + int) \<times> store \<times> mp_sequencer" where
  "mp_remainingCapacity w =
     (let (\<sigma>, s) = w in
      case mp_minimumSequence (seq_get \<sigma> (cursor s)) \<sigma> s of
        (Inl e, s1) \<Rightarrow> (Inl e, \<sigma>, s1)
      | (Inr consumed, s1) \<Rightarrow>
          let produced = seq_get \<sigma> (cursor s)
          in (Inr (getBufferSize s1 - (produced - consumed)), \<sigma>, s1))"

definition mp_claim :: "int \<Rightarrow> store \<times> mp_sequencer \<Rightarrow> store \<times> mp_sequencer" where
  "mp_claim sequence w = (let (\<sigma>, s) = w in (seq_set (cursor s) sequence \<sigma>, s))"

definition mp_addGatingSequences ::
  "(store \<times> gating \<Rightarrow> store \<times> gating) list \<Rightarrow> seqs \<Rightarrow> store \<times> mp_sequencer
     \<Rightarrow> (store \<times> mp_sequencer) option" where
  "mp_addGatingSequences script new w =
     map_option (\<lambda>(\<sigma>', s'). (\<sigma>', s'\<lparr>mp_gatingCache := None\<rparr>)) (as_addGatingSequences script new w)"

definition mp_removeGatingSequence ::
  "(gating \<Rightarrow> gating) list \<Rightarrow> sid \<Rightarrow> store \<times> mp_sequencer
     \<Rightarrow> (bool \<times> store \<times> mp_sequencer) option" where
  "mp_removeGatingSequence script sq w =
     (let (\<sigma>, s) = w in
      map_option (\<lambda>(r, s'). (r, \<sigma>, s'\<lparr>mp_gatingCache := None\<rparr>)) (as_removeGatingSequence script sq s))"

section \<open>Structure\<close>

definition mp_wf :: "mp_sequencer \<Rightarrow> bool" where
  "mp_wf s \<longleftrightarrow>
     is_pow2 (bufferSize s) \<and> bufferSize s \<le> 2 ^ 30 \<and> indexMask s = bufferSize s - 1 \<and>
     2 ^ indexShift s = bufferSize s \<and> length (availableBuffer s) = nat (bufferSize s) \<and>
     gating_ok (gatingSequences s) \<and> cursor s \<noteq> gatingSequenceCache s \<and>
     gatingSequenceCache s \<notin> gates s \<and>
     (mp_gatingCache s = None \<or> mp_gatingCache s = holder (gatingSequences s))"

lemma new_mp_wf:
  assumes "new_mp cursorId cacheId blocking n \<sigma> = Inr (\<sigma>', s)" and "cursorId \<noteq> cacheId"
    and "n \<le> int32_max"
  shows "mp_wf s" and "availableBuffer s = replicate (nat n) (- 1)" and "bufferSize s = n"
    and "\<sigma>' (cursor s) = INITIAL_VALUE" and "\<sigma>' (gatingSequenceCache s) = INITIAL_VALUE"
    and "gates s = {}"
proof -
  from assms(1) have "check_bufferSize n = None"
    by (auto simp: new_mp_def split: option.splits)
  then have p: "is_pow2 n" by (simp add: check_bufferSize_None)
  then obtain k where k: "n = 2 ^ k" using is_pow2_ex by blast
  have small: "n \<le> 2 ^ 30" using p assms(3) by (rule is_pow2_int32)
  have s: "s = \<lparr>bufferSize = n, cursor = cursorId, gatingSequences = new_gating,
      kIsBlockingStrategy = blocking, signals = 0,
      gatingSequenceCache = cacheId, availableBuffer = replicate (nat n) (- 1),
      indexMask = n - 1, indexShift = k, mp_gatingCache = None\<rparr>"
    and \<sigma>': "\<sigma>' = seq_new cacheId INITIAL_VALUE (seq_new cursorId INITIAL_VALUE \<sigma>)"
    using assms(1) p k util_log2_pow2 [of k]
    by (auto simp: new_mp_def check_bufferSize_None split: option.splits)
  show "mp_wf s" using p small k assms(2) by (simp add: s mp_wf_def gating_ok_new gates_def)
  show "availableBuffer s = replicate (nat n) (- 1)" "bufferSize s = n" "gates s = {}"
    by (simp_all add: s gates_def)
  show "\<sigma>' (cursor s) = INITIAL_VALUE" "\<sigma>' (gatingSequenceCache s) = INITIAL_VALUE"
    using assms(2) by (simp_all add: s \<sigma>' seq_new_def)
qed

lemma mp_wf_pos: "mp_wf s \<Longrightarrow> 0 < bufferSize s"
  by (auto simp: mp_wf_def dest: is_pow2_pos)

lemma calculateIndex_eq: "mp_wf s \<Longrightarrow> calculateIndex s q = q mod bufferSize s"
  by (simp add: calculateIndex_def mp_wf_def is_pow2_mask wrap32_mod_pow2)

lemma calculateAvailabilityFlag_eq: "mp_wf s \<Longrightarrow> calculateAvailabilityFlag s q = wrap32 (q div bufferSize s)"
  by (auto simp: calculateAvailabilityFlag_def mp_wf_def drop_bit_eq_div)

lemma setAvailable_frame [simp]:
  "bufferSize (setAvailable q s) = bufferSize s" "cursor (setAvailable q s) = cursor s"
  "gatingSequences (setAvailable q s) = gatingSequences s" "gates (setAvailable q s) = gates s"
  "gatingSequenceCache (setAvailable q s) = gatingSequenceCache s"
  "indexMask (setAvailable q s) = indexMask s" "indexShift (setAvailable q s) = indexShift s"
  "mp_gatingCache (setAvailable q s) = mp_gatingCache s"
  "length (availableBuffer (setAvailable q s)) = length (availableBuffer s)"
  "calculateIndex (setAvailable q s) = calculateIndex s"
  "calculateAvailabilityFlag (setAvailable q s) = calculateAvailabilityFlag s"
  by (auto simp: setAvailable_def setAvailableBufferValue_def gates_def calculateIndex_def
      calculateAvailabilityFlag_def fun_eq_iff)

lemma setAvailable_wf [inv_intros, simp]: "mp_wf (setAvailable q s) \<longleftrightarrow> mp_wf s"
  by (simp add: mp_wf_def)

lemma signalAll_mp [simp]:
  "availableBuffer (signalAll s) = availableBuffer s" "mp_wf (signalAll s) \<longleftrightarrow> mp_wf s"
  "mp_isAvailable q (signalAll s) \<longleftrightarrow> mp_isAvailable q s"
  by (auto simp: signalAll_def mp_wf_def mp_isAvailable_def calculateIndex_def
      calculateAvailabilityFlag_def gates_def)

section \<open>What publication makes available\<close>

lemma mp_isAvailable_eq:
  "mp_wf s \<Longrightarrow> mp_isAvailable q s \<longleftrightarrow>
     availableBuffer s ! nat (q mod bufferSize s) = wrap32 (q div bufferSize s)"
  by (simp add: mp_isAvailable_def calculateIndex_eq calculateAvailabilityFlag_eq Let_def)

lemma availableBuffer_setAvailable:
  "mp_wf s \<Longrightarrow> availableBuffer (setAvailable q s) =
     (availableBuffer s)[nat (q mod bufferSize s) := wrap32 (q div bufferSize s)]"
  by (simp add: setAvailable_def setAvailableBufferValue_def calculateIndex_eq
      calculateAvailabilityFlag_eq)

text \<open>
  Storing the flag of \<open>q\<close> decides the availability of every sequence of its slot: those a
  multiple of \<open>2 ^ 32\<close> laps away become available with it, the others of the slot become
  unavailable, and the other slots keep their state.
\<close>

lemma mp_isAvailable_setAvailable:
  assumes "mp_wf s"
  shows "mp_isAvailable r (setAvailable q s) \<longleftrightarrow>
    (if r mod bufferSize s = q mod bufferSize s
     then (r div bufferSize s) mod 2 ^ 32 = (q div bufferSize s) mod 2 ^ 32
     else mp_isAvailable r s)"
proof -
  have pos: "0 < bufferSize s" using assms by (rule mp_wf_pos)
  have len: "nat (x mod bufferSize s) < length (availableBuffer s)" for x
    using assms pos by (simp add: mp_wf_def nat_less_eq_zless)
  show ?thesis
  proof (cases "r mod bufferSize s = q mod bufferSize s")
    case True
    have "mp_isAvailable r (setAvailable q s) \<longleftrightarrow> wrap32 (q div bufferSize s) = wrap32 (r div bufferSize s)"
      using len [of q] by (simp add: mp_isAvailable_eq availableBuffer_setAvailable assms True)
    then show ?thesis using True unfolding wrap32_eq_iff by auto
  next
    case False
    then have "nat (r mod bufferSize s) \<noteq> nat (q mod bufferSize s)"
      using pos by (simp add: eq_nat_nat_iff)
    then show ?thesis
      using False by (simp add: mp_isAvailable_eq availableBuffer_setAvailable assms)
  qed
qed

lemma mp_isAvailable_same [simp]: "mp_wf s \<Longrightarrow> mp_isAvailable q (setAvailable q s)"
  by (simp add: mp_isAvailable_setAvailable)

text \<open>Within \<open>2 ^ 32\<close> laps the flag identifies the sequence.\<close>

lemma mp_isAvailable_near:
  assumes "mp_wf s" and "\<bar>r - q\<bar> < bufferSize s * (2 ^ 32 - 1)"
  shows "mp_isAvailable r (setAvailable q s) \<longleftrightarrow>
    r = q \<or> r mod bufferSize s \<noteq> q mod bufferSize s \<and> mp_isAvailable r s"
proof -
  let ?n = "bufferSize s"
  have pos: "0 < ?n" using assms(1) by (rule mp_wf_pos)
  have "r = q" if m: "r mod ?n = q mod ?n" and d: "(r div ?n) mod 2 ^ 32 = (q div ?n) mod 2 ^ 32"
  proof -
    have eq: "r - q = ?n * (r div ?n - q div ?n)"
      using m by (metis minus_mod_eq_mult_div right_diff_distrib diff_diff_eq2 add_diff_cancel_right'
          diff_add_eq mult_div_mod_eq)
    then have "\<bar>?n * (r div ?n - q div ?n)\<bar> < ?n * (2 ^ 32 - 1)" using assms(2) by simp
    then have "?n * \<bar>r div ?n - q div ?n\<bar> < ?n * (2 ^ 32 - 1)" using pos by (simp add: abs_mult)
    then have "\<bar>r div ?n - q div ?n\<bar> < 2 ^ 32 - 1" using pos by (simp only: mult_less_cancel_left_pos)
    then have "r div ?n = q div ?n"
      using same_slot_eq [OF d] by (simp add: abs_less_iff)
    then show ?thesis using eq by simp
  qed
  then show ?thesis using mp_isAvailable_setAvailable [OF assms(1), of r q] by auto
qed

text \<open>\<open>publish(lo, hi)\<close>: one store per sequence; less than a lap long, no store undoes another.\<close>

lemma setAvailable_range_invariant:
  assumes "\<And>q t. P t \<Longrightarrow> P (setAvailable q t)" and "P s"
  shows "P (setAvailable_range lo hi s)"
  using assms(2)
proof (induction lo hi s rule: setAvailable_range.induct)
  case (1 lo hi s)
  then show ?case
    using assms(1) by (cases "lo \<le> hi") (simp_all add: setAvailable_range.simps [of lo hi s])
qed

lemma setAvailable_range_frame [simp]:
  "bufferSize (setAvailable_range lo hi s) = bufferSize s"
  "cursor (setAvailable_range lo hi s) = cursor s" "gates (setAvailable_range lo hi s) = gates s"
  "gatingSequences (setAvailable_range lo hi s) = gatingSequences s"
  "gatingSequenceCache (setAvailable_range lo hi s) = gatingSequenceCache s"
  "mp_wf (setAvailable_range lo hi s) \<longleftrightarrow> mp_wf s"
proof -
  show "bufferSize (setAvailable_range lo hi s) = bufferSize s"
    by (rule setAvailable_range_invariant) simp_all
  show "cursor (setAvailable_range lo hi s) = cursor s"
    by (rule setAvailable_range_invariant) simp_all
  show "gates (setAvailable_range lo hi s) = gates s"
    by (rule setAvailable_range_invariant) simp_all
  show "gatingSequences (setAvailable_range lo hi s) = gatingSequences s"
    by (rule setAvailable_range_invariant) simp_all
  show "gatingSequenceCache (setAvailable_range lo hi s) = gatingSequenceCache s"
    by (rule setAvailable_range_invariant) simp_all
  show "mp_wf (setAvailable_range lo hi s) \<longleftrightarrow> mp_wf s"
    by (rule setAvailable_range_invariant) simp_all
qed

lemma setAvailable_range_keeps:
  assumes "mp_wf s" and "mp_isAvailable r s" and "r < lo" and "hi - r < bufferSize s"
  shows "mp_isAvailable r (setAvailable_range lo hi s)"
  using assms
proof (induction lo hi s rule: setAvailable_range.induct)
  case (1 lo hi s)
  show ?case
  proof (cases "lo \<le> hi")
    case True
    have "r mod bufferSize s \<noteq> lo mod bufferSize s"
    proof
      assume "r mod bufferSize s = lo mod bufferSize s"
      then have "r = lo" by (rule same_slot_eq) (use "1.prems" True in auto)
      with "1.prems"(3) show False by simp
    qed
    then have "mp_isAvailable r (setAvailable lo s)"
      using "1.prems" by (simp add: mp_isAvailable_setAvailable)
    then have "mp_isAvailable r (setAvailable_range (lo + 1) hi (setAvailable lo s))"
      using "1.IH" True "1.prems" by simp
    then show ?thesis using True by (simp add: setAvailable_range.simps [of lo hi s])
  next
    case False
    with "1.prems" show ?thesis by (simp add: setAvailable_range.simps [of lo hi s])
  qed
qed

lemma setAvailable_range_available:
  assumes "mp_wf s" and "hi - lo < bufferSize s" and "lo \<le> l" and "l \<le> hi"
  shows "mp_isAvailable l (setAvailable_range lo hi s)"
  using assms
proof (induction lo hi s rule: setAvailable_range.induct)
  case (1 lo hi s)
  then have le: "lo \<le> hi" by simp
  have "mp_isAvailable l (setAvailable_range (lo + 1) hi (setAvailable lo s))"
  proof (cases "l = lo")
    case True
    then show ?thesis
      using "1.prems" by (auto intro!: setAvailable_range_keeps)
  next
    case False
    show ?thesis by (rule "1.IH" [OF le]) (use "1.prems" False in auto)
  qed
  then show ?case using le by (simp add: setAvailable_range.simps [of lo hi s])
qed

text \<open>
  \<open>getHighestPublishedSequence\<close> returns the end of the longest available run that starts at
  the lower bound, cut at the upper one.
\<close>

lemma mp_scan_spec:
  assumes "lo \<le> av + 1"
  shows "lo - 1 \<le> mp_scan s lo av \<and> mp_scan s lo av \<le> av \<and>
    (\<forall>l. lo \<le> l \<and> l \<le> mp_scan s lo av \<longrightarrow> mp_isAvailable l s) \<and>
    (mp_scan s lo av < av \<longrightarrow> \<not> mp_isAvailable (mp_scan s lo av + 1) s)"
  using assms
proof (induction s lo av rule: mp_scan.induct)
  case (1 s lo av)
  show ?case
  proof (cases "lo \<le> av \<and> mp_isAvailable lo s")
    case True
    then have eq: "mp_scan s lo av = mp_scan s (lo + 1) av" by (simp add: mp_scan.simps [of s lo av])
    have IH: "lo \<le> mp_scan s (lo + 1) av" "mp_scan s (lo + 1) av \<le> av"
        "\<forall>l. lo + 1 \<le> l \<and> l \<le> mp_scan s (lo + 1) av \<longrightarrow> mp_isAvailable l s"
        "mp_scan s (lo + 1) av < av \<longrightarrow> \<not> mp_isAvailable (mp_scan s (lo + 1) av + 1) s"
      using "1.IH" True by auto
    have "mp_isAvailable l s" if "lo \<le> l" "l \<le> mp_scan s (lo + 1) av" for l
      using that IH(3) True by (cases "l = lo") auto
    with IH show ?thesis unfolding eq by simp
  next
    case False
    with "1.prems" show ?thesis by (auto simp: mp_scan.simps [of s lo av])
  qed
qed

lemma mp_scan_empty: "av < lo \<Longrightarrow> mp_scan s lo av = av"
  by (simp add: mp_scan.simps)

section \<open>Claims\<close>

text \<open>The cached gating sequence never runs ahead of a consumer.\<close>

definition mp_cache_ok :: "store \<Rightarrow> mp_sequencer \<Rightarrow> bool" where
  "mp_cache_ok \<sigma> s \<longleftrightarrow> (\<forall>c\<in>gates s. \<sigma> (gatingSequenceCache s) \<le> \<sigma> c)"

lemma mp_minimumSequence_wf:
  assumes "mp_wf s"
  shows "mp_minimumSequence d \<sigma> s =
      (Inr (gate_min d \<sigma> s), s\<lparr>mp_gatingCache := holder (gatingSequences s)\<rparr>)"
proof -
  have "gating_ok (gatingSequences s)" using assms by (simp add: mp_wf_def)
  then obtain v xs where v: "holder (gatingSequences s) = Some v" "vecs (gatingSequences s) v = Some xs"
      "vec_at (gatingSequences s) (Some v) = xs" "\<And>\<sigma> d. getMinimumSequence \<sigma> xs d = gate_min d \<sigma> s"
    using gate_min_snapshot by blast
  from assms v(1) have "mp_gatingCache s = None \<or> mp_gatingCache s = Some v"
    by (auto simp: mp_wf_def)
  then show ?thesis
    using v by (auto simp: mp_minimumSequence_def asp_load_def)
qed

lemma mp_updates [simp]:
  "gates (s\<lparr>mp_gatingCache := p\<rparr>) = gates s"
  "gate_min d \<sigma> (s\<lparr>mp_gatingCache := p\<rparr>) = gate_min d \<sigma> s"
  by (simp_all add: gates_def gate_min_def)

lemma mp_wf_cached: "mp_wf s \<Longrightarrow> mp_wf (s\<lparr>mp_gatingCache := holder (gatingSequences s)\<rparr>)"
  by (simp add: mp_wf_def)

lemma mp_wrapWait_Some:
  assumes "mp_wf s" and "mp_wrapWait script wrapPoint d (\<sigma>, s) = Some (r, \<sigma>', s')"
  shows "\<exists>k \<le> length script. \<sigma>' = run_env (take k script) \<sigma> \<and>
     wrapPoint \<le> gate_min d \<sigma>' s \<and> r = Inr (gate_min d \<sigma>' s) \<and>
     s' = s\<lparr>mp_gatingCache := holder (gatingSequences s)\<rparr> \<and>
     (\<forall>j < k. gate_min d (run_env (take j script) \<sigma>) s < wrapPoint)"
  using assms
proof (induction script arbitrary: \<sigma> s)
  case Nil
  from Nil.prems(2) mp_minimumSequence_wf [OF Nil.prems(1)] show ?case
    by (auto simp: mp_wrapWait.simps not_less split: if_splits)
next
  case (Cons env script)
  note m = mp_minimumSequence_wf [OF Cons.prems(1)]
  let ?s1 = "s\<lparr>mp_gatingCache := holder (gatingSequences s)\<rparr>"
  show ?case
  proof (cases "wrapPoint > gate_min d \<sigma> s")
    case False
    with Cons.prems(2) m show ?thesis
      by (intro exI [of _ 0]) (auto simp: mp_wrapWait.simps not_less)
  next
    case True
    have eq: "mp_wrapWait script wrapPoint d (env \<sigma>, ?s1) = Some (r, \<sigma>', s')"
      using Cons.prems(2) m True by (simp add: mp_wrapWait.simps [of "env # script"])
    from Cons.IH [OF mp_wf_cached [OF Cons.prems(1)] eq] obtain k where k: "k \<le> length script"
        "\<sigma>' = run_env (take k script) (env \<sigma>)" "wrapPoint \<le> gate_min d \<sigma>' s"
        "r = Inr (gate_min d \<sigma>' s)" "s' = ?s1"
        "\<forall>j < k. gate_min d (run_env (take j script) (env \<sigma>)) s < wrapPoint"
      by auto
    have "\<forall>j < Suc k. gate_min d (run_env (take j (env # script)) \<sigma>) s < wrapPoint"
      using k(6) True by (auto simp: less_Suc_eq_0_disj)
    with k show ?thesis by (intro exI [of _ "Suc k"]) simp
  qed
qed

lemma mp_wrapWait_progress:
  assumes "mp_wf s" and "wrapPoint \<le> gate_min d (run_env pre \<sigma>) s"
  shows "\<exists>m w. mp_wrapWait (pre @ post) wrapPoint d (\<sigma>, s) = Some (Inr m, w)"
  using assms
proof (induction pre arbitrary: \<sigma> s)
  case Nil
  then show ?case by (simp add: mp_wrapWait.simps [of post] mp_minimumSequence_wf)
next
  case (Cons env pre)
  let ?s1 = "s\<lparr>mp_gatingCache := holder (gatingSequences s)\<rparr>"
  have "\<exists>m w. mp_wrapWait (pre @ post) wrapPoint d (env \<sigma>, ?s1) = Some (Inr m, w)"
    using Cons.prems by (intro Cons.IH mp_wf_cached) simp_all
  then show ?case
    using Cons.prems(1)
    by (simp add: mp_wrapWait.simps [of "env # pre @ post"] mp_minimumSequence_wf)
qed

text \<open>When \<open>next(n)\<close> cannot decide from the cached gating sequence.\<close>

definition mp_slow :: "int \<Rightarrow> store \<Rightarrow> mp_sequencer \<Rightarrow> bool" where
  "mp_slow n \<sigma> s \<longleftrightarrow>
     \<sigma> (cursor s) + n - bufferSize s > \<sigma> (gatingSequenceCache s) \<or>
     \<sigma> (gatingSequenceCache s) > \<sigma> (cursor s)"

lemma mp_next_n_error:
  "n < 1 \<or> n > bufferSize s \<Longrightarrow>
     mp_next_n script n (\<sigma>, s) = Some (Inl (InvalidArgument ''n must be > 0 and < bufferSize''), \<sigma>, s)"
  by (simp add: mp_next_n_def)

lemma mp_next_n_unfold:
  assumes "mp_wf s" and "1 \<le> n" and "n \<le> bufferSize s" and "in_int64 (\<sigma> (cursor s) + n)"
  defines "\<sigma>1 \<equiv> \<sigma>(cursor s := \<sigma> (cursor s) + n)"
  shows "mp_next_n script n (\<sigma>, s) =
    (if mp_slow n \<sigma> s
     then case mp_wrapWait script (\<sigma> (cursor s) + n - bufferSize s) (\<sigma> (cursor s)) (\<sigma>1, s) of
            None \<Rightarrow> None
          | Some (Inl e, w') \<Rightarrow> Some (Inl e, w')
          | Some (Inr g, \<sigma>', s') \<Rightarrow> Some (Inr (\<sigma> (cursor s) + n), \<sigma>'(gatingSequenceCache s' := g), s')
     else Some (Inr (\<sigma> (cursor s) + n), \<sigma>1, s))"
  using assms unfolding mp_wf_def
  by (auto simp: mp_next_n_def seq_getAndAdd_def mp_slow_def Let_def seq_get_def seq_set_def
      split: option.splits sum.splits)

lemma mp_next_n_Inl:
  assumes "mp_wf s" and "in_int64 (\<sigma> (cursor s) + n)" and "mp_next_n script n (\<sigma>, s) = Some (Inl e, w')"
  shows "n < 1 \<or> n > bufferSize s"
proof (rule ccontr)
  assume "\<not> (n < 1 \<or> n > bufferSize s)"
  then have n: "1 \<le> n" "n \<le> bufferSize s" by simp_all
  obtain \<sigma>' s' where w': "w' = (\<sigma>', s')" by (cases w')
  have "mp_wrapWait script (\<sigma> (cursor s) + n - bufferSize s) (\<sigma> (cursor s))
      (\<sigma>(cursor s := \<sigma> (cursor s) + n), s) = Some (Inl e, \<sigma>', s')"
    using assms(3) unfolding mp_next_n_unfold [of s n \<sigma> script, OF assms(1) n assms(2)] w'
    by (auto split: if_splits option.splits sum.splits)
  from mp_wrapWait_Some [OF assms(1) this] show False by auto
qed

lemma mp_next_n_value:
  assumes wf: "mp_wf s" and range: "in_int64 (\<sigma> (cursor s) + n)"
    and ok: "mp_next_n script n (\<sigma>, s) = Some (Inr q, \<sigma>', s')"
  shows "1 \<le> n" and "n \<le> bufferSize s" and "q = \<sigma> (cursor s) + n"
    and "s' = s\<lparr>mp_gatingCache := mp_gatingCache s'\<rparr>" and "mp_wf s'"
    and "if mp_slow n \<sigma> s
         then \<exists>k \<le> length script. \<exists>\<tau>. \<tau> = run_env (take k script) (\<sigma>(cursor s := q)) \<and>
                q - bufferSize s \<le> gate_min (\<sigma> (cursor s)) \<tau> s \<and>
                \<sigma>' = \<tau>(gatingSequenceCache s := gate_min (\<sigma> (cursor s)) \<tau> s)
         else \<sigma>' = \<sigma>(cursor s := q)"
proof -
  show n: "1 \<le> n" "n \<le> bufferSize s"
    using ok by (auto simp: mp_next_n_def split: if_splits)
  note u = mp_next_n_unfold [of s n \<sigma> script, OF wf n range]
  have slow: "\<exists>g s2. mp_wrapWait script (\<sigma> (cursor s) + n - bufferSize s) (\<sigma> (cursor s))
        (\<sigma>(cursor s := \<sigma> (cursor s) + n), s) = Some (Inr g, s2, s') \<and>
        \<sigma>' = s2(gatingSequenceCache s' := g)" if "mp_slow n \<sigma> s"
    using ok that unfolding u by (auto split: option.splits sum.splits)
  show q: "q = \<sigma> (cursor s) + n"
    using ok unfolding u by (auto split: option.splits sum.splits if_splits)
  have "(\<exists>k \<le> length script. \<exists>\<tau>. \<tau> = run_env (take k script) (\<sigma>(cursor s := q)) \<and>
          q - bufferSize s \<le> gate_min (\<sigma> (cursor s)) \<tau> s \<and>
          \<sigma>' = \<tau>(gatingSequenceCache s := gate_min (\<sigma> (cursor s)) \<tau> s)) \<and>
        s' = s\<lparr>mp_gatingCache := holder (gatingSequences s)\<rparr>" if "mp_slow n \<sigma> s"
  proof -
    from slow [OF that] obtain g \<tau> where
        w: "mp_wrapWait script (\<sigma> (cursor s) + n - bufferSize s) (\<sigma> (cursor s))
          (\<sigma>(cursor s := \<sigma> (cursor s) + n), s) = Some (Inr g, \<tau>, s')"
        and \<sigma>': "\<sigma>' = \<tau>(gatingSequenceCache s' := g)" by blast
    from mp_wrapWait_Some [OF wf w] \<sigma>' show ?thesis unfolding q by auto
  qed
  note slow_case = this
  have fast_case: "\<sigma>' = \<sigma>(cursor s := q) \<and> s' = s" if "\<not> mp_slow n \<sigma> s"
    using ok that unfolding u by auto
  have "\<exists>p. s' = s\<lparr>mp_gatingCache := p\<rparr> \<and> mp_wf (s\<lparr>mp_gatingCache := p\<rparr>)"
  proof (cases "mp_slow n \<sigma> s")
    case True
    then show ?thesis using slow_case mp_wf_cached [OF wf] by blast
  next
    case False
    then show ?thesis using fast_case wf by (intro exI [of _ "mp_gatingCache s"]) simp
  qed
  then obtain p where "s' = s\<lparr>mp_gatingCache := p\<rparr>" "mp_wf (s\<lparr>mp_gatingCache := p\<rparr>)"
    by blast
  then show "s' = s\<lparr>mp_gatingCache := mp_gatingCache s'\<rparr>" and "mp_wf s'" by simp_all
  show "if mp_slow n \<sigma> s
         then \<exists>k \<le> length script. \<exists>\<tau>. \<tau> = run_env (take k script) (\<sigma>(cursor s := q)) \<and>
                q - bufferSize s \<le> gate_min (\<sigma> (cursor s)) \<tau> s \<and>
                \<sigma>' = \<tau>(gatingSequenceCache s := gate_min (\<sigma> (cursor s)) \<tau> s)
         else \<sigma>' = \<sigma>(cursor s := q)"
    using slow_case fast_case by (cases "mp_slow n \<sigma> s") simp_all
qed

text \<open>No claim that returns laps a consumer, and the cache stays a lower bound.\<close>

lemma mp_next_n_no_lap:
  assumes "mp_wf s" and "mp_cache_ok \<sigma> s" and "in_int64 (\<sigma> (cursor s) + n)"
    and "mp_next_n script n (\<sigma>, s) = Some (Inr q, \<sigma>', s')"
  shows "mp_cache_ok \<sigma>' s' \<and> (\<forall>c\<in>gates s. q - bufferSize s \<le> \<sigma>' c)"
proof -
  note v = mp_next_n_value [OF assms(1,3,4)]
  have cache: "gatingSequenceCache s \<notin> gates s" using assms(1) by (simp add: mp_wf_def)
  have frame: "gates s' = gates s" "gatingSequenceCache s' = gatingSequenceCache s"
    by (subst v(4), simp)+
  show ?thesis
  proof (cases "mp_slow n \<sigma> s")
    case True
    with v(6) obtain \<tau> where \<tau>: "q - bufferSize s \<le> gate_min (\<sigma> (cursor s)) \<tau> s"
        "\<sigma>' = \<tau>(gatingSequenceCache s := gate_min (\<sigma> (cursor s)) \<tau> s)" by auto
    have "\<sigma>' c = \<tau> c" if "c \<in> gates s" for c
      using that cache by (auto simp: \<tau>(2))
    moreover have "gate_min (\<sigma> (cursor s)) \<tau> s \<le> \<tau> c" if "c \<in> gates s" for c
      using that by (rule gate_min_le)
    ultimately show ?thesis using \<tau> by (fastforce simp: mp_cache_ok_def frame)
  next
    case False
    with v(6) have \<sigma>': "\<sigma>' = \<sigma>(cursor s := q)" by simp
    have "\<sigma> c \<le> \<sigma>' c" for c using v(1,3) by (simp add: \<sigma>')
    moreover have "\<sigma>' (gatingSequenceCache s) = \<sigma> (gatingSequenceCache s)"
      using assms(1) by (auto simp: \<sigma>' mp_wf_def)
    moreover have "q - bufferSize s \<le> \<sigma> (gatingSequenceCache s)"
      using False v(3) by (simp add: mp_slow_def)
    ultimately have "\<sigma>' (gatingSequenceCache s) \<le> \<sigma>' c \<and> q - bufferSize s \<le> \<sigma>' c" if "c \<in> gates s" for c
      using assms(2) that unfolding mp_cache_ok_def by (metis order_trans)
    then show ?thesis by (simp add: mp_cache_ok_def frame)
  qed
qed

lemma mp_next_n_progress:
  assumes "mp_wf s" and "1 \<le> n" and "n \<le> bufferSize s" and "in_int64 (\<sigma> (cursor s) + n)"
    and "\<sigma> (cursor s) + n - bufferSize s \<le>
           gate_min (\<sigma> (cursor s)) (run_env pre (\<sigma>(cursor s := \<sigma> (cursor s) + n))) s"
  shows "\<exists>w'. mp_next_n (pre @ post) n (\<sigma>, s) = Some (Inr (\<sigma> (cursor s) + n), w')"
proof (cases "mp_slow n \<sigma> s")
  case True
  from mp_wrapWait_progress [OF assms(1,5), of post] obtain m \<tau> s' where
    "mp_wrapWait (pre @ post) (\<sigma> (cursor s) + n - bufferSize s) (\<sigma> (cursor s))
       (\<sigma>(cursor s := \<sigma> (cursor s) + n), s) = Some (Inr m, \<tau>, s')" by auto
  then show ?thesis
    using True by (simp add: mp_next_n_unfold [of s n \<sigma> "pre @ post", OF assms(1-4)])
next
  case False
  then show ?thesis by (simp add: mp_next_n_unfold [of s n \<sigma> "pre @ post", OF assms(1-4)])
qed

section \<open>Capacity tests and tryNext\<close>

lemma gating_snapshot_eq:
  assumes "mp_wf s"
  shows "\<exists>xs. gating_snapshot s = Some xs \<and> (\<forall>\<sigma> d. getMinimumSequence \<sigma> xs d = gate_min d \<sigma> s)"
proof -
  have "gating_ok (gatingSequences s)" using assms by (simp add: mp_wf_def)
  then obtain v xs where v: "holder (gatingSequences s) = Some v"
      "vecs (gatingSequences s) v = Some xs" "vec_at (gatingSequences s) (Some v) = xs"
      and m: "\<And>\<sigma> d. getMinimumSequence \<sigma> xs d = gate_min d \<sigma> s"
    by (rule gate_min_snapshot) (rule that)
  have "gating_snapshot s = Some xs" using v by (simp add: gating_snapshot_def asp_load_def)
  with m show ?thesis by blast
qed

text \<open>With a sound cache the test decides exactly whether the claim fits behind every consumer.\<close>

lemma mp_hasAvailableCapacity_eq:
  assumes "mp_wf s" and "mp_cache_ok \<sigma> s"
  obtains \<sigma>1 where
    "mp_hasAvailableCapacity (gating_snapshot s) n c (\<sigma>, s) = (c + n - bufferSize s \<le> gate_min c \<sigma> s, \<sigma>1, s)"
    and "mp_cache_ok \<sigma>1 s" and "\<And>x. x \<noteq> gatingSequenceCache s \<Longrightarrow> \<sigma>1 x = \<sigma> x"
proof -
  let ?g = "gatingSequenceCache s" and ?m = "gate_min c \<sigma> s"
  obtain xs where xs: "gating_snapshot s = Some xs"
      "\<And>\<tau> d. getMinimumSequence \<tau> xs d = gate_min d \<tau> s"
    using gating_snapshot_eq [OF assms(1)] by blast
  have notin: "?g \<notin> gates s" using assms(1) by (simp add: mp_wf_def)
  show thesis
  proof (cases "c + n - bufferSize s > \<sigma> ?g \<or> \<sigma> ?g > c")
    case True
    have "mp_cache_ok (\<sigma>(?g := ?m)) s"
      using notin gate_min_le(2) by (auto simp: mp_cache_ok_def)
    then show thesis
      using that [of "\<sigma>(?g := ?m)"] True
      by (simp add: mp_hasAvailableCapacity_def xs seq_get_def seq_set_def not_less Let_def)
  next
    case False
    then have "c + n - bufferSize s \<le> ?m"
      using assms(2) by (fastforce simp: gate_min_ge_iff mp_cache_ok_def)
    then show thesis
      using that [of \<sigma>] False assms(2) by (simp add: mp_hasAvailableCapacity_def seq_get_def Let_def)
  qed
qed

text \<open>What the other threads may do to the store while one producer retries.\<close>

definition mp_rely :: "mp_sequencer \<Rightarrow> (store \<Rightarrow> store) \<Rightarrow> bool" where
  "mp_rely s env \<longleftrightarrow>
     (\<forall>\<sigma>. (\<forall>c\<in>gates s. \<sigma> c \<le> env \<sigma> c) \<and> (mp_cache_ok \<sigma> s \<longrightarrow> mp_cache_ok (env \<sigma>) s))"

lemma mp_rely_D:
  "mp_rely s env \<Longrightarrow> c \<in> gates s \<Longrightarrow> \<sigma> c \<le> env \<sigma> c"
  "mp_rely s env \<Longrightarrow> mp_cache_ok \<sigma> s \<Longrightarrow> mp_cache_ok (env \<sigma>) s"
  by (auto simp: mp_rely_def)

lemma mp_cache_ok_cursor:
  assumes "mp_wf s" and "mp_cache_ok \<sigma> s" and "\<sigma> (cursor s) \<le> q"
  shows "mp_cache_ok (\<sigma>(cursor s := q)) s"
proof -
  have "cursor s \<noteq> gatingSequenceCache s" using assms(1) by (simp add: mp_wf_def)
  with assms(2,3) show ?thesis by (auto simp: mp_cache_ok_def intro: order_trans)
qed

lemma compareAndSet_cases:
  "seq_compareAndSet sp x a b \<sigma> = (if \<sigma> x = a \<and> \<not> sp then (True, \<sigma>(x := b)) else (False, \<sigma>))"
  by (simp add: seq_compareAndSet_def)

lemma mp_tryNext_loop_Inr:
  assumes "mp_wf s" and "mp_cache_ok \<sigma> s" and "\<forall>(env, sp)\<in>set script. mp_rely s env" and "1 \<le> n"
    and "mp_tryNext_loop script n (\<sigma>, s) = (Inr q, \<sigma>', s')"
  shows "s' = s \<and> mp_cache_ok \<sigma>' s \<and> (\<forall>c\<in>gates s. q - bufferSize s \<le> \<sigma>' c) \<and>
    (\<exists>\<tau>. \<tau> (cursor s) = q - n \<and> \<sigma>' = \<tau>(cursor s := q))"
  using assms
proof (induction script arbitrary: \<sigma>)
  case Nil
  let ?c = "\<sigma> (cursor s)"
  obtain \<sigma>1 where h: "mp_hasAvailableCapacity (gating_snapshot s) n ?c (\<sigma>, s) =
      (?c + n - bufferSize s \<le> gate_min ?c \<sigma> s, \<sigma>1, s)"
    and ok: "mp_cache_ok \<sigma>1 s" and same: "\<And>x. x \<noteq> gatingSequenceCache s \<Longrightarrow> \<sigma>1 x = \<sigma> x"
    using mp_hasAvailableCapacity_eq [OF Nil.prems(1,2)] by blast
  have ne: "cursor s \<noteq> gatingSequenceCache s" "gatingSequenceCache s \<notin> gates s"
    using Nil.prems(1) by (simp_all add: mp_wf_def)
  from Nil.prems(5) h same [OF ne(1)]
  have r: "?c + n - bufferSize s \<le> gate_min ?c \<sigma> s" "q = ?c + n" "\<sigma>' = \<sigma>1(cursor s := q)" "s' = s"
    by (auto simp: seq_get_def compareAndSet_cases Let_def split: if_splits)
  have "mp_cache_ok \<sigma>' s"
    unfolding r(3) by (rule mp_cache_ok_cursor [OF Nil.prems(1) ok]) (use same [OF ne(1)] r Nil.prems in simp)
  moreover have "q - bufferSize s \<le> \<sigma>' c" if "c \<in> gates s" for c
  proof -
    have "q - bufferSize s \<le> \<sigma> c" using r(1,2) that by (simp add: gate_min_ge_iff)
    also have "\<sigma> c = \<sigma>1 c" using same [of c] that ne(2) by metis
    also have "\<dots> \<le> \<sigma>' c" using r Nil.prems(4) same [OF ne(1)] by simp
    finally show ?thesis .
  qed
  ultimately show ?case using r(2-4) same [OF ne(1)] by (intro conjI exI [of _ \<sigma>1]) (simp_all del: fun_upd_apply)
next
  case (Cons a script)
  obtain env sp where a: "a = (env, sp)" by (cases a)
  let ?c = "\<sigma> (cursor s)"
  obtain \<sigma>1 where h: "mp_hasAvailableCapacity (gating_snapshot s) n ?c (\<sigma>, s) =
      (?c + n - bufferSize s \<le> gate_min ?c \<sigma> s, \<sigma>1, s)"
    and ok: "mp_cache_ok \<sigma>1 s" and same: "\<And>x. x \<noteq> gatingSequenceCache s \<Longrightarrow> \<sigma>1 x = \<sigma> x"
    using mp_hasAvailableCapacity_eq [OF Cons.prems(1,2)] by blast
  have ne: "gatingSequenceCache s \<notin> gates s"
    using Cons.prems(1) by (simp add: mp_wf_def)
  have rely: "mp_rely s env" using Cons.prems(3) by (simp add: a)
  have ok2: "mp_cache_ok (env \<sigma>1) s" using rely ok by (rule mp_rely_D)
  from Cons.prems(5) h have room: "?c + n - bufferSize s \<le> gate_min ?c \<sigma> s"
    by (auto simp: a seq_get_def Let_def split: if_splits)
  show ?case
  proof (cases "env \<sigma>1 (cursor s) = ?c \<and> \<not> sp")
    case True
    with Cons.prems(5) h room
    have r: "q = ?c + n" "\<sigma>' = (env \<sigma>1)(cursor s := q)" "s' = s"
      by (auto simp: a seq_get_def compareAndSet_cases Let_def)
    have "mp_cache_ok \<sigma>' s"
      unfolding r(2) by (rule mp_cache_ok_cursor [OF Cons.prems(1) ok2]) (use True r Cons.prems(4) in simp)
    moreover have "q - bufferSize s \<le> \<sigma>' c" if "c \<in> gates s" for c
    proof -
      have "q - bufferSize s \<le> \<sigma> c" using room r(1) that by (simp add: gate_min_ge_iff)
      also have "\<sigma> c = \<sigma>1 c" using same [of c] that ne by metis
      also have "\<dots> \<le> env \<sigma>1 c" using rely that by (rule mp_rely_D)
      also have "\<dots> \<le> \<sigma>' c" using r Cons.prems(4) True by simp
      finally show ?thesis .
    qed
    ultimately show ?thesis using r True by (intro conjI exI [of _ "env \<sigma>1"]) (simp_all del: fun_upd_apply)
  next
    case False
    then have "mp_tryNext_loop script n (env \<sigma>1, s) = (Inr q, \<sigma>', s')"
      using Cons.prems(5) h room by (auto simp: a seq_get_def compareAndSet_cases Let_def split: if_splits)
    then show ?thesis
      by (intro Cons.IH [OF Cons.prems(1) ok2 _ Cons.prems(4)]) (use Cons.prems(3) in auto)
  qed
qed

text \<open>A refused claim found, at some moment, a consumer too far behind, and moved no cursor.\<close>

lemma mp_tryNext_loop_Inl:
  assumes "mp_wf s" and "mp_cache_ok \<sigma> s" and "\<forall>(env, sp)\<in>set script. mp_rely s env"
    and "mp_tryNext_loop script n (\<sigma>, s) = (Inl e, \<sigma>', s')"
  shows "e = error_insufficient_capacity \<and> s' = s \<and> mp_cache_ok \<sigma>' s \<and>
    (\<exists>\<tau>. \<sigma>' (cursor s) = \<tau> (cursor s) \<and> (\<forall>c\<in>gates s. \<sigma>' c = \<tau> c) \<and>
       \<not> \<tau> (cursor s) + n - bufferSize s \<le> gate_min (\<tau> (cursor s)) \<tau> s)"
  using assms
proof (induction script arbitrary: \<sigma>)
  case Nil
  let ?c = "\<sigma> (cursor s)"
  obtain \<sigma>1 where h: "mp_hasAvailableCapacity (gating_snapshot s) n ?c (\<sigma>, s) =
      (?c + n - bufferSize s \<le> gate_min ?c \<sigma> s, \<sigma>1, s)"
    and ok: "mp_cache_ok \<sigma>1 s" and same: "\<And>x. x \<noteq> gatingSequenceCache s \<Longrightarrow> \<sigma>1 x = \<sigma> x"
    using mp_hasAvailableCapacity_eq [OF Nil.prems(1,2)] by blast
  have ne: "cursor s \<noteq> gatingSequenceCache s" "gatingSequenceCache s \<notin> gates s"
    using Nil.prems(1) by (simp_all add: mp_wf_def)
  have frame: "\<sigma>1 (cursor s) = \<sigma> (cursor s)" "\<forall>c\<in>gates s. \<sigma>1 c = \<sigma> c"
    using same ne by metis+
  have r: "\<not> ?c + n - bufferSize s \<le> gate_min ?c \<sigma> s" "e = error_insufficient_capacity"
      "\<sigma>' = \<sigma>1" "s' = s"
    using Nil.prems(4) h by (auto simp: seq_get_def Let_def split: if_splits)
  show ?case unfolding r using r(1) ok frame by blast
next
  case (Cons a script)
  obtain env sp where a: "a = (env, sp)" by (cases a)
  let ?c = "\<sigma> (cursor s)"
  obtain \<sigma>1 where h: "mp_hasAvailableCapacity (gating_snapshot s) n ?c (\<sigma>, s) =
      (?c + n - bufferSize s \<le> gate_min ?c \<sigma> s, \<sigma>1, s)"
    and ok: "mp_cache_ok \<sigma>1 s" and same: "\<And>x. x \<noteq> gatingSequenceCache s \<Longrightarrow> \<sigma>1 x = \<sigma> x"
    using mp_hasAvailableCapacity_eq [OF Cons.prems(1,2)] by blast
  have ne: "cursor s \<noteq> gatingSequenceCache s" "gatingSequenceCache s \<notin> gates s"
    using Cons.prems(1) by (simp_all add: mp_wf_def)
  have frame: "\<sigma>1 (cursor s) = \<sigma> (cursor s)" "\<forall>c\<in>gates s. \<sigma>1 c = \<sigma> c"
    using same ne by metis+
  show ?case
  proof (cases "?c + n - bufferSize s \<le> gate_min ?c \<sigma> s")
    case False
    have r: "e = error_insufficient_capacity" "\<sigma>' = \<sigma>1" "s' = s"
      using Cons.prems(4) h False by (auto simp: a seq_get_def Let_def)
    show ?thesis unfolding r using False ok frame by blast
  next
    case True
    have rely: "mp_rely s env" using Cons.prems(3) by (simp add: a)
    have ok2: "mp_cache_ok (env \<sigma>1) s" using rely ok by (rule mp_rely_D)
    have "mp_tryNext_loop script n (env \<sigma>1, s) = (Inl e, \<sigma>', s')"
      using Cons.prems(4) h True by (auto simp: a seq_get_def compareAndSet_cases Let_def split: if_splits)
    then show ?thesis
      by (intro Cons.IH [OF Cons.prems(1) ok2]) (use Cons.prems(3) in auto)
  qed
qed

lemma mp_remainingCapacity_eq:
  "mp_wf s \<Longrightarrow> mp_remainingCapacity (\<sigma>, s) =
     (Inr (bufferSize s - (\<sigma> (cursor s) - gate_min (\<sigma> (cursor s)) \<sigma> s)), \<sigma>,
      s\<lparr>mp_gatingCache := holder (gatingSequences s)\<rparr>)"
  by (simp add: mp_remainingCapacity_def mp_minimumSequence_wf seq_get_def getBufferSize_def)

text \<open>
  A new consumer starts at the cursor, that is behind every claim made so far; the cached
  gating sequence stays a lower bound when it is not ahead of the cursor.
\<close>

lemma mp_addGating_safe:
  assumes "mp_wf s" and "mp_cache_ok \<sigma> s" and "\<sigma> (gatingSequenceCache s) \<le> \<sigma> (cursor s)"
    and "gatingSequenceCache s \<notin> ptrs new"
  shows "\<exists>\<sigma>' s'. mp_addGatingSequences [] new (\<sigma>, s) = Some (\<sigma>', s') \<and> mp_wf s' \<and> mp_cache_ok \<sigma>' s' \<and>
     gates s' = gates s \<union> ptrs new \<and> (\<forall>c\<in>ptrs new. \<sigma>' c = \<sigma> (cursor s)) \<and> mp_gatingCache s' = None"
proof -
  obtain g' where g': "as_addGatingSequences [] new (\<sigma>, s) =
       Some (set_all new (\<sigma> (cursor s)) \<sigma>, s\<lparr>gatingSequences := g'\<rparr>)"
    and ok: "gating_ok g'" "group_seqs g' = group_seqs (gatingSequences s) @ new"
    using as_addGatingSequences_alone [of s new \<sigma>] assms(1) unfolding mp_wf_def by metis
  let ?s' = "s\<lparr>gatingSequences := g', mp_gatingCache := None\<rparr>"
  have gates: "gates ?s' = gates s \<union> ptrs new" using ok(2) by (simp add: gates_def)
  have "mp_wf ?s'" using assms(1,4) ok(1) gates by (simp add: mp_wf_def)
  moreover have "mp_cache_ok (set_all new (\<sigma> (cursor s)) \<sigma>) ?s'"
    using assms(2,3,4) unfolding mp_cache_ok_def gates by auto
  ultimately show ?thesis using g' gates by (simp add: mp_addGatingSequences_def)
qed

lemma mp_removeGating_safe:
  assumes "mp_wf s" and "mp_cache_ok \<sigma> s"
  shows "\<exists>s'. mp_removeGatingSequence [] sq (\<sigma>, s) = Some (sq \<in> gates s, \<sigma>, s') \<and> mp_wf s' \<and>
     mp_cache_ok \<sigma> s' \<and> gates s' = gates s - {sq} \<and> mp_gatingCache s' = None"
proof -
  obtain g' where g': "as_removeGatingSequence [] sq s = Some (sq \<in> gates s, s\<lparr>gatingSequences := g'\<rparr>)"
    and ok: "gating_ok g'" "group_seqs g' = filter (\<lambda>p. p \<noteq> Some sq) (group_seqs (gatingSequences s))"
    using as_removeGatingSequence_alone [of s sq] assms(1) unfolding mp_wf_def by metis
  let ?s' = "s\<lparr>gatingSequences := g', mp_gatingCache := None\<rparr>"
  have gates: "gates ?s' = gates s - {sq}" using ok(2) by (auto simp: gates_def ptrs_def)
  have "mp_wf ?s'" using assms(1) ok(1) gates by (simp add: mp_wf_def)
  moreover have "mp_cache_ok \<sigma> ?s'" using assms(2) unfolding mp_cache_ok_def gates by simp
  ultimately show ?thesis using g' gates by (simp add: mp_removeGatingSequence_def)
qed

end
