(* ===== verification/Sequencer_Interface.thy ===== *)
theory Sequencer_Interface
  imports Single_Producer Multi_Producer
begin

text \<open>
  What a ring buffer, a barrier and a poller use of a sequencer.  The code passes the concrete
  class as a template argument (\<open>SequencerT\<close>); here it is a record of the operations the
  clients call.  The locale \<open>sequencer\<close> states the contract, and is interpreted on both
  sequencers.
\<close>

section \<open>The operations\<close>

record 's seq_ops =
  op_next :: "(store \<Rightarrow> store) list \<Rightarrow> int \<Rightarrow> store \<times> 's \<Rightarrow> ((exn + int) \<times> store \<times> 's) option"
  op_tryNext :: "((store \<Rightarrow> store) \<times> bool) list \<Rightarrow> int \<Rightarrow> store \<times> 's
    \<Rightarrow> (exn + (error + int)) \<times> store \<times> 's"
  op_hasCapacity :: "int \<Rightarrow> store \<times> 's \<Rightarrow> (exn + bool) \<times> store \<times> 's"
  op_remainingCapacity :: "store \<times> 's \<Rightarrow> (exn + int) \<times> store \<times> 's"
  op_publish :: "int \<Rightarrow> store \<times> 's \<Rightarrow> store \<times> 's"
  op_publish_range :: "int \<Rightarrow> int \<Rightarrow> store \<times> 's \<Rightarrow> store \<times> 's"
  op_isAvailable :: "int \<Rightarrow> store \<times> 's \<Rightarrow> bool"
  op_highestPublished :: "int \<Rightarrow> int \<Rightarrow> store \<times> 's \<Rightarrow> int"
  op_cursor :: "'s \<Rightarrow> sid"
  op_bufferSize :: "'s \<Rightarrow> int"
  op_getMinimum :: "store \<Rightarrow> 's \<Rightarrow> int"
  op_addGating :: "(store \<times> gating \<Rightarrow> store \<times> gating) list \<Rightarrow> seqs \<Rightarrow> store \<times> 's \<Rightarrow> (store \<times> 's) option"
  op_removeGating :: "(gating \<Rightarrow> gating) list \<Rightarrow> sid \<Rightarrow> store \<times> 's \<Rightarrow> (bool \<times> store \<times> 's) option"

definition sp_ops :: "bool \<Rightarrow> nat \<Rightarrow> sp_sequencer seq_ops" where
  "sp_ops ndebug tid =
     \<lparr>op_next = sp_next_n ndebug tid, op_tryNext = (\<lambda>script. sp_tryNext_n),
      op_hasCapacity = sp_hasCapacity, op_remainingCapacity = sp_remainingCapacity,
      op_publish = sp_publish, op_publish_range = sp_publish_range,
      op_isAvailable = sp_isAvailable, op_highestPublished = sp_getHighestPublishedSequence,
      op_cursor = cursorSequence, op_bufferSize = getBufferSize,
      op_getMinimum = as_getMinimumSequence,
      op_addGating = sp_addGatingSequences, op_removeGating = sp_removeGatingSequence\<rparr>"

definition mp_ops :: "mp_sequencer seq_ops" where
  "mp_ops =
     \<lparr>op_next = mp_next_n,
      op_tryNext = (\<lambda>script n w. let (r, w') = mp_tryNext_n script n w in (Inr r, w')),
      op_hasCapacity = (\<lambda>n w. let (b, w') = mp_hasCapacity n w in (Inr b, w')),
      op_remainingCapacity = mp_remainingCapacity,
      op_publish = mp_publish, op_publish_range = mp_publish_range,
      op_isAvailable = (\<lambda>q w. mp_isAvailable q (snd w)),
      op_highestPublished = mp_getHighestPublishedSequence,
      op_cursor = cursorSequence, op_bufferSize = getBufferSize,
      op_getMinimum = as_getMinimumSequence,
      op_addGating = mp_addGatingSequences, op_removeGating = mp_removeGatingSequence\<rparr>"

section \<open>The contract\<close>

text \<open>
  \<open>wf\<close> is the structural invariant of the sequencer, \<open>safe\<close> the one that relates it to the
  consumers, \<open>claimed\<close> the highest sequence handed out, \<open>consumers\<close> the gating sequences.
\<close>

locale sequencer =
  fixes ops :: "'s seq_ops"
    and wf :: "'s \<Rightarrow> bool"
    and safe :: "store \<Rightarrow> 's \<Rightarrow> bool"
    and claimed :: "store \<Rightarrow> 's \<Rightarrow> int"
    and consumers :: "'s \<Rightarrow> sid set"
  assumes size: "wf s \<Longrightarrow> is_pow2 (op_bufferSize ops s) \<and> op_bufferSize ops s \<le> 2 ^ 30"
    and next_error: "wf s \<Longrightarrow> n < 1 \<or> n > op_bufferSize ops s \<Longrightarrow>
      \<exists>s'. op_next ops script n (\<sigma>, s) =
        Some (Inl (InvalidArgument ''n must be > 0 and < bufferSize''), \<sigma>, s') \<and> wf s' \<and>
        claimed \<sigma> s' = claimed \<sigma> s"
    and next_Inl: "wf s \<Longrightarrow> in_int64 (claimed \<sigma> s + n) \<Longrightarrow>
      op_next ops script n (\<sigma>, s) = Some (Inl e, w') \<Longrightarrow> n < 1 \<or> n > op_bufferSize ops s"
    and next_total: "wf s \<Longrightarrow> 1 \<le> n \<Longrightarrow> n \<le> op_bufferSize ops s \<Longrightarrow> in_int64 (claimed \<sigma> s + n) \<Longrightarrow>
      \<forall>c\<in>consumers s. claimed \<sigma> s + n - op_bufferSize ops s \<le> \<sigma> c \<Longrightarrow>
      \<exists>w'. op_next ops script n (\<sigma>, s) = Some (Inr (claimed \<sigma> s + n), w')"
    and next_value: "wf s \<Longrightarrow> in_int64 (claimed \<sigma> s + n) \<Longrightarrow>
      op_next ops script n (\<sigma>, s) = Some (Inr q, \<sigma>', s') \<Longrightarrow>
      q = claimed \<sigma> s + n \<and> 1 \<le> n \<and> n \<le> op_bufferSize ops s \<and> wf s' \<and>
      op_bufferSize ops s' = op_bufferSize ops s \<and> consumers s' = consumers s"
    and next_safe: "wf s \<Longrightarrow> safe \<sigma> s \<Longrightarrow> in_int64 (claimed \<sigma> s + n) \<Longrightarrow>
      op_next ops script n (\<sigma>, s) = Some (Inr q, \<sigma>', s') \<Longrightarrow>
      safe \<sigma>' s' \<and> (\<forall>c\<in>consumers s. q - op_bufferSize ops s \<le> \<sigma>' c)"
    and hasCapacity: "wf s \<Longrightarrow> safe \<sigma> s \<Longrightarrow>
      \<exists>b \<sigma>' s'. op_hasCapacity ops n (\<sigma>, s) = (Inr b, \<sigma>', s') \<and> wf s' \<and> safe \<sigma>' s' \<and>
        claimed \<sigma>' s' = claimed \<sigma> s \<and> op_bufferSize ops s' = op_bufferSize ops s \<and>
        consumers s' = consumers s \<and>
        (b \<longleftrightarrow> n \<le> op_bufferSize ops s \<and>
           (\<forall>c\<in>consumers s. claimed \<sigma> s + n - op_bufferSize ops s \<le> \<sigma>' c))"
    and publish: "wf s \<Longrightarrow> op_publish ops q (\<sigma>, s) = (\<sigma>', s') \<Longrightarrow>
      wf s' \<and> op_bufferSize ops s' = op_bufferSize ops s \<and> op_isAvailable ops q (\<sigma>', s')"
    and publish_range: "wf s \<Longrightarrow> op_publish_range ops lo hi (\<sigma>, s) = (\<sigma>', s') \<Longrightarrow>
      wf s' \<and> op_bufferSize ops s' = op_bufferSize ops s \<and>
      (hi - lo < op_bufferSize ops s \<longrightarrow>
         (\<forall>l. lo \<le> l \<and> l \<le> hi \<longrightarrow> op_isAvailable ops l (\<sigma>', s')))"
    and highestPublished: "wf s \<Longrightarrow> lo \<le> av + 1 \<Longrightarrow> av \<le> \<sigma> (op_cursor ops s) \<Longrightarrow>
      \<sigma> (op_cursor ops s) - op_bufferSize ops s < lo \<Longrightarrow>
      lo - 1 \<le> op_highestPublished ops lo av (\<sigma>, s) \<and> op_highestPublished ops lo av (\<sigma>, s) \<le> av \<and>
      (\<forall>l. lo \<le> l \<and> l \<le> op_highestPublished ops lo av (\<sigma>, s) \<longrightarrow> op_isAvailable ops l (\<sigma>, s))"
begin

lemma size_pos: "wf s \<Longrightarrow> 0 < op_bufferSize ops s"
  using size is_pow2_pos by blast

text \<open>Consecutive claims are disjoint: the second starts where the first ended.\<close>

lemma claims_disjoint:
  assumes "wf s" and "in_int64 (claimed \<sigma> s + n)"
    and "op_next ops script n (\<sigma>, s) = Some (Inr q, \<sigma>', s')"
    and "in_int64 (claimed \<sigma>2 s' + m)" and "q \<le> claimed \<sigma>2 s'"
    and "op_next ops script' m (\<sigma>2, s') = Some (Inr q', w)"
  shows "{q - n <.. q} \<inter> {q' - m <.. q'} = {}"
proof -
  obtain \<sigma>3 s3 where w: "w = (\<sigma>3, s3)" by (cases w)
  have 1: "q = claimed \<sigma> s + n" "wf s'" using next_value [OF assms(1-3)] by auto
  have "q' = claimed \<sigma>2 s' + m" using next_value [OF 1(2) assms(4)] assms(6) w by blast
  then show ?thesis using assms(5) by auto
qed

text \<open>
  When \<open>hasAvailableCapacity(n)\<close> says yes and nobody claims in between, \<open>next(n)\<close> returns
  without waiting.
\<close>

lemma hasCapacity_next:
  assumes "wf s" and "safe \<sigma> s" and "1 \<le> n" and "in_int64 (claimed \<sigma> s + n)"
    and "op_hasCapacity ops n (\<sigma>, s) = (Inr True, \<sigma>', s')"
  shows "wf s' \<and> safe \<sigma>' s' \<and> claimed \<sigma>' s' = claimed \<sigma> s \<and>
    op_bufferSize ops s' = op_bufferSize ops s \<and> n \<le> op_bufferSize ops s \<and>
    (\<exists>w'. op_next ops script n (\<sigma>', s') = Some (Inr (claimed \<sigma> s + n), w'))"
proof -
  from hasCapacity [OF assms(1,2), of n] assms(5) have h:
      "wf s'" "safe \<sigma>' s'" "claimed \<sigma>' s' = claimed \<sigma> s" "op_bufferSize ops s' = op_bufferSize ops s"
      "consumers s' = consumers s" "n \<le> op_bufferSize ops s"
      "\<forall>c\<in>consumers s. claimed \<sigma> s + n - op_bufferSize ops s \<le> \<sigma>' c"
    by auto
  moreover have "\<exists>w'. op_next ops script n (\<sigma>', s') = Some (Inr (claimed \<sigma>' s' + n), w')"
    using assms(3,4) h by (intro next_total) auto
  ultimately show ?thesis by simp
qed

end

section \<open>The single-producer sequencer meets it\<close>

text \<open>In a debug build the calls must come from the thread registered for the address.\<close>

definition sp_ready :: "bool \<Rightarrow> nat \<Rightarrow> sp_sequencer \<Rightarrow> bool" where
  "sp_ready ndebug tid s \<longleftrightarrow>
     sp_wf s \<and> (ndebug \<or> producerThread s = None \<or> producerThread s = Some tid)"

lemma sp_next_n_ready:
  assumes "sp_ready ndebug tid s"
  obtains s1 where "sp_next_n ndebug tid script n (\<sigma>, s) = sp_next_body script n (\<sigma>, s1)"
    and "sp_wf s1" and "s1 = s \<or> \<not> ndebug \<and> s1 = s\<lparr>producerThread := Some tid\<rparr>"
    and "sp_ready ndebug tid s1"
proof -
  let ?t = "s\<lparr>producerThread := Some tid\<rparr>"
  have wf: "sp_wf s" "sp_wf ?t" using assms by (auto simp: sp_ready_def sp_wf_def)
  show thesis
  proof (cases "ndebug \<or> producerThread s = Some tid")
    case True
    then show thesis
      using that [of s] wf assms by (auto simp: sp_next_n_def sp_sameThread_def)
  next
    case False
    then have "producerThread s = None" "\<not> ndebug" using assms by (auto simp: sp_ready_def)
    then show thesis
      using that [of ?t] wf by (auto simp: sp_next_n_def sp_sameThread_def sp_ready_def)
  qed
qed

lemma sp_next_body_producerThread:
  assumes "sp_wf s" and "sp_next_body script n (\<sigma>, s) = Some (Inr q, \<sigma>', s')"
  shows "producerThread s' = producerThread s"
proof -
  let ?s1 = "s\<lparr>wrapWaitEntries := wrapWaitEntries s + 1\<rparr>"
  have wf: "sp_wf ?s1" using assms(1) by (simp add: sp_wf_def)
  have "producerThread t = producerThread s"
    if "sp_wrapWait script wp d (\<tau>, ?s1) = Some (r, \<tau>', t)" for wp d \<tau> r \<tau>' t
    using sp_wrapWait_Some [OF wf that] by auto
  with assms(2) show ?thesis
    by (auto simp: sp_next_body_def Let_def split: if_splits option.splits sum.splits prod.splits)
qed

lemma sp_hasCapacity_facts:
  assumes "sp_ready ndebug tid s" and "sp_no_lap \<sigma> s"
  shows "\<exists>b \<sigma>' s'. sp_hasCapacity n (\<sigma>, s) = (Inr b, \<sigma>', s') \<and> sp_ready ndebug tid s' \<and>
    sp_no_lap \<sigma>' s' \<and> nextValue s' = nextValue s \<and> getBufferSize s' = getBufferSize s \<and>
    gates s' = gates s \<and>
    (b \<longleftrightarrow> n \<le> bufferSize s \<and> (\<forall>c\<in>gates s. nextValue s + n - bufferSize s \<le> \<sigma>' c))"
proof -
  have wf: "sp_wf s" using assms(1) by (simp add: sp_ready_def)
  obtain r \<sigma>' s' where r: "sp_hasAvailableCapacity n False (\<sigma>, s) = (r, \<sigma>', s')"
    by (metis prod_cases3)
  have "producerThread s' = producerThread s"
  proof -
    have "sp_minimumSequence (nextValue s) \<sigma> s =
        (Inr (gate_min (nextValue s) \<sigma> s), s\<lparr>sp_gatingCache := holder (gatingSequences s)\<rparr>)"
      using sp_minimumSequence_wf [OF wf] by metis
    then show ?thesis
      using r by (auto simp: sp_hasAvailableCapacity_def Let_def split: if_splits)
  qed
  then show ?thesis
    using r assms(1) sp_hasAvailableCapacity_eq [OF wf assms(2) r]
    by (auto simp: sp_hasCapacity_def sp_ready_def getBufferSize_def gate_min_ge_iff)
qed

lemma sp_next_total:
  assumes "sp_ready ndebug tid s" and "1 \<le> n" and "n \<le> bufferSize s"
    and "\<forall>c\<in>gates s. nextValue s + n - bufferSize s \<le> \<sigma> c"
  shows "\<exists>w'. sp_next_n ndebug tid script n (\<sigma>, s) = Some (Inr (nextValue s + n), w')"
proof -
  obtain s1 where s1: "sp_next_n ndebug tid script n (\<sigma>, s) = sp_next_body script n (\<sigma>, s1)"
      "sp_wf s1" "s1 = s \<or> \<not> ndebug \<and> s1 = s\<lparr>producerThread := Some tid\<rparr>"
    using sp_next_n_ready [OF assms(1)] by metis
  have f: "nextValue s1 = nextValue s" "bufferSize s1 = bufferSize s" "gates s1 = gates s"
      "cursor s1 = cursor s"
    using s1(3) by auto
  have "nextValue s1 + n - bufferSize s1 \<le>
      gate_min (nextValue s1) (run_env [] (seq_setVolatile (cursor s1) (nextValue s1) \<sigma>)) s1"
    using assms(3,4) unfolding gate_min_ge_iff f by auto
  from sp_next_body_progress [OF s1(2) assms(2) _ this, of script] show ?thesis
    using assms(3) by (simp add: f s1(1))
qed

lemma sp_sequencer_contract:
  "sequencer (sp_ops ndebug tid) (sp_ready ndebug tid) sp_no_lap (\<lambda>\<sigma>. nextValue) gates"
proof (unfold_locales, goal_cases)
  case (1 s)
  then show ?case by (simp add: sp_ops_def sp_ready_def sp_wf_def getBufferSize_def)
next
  case (2 s n script \<sigma>)
  obtain s1 where s1: "sp_next_n ndebug tid script n (\<sigma>, s) = sp_next_body script n (\<sigma>, s1)"
      "s1 = s \<or> \<not> ndebug \<and> s1 = s\<lparr>producerThread := Some tid\<rparr>" "sp_ready ndebug tid s1"
    using sp_next_n_ready [OF 2(1)] by metis
  then show ?case using 2(2)
    by (auto simp: sp_ops_def getBufferSize_def sp_next_body_def intro!: exI [of _ s1])
next
  case (3 s \<sigma> n script e w')
  obtain s1 where s1: "sp_next_n ndebug tid script n (\<sigma>, s) = sp_next_body script n (\<sigma>, s1)"
      "sp_wf s1" "s1 = s \<or> \<not> ndebug \<and> s1 = s\<lparr>producerThread := Some tid\<rparr>"
    using sp_next_n_ready [OF 3(1)] by metis
  then have "sp_next_body script n (\<sigma>, s1) = Some (Inl e, w')"
    using 3(3) by (simp add: sp_ops_def)
  from sp_next_body_error [OF s1(2) this] show ?case
    using s1(3) by (auto simp: sp_ops_def getBufferSize_def)
next
  case (4 s n \<sigma> script)
  then show ?case using sp_next_total [of ndebug tid s n \<sigma> script]
    by (simp add: sp_ops_def getBufferSize_def)
next
  case (5 s \<sigma> n script q \<sigma>' s')
  obtain s1 where s1: "sp_next_n ndebug tid script n (\<sigma>, s) = sp_next_body script n (\<sigma>, s1)"
      "sp_wf s1" "s1 = s \<or> \<not> ndebug \<and> s1 = s\<lparr>producerThread := Some tid\<rparr>" "sp_ready ndebug tid s1"
    using sp_next_n_ready [OF 5(1)] by metis
  have e: "sp_next_body script n (\<sigma>, s1) = Some (Inr q, \<sigma>', s')"
    using 5(3) s1(1) by (simp add: sp_ops_def)
  note v = sp_next_body_value [OF s1(2) e]
  have "sp_ready ndebug tid s'"
    using v(5) sp_next_body_producerThread [OF s1(2) e] s1(4) by (simp add: sp_ready_def)
  moreover have "nextValue s1 = nextValue s" "bufferSize s1 = bufferSize s" "gates s1 = gates s"
    using s1(3) by auto
  ultimately show ?case using v(1-3,6,7) by (simp add: sp_ops_def getBufferSize_def)
next
  case (6 s \<sigma> n script q \<sigma>' s')
  obtain s1 where s1: "sp_next_n ndebug tid script n (\<sigma>, s) = sp_next_body script n (\<sigma>, s1)"
      "sp_wf s1" "s1 = s \<or> \<not> ndebug \<and> s1 = s\<lparr>producerThread := Some tid\<rparr>"
    using sp_next_n_ready [OF 6(1)] by metis
  have e: "sp_next_body script n (\<sigma>, s1) = Some (Inr q, \<sigma>', s')"
    using 6(4) s1(1) by (simp add: sp_ops_def)
  have safe: "sp_no_lap \<sigma> s1" using 6(2) s1(3) by (auto simp: sp_no_lap_def)
  note v = sp_next_body_value [OF s1(2) e]
  have no_lap: "sp_no_lap \<sigma>' s'" by (rule sp_next_body_no_lap [OF s1(2) safe e])
  have s1_same: "gates s1 = gates s" "bufferSize s1 = bufferSize s" using s1(3) by auto
  have "gates s' = gates s" "bufferSize s' = bufferSize s" using v(6,7) by (simp_all add: s1_same)
  with no_lap v(4) have "\<forall>c\<in>gates s. q - bufferSize s \<le> \<sigma>' c" by (simp add: sp_no_lap_def)
  with no_lap show ?case by (simp add: sp_ops_def getBufferSize_def)
next
  case (7 s \<sigma> n)
  then show ?case using sp_hasCapacity_facts [of ndebug tid s \<sigma> n]
    by (simp add: sp_ops_def getBufferSize_def)
next
  case (8 s q \<sigma> \<sigma>' s')
  then show ?case
    using sp_wf_D [of s]
    by (auto simp: sp_ops_def sp_publish_def sp_ready_def sp_isAvailable_def
        getBufferSize_def dest: is_pow2_pos)
next
  case (9 s lo hi \<sigma> \<sigma>' s')
  then show ?case
    by (auto simp: sp_ops_def sp_publish_range_def sp_publish_def sp_ready_def
        sp_isAvailable_def getBufferSize_def)
next
  case (10 s lo av \<sigma>)
  then show ?case
    by (auto simp: sp_ops_def sp_getHighestPublishedSequence_def sp_isAvailable_def
        getBufferSize_def cursorSequence_def seq_get_def)
qed

interpretation sp_seq: sequencer "sp_ops ndebug tid" "sp_ready ndebug tid" sp_no_lap
    "\<lambda>\<sigma>. nextValue" gates for ndebug tid
  by (rule sp_sequencer_contract)

section \<open>The multi-producer sequencer meets it\<close>

lemma mp_hasCapacity_facts:
  assumes "mp_wf s" and "mp_cache_ok \<sigma> s"
  shows "\<exists>b \<sigma>'. mp_hasCapacity n (\<sigma>, s) = (b, \<sigma>', s) \<and> mp_cache_ok \<sigma>' s \<and>
    \<sigma>' (cursor s) = \<sigma> (cursor s) \<and>
    (b \<longleftrightarrow> n \<le> bufferSize s \<and> (\<forall>c\<in>gates s. \<sigma> (cursor s) + n - bufferSize s \<le> \<sigma>' c))"
proof -
  obtain \<sigma>1 where h: "mp_hasAvailableCapacity (gating_snapshot s) n (\<sigma> (cursor s)) (\<sigma>, s) =
      (\<sigma> (cursor s) + n - bufferSize s \<le> gate_min (\<sigma> (cursor s)) \<sigma> s, \<sigma>1, s)"
    and ok: "mp_cache_ok \<sigma>1 s" and same: "\<And>x. x \<noteq> gatingSequenceCache s \<Longrightarrow> \<sigma>1 x = \<sigma> x"
    using mp_hasAvailableCapacity_eq [OF assms] by blast
  have "cursor s \<noteq> gatingSequenceCache s" "gatingSequenceCache s \<notin> gates s"
    using assms(1) by (simp_all add: mp_wf_def)
  then have frame: "\<sigma>1 (cursor s) = \<sigma> (cursor s)" "\<forall>c\<in>gates s. \<sigma>1 c = \<sigma> c"
    using same by metis+
  then show ?thesis using h ok
    by (auto simp: mp_hasCapacity_def seq_get_def gate_min_ge_iff)
qed

lemma mp_sequencer_contract:
  "sequencer mp_ops mp_wf mp_cache_ok (\<lambda>\<sigma> s. \<sigma> (cursor s)) gates"
proof (unfold_locales, goal_cases)
  case (1 s)
  then show ?case by (simp add: mp_ops_def mp_wf_def getBufferSize_def)
next
  case (2 s n script \<sigma>)
  then show ?case by (simp add: mp_ops_def getBufferSize_def mp_next_n_error)
next
  case (3 s \<sigma> n script e w')
  then show ?case using mp_next_n_Inl [of s \<sigma> n script e w'] by (simp add: mp_ops_def getBufferSize_def)
next
  case (4 s n \<sigma> script)
  then have "\<sigma> (cursor s) + n - bufferSize s \<le>
      gate_min (\<sigma> (cursor s)) (run_env [] (\<sigma>(cursor s := \<sigma> (cursor s) + n))) s"
    by (auto simp: gate_min_ge_iff mp_ops_def getBufferSize_def)
  then show ?case using 4 mp_next_n_progress [of s n \<sigma> "[]" script]
    by (simp add: mp_ops_def getBufferSize_def)
next
  case (5 s \<sigma> n script q \<sigma>' s')
  then have e: "mp_next_n script n (\<sigma>, s) = Some (Inr q, \<sigma>', s')" by (simp add: mp_ops_def)
  note v = mp_next_n_value [OF 5(1,2) e]
  have "gates s' = gates s" "bufferSize s' = bufferSize s" by (subst v(4), simp)+
  then show ?case using v(1-3,5) by (simp add: mp_ops_def getBufferSize_def)
next
  case (6 s \<sigma> n script q \<sigma>' s')
  then have e: "mp_next_n script n (\<sigma>, s) = Some (Inr q, \<sigma>', s')" by (simp add: mp_ops_def)
  show ?case using mp_next_n_no_lap [OF 6(1-3) e] by (simp add: mp_ops_def getBufferSize_def)
next
  case (7 s \<sigma> n)
  then show ?case using mp_hasCapacity_facts [of s \<sigma> n]
    by (auto simp: mp_ops_def getBufferSize_def)
next
  case (8 s q \<sigma> \<sigma>' s')
  then show ?case by (auto simp: mp_ops_def mp_publish_def getBufferSize_def)
next
  case (9 s lo hi \<sigma> \<sigma>' s')
  then show ?case
    by (auto simp: mp_ops_def mp_publish_range_def getBufferSize_def setAvailable_range_available)
next
  case (10 s lo av \<sigma>)
  then show ?case using mp_scan_spec [of lo av s]
    by (auto simp: mp_ops_def mp_getHighestPublishedSequence_def)
qed

interpretation mp_seq: sequencer mp_ops mp_wf mp_cache_ok "\<lambda>\<sigma> s. \<sigma> (cursor s)" gates
  by (rule mp_sequencer_contract)

section \<open>Gating sequences\<close>

text \<open>
  What adding and removing gating sequences promises when nothing interferes: the consumers
  grow and shrink by them, new ones start at the cursor, and the sequencer stays well-formed.
  \<open>owns\<close> are the sequences inside the sequencer, which cannot gate it.
\<close>

locale gated_sequencer = sequencer ops wf safe claimed consumers
  for ops :: "'s seq_ops" and wf :: "'s \<Rightarrow> bool" and safe :: "store \<Rightarrow> 's \<Rightarrow> bool"
    and claimed :: "store \<Rightarrow> 's \<Rightarrow> int" and consumers :: "'s \<Rightarrow> sid set" +
  fixes owns :: "'s \<Rightarrow> sid set"
    and unchanged :: "'s \<Rightarrow> 'k"
  assumes cursor_owned: "op_cursor ops s \<in> owns s"
    and addGating: "wf s \<Longrightarrow> ptrs new \<inter> owns s = {} \<Longrightarrow>
      \<exists>s'. op_addGating ops [] new (\<sigma>, s) = Some (set_all new (\<sigma> (op_cursor ops s)) \<sigma>, s') \<and> wf s' \<and>
        consumers s' = consumers s \<union> ptrs new \<and> owns s' = owns s \<and>
        op_cursor ops s' = op_cursor ops s \<and> op_bufferSize ops s' = op_bufferSize ops s \<and>
        unchanged s' = unchanged s"
    and removeGating: "wf s \<Longrightarrow>
      \<exists>s'. op_removeGating ops [] sq (\<sigma>, s) = Some (sq \<in> consumers s, \<sigma>, s') \<and> wf s' \<and>
        consumers s' = consumers s - {sq} \<and> owns s' = owns s \<and>
        op_cursor ops s' = op_cursor ops s \<and> op_bufferSize ops s' = op_bufferSize ops s \<and>
        unchanged s' = unchanged s"

lemma as_addGating_parts:
  assumes "gating_ok (gatingSequences s)"
  obtains g' where
    "as_addGatingSequences [] new (\<sigma>, s) = Some (set_all new (\<sigma> (cursor s)) \<sigma>, s\<lparr>gatingSequences := g'\<rparr>)"
    and "gating_ok g'" and "ptrs (group_seqs g') = gates s \<union> ptrs new"
proof (rule as_addGatingSequences_alone [OF assms, of new \<sigma>])
  fix g'
  assume g: "as_addGatingSequences [] new (\<sigma>, s) =
      Some (set_all new (\<sigma> (cursor s)) \<sigma>, s\<lparr>gatingSequences := g'\<rparr>)" "gating_ok g'"
    "group_seqs g' = group_seqs (gatingSequences s) @ new"
  show thesis by (rule that [OF g(1,2)]) (simp add: g(3) gates_def)
qed

lemma as_removeGating_parts:
  assumes "gating_ok (gatingSequences s)"
  obtains g' where
    "as_removeGatingSequence [] sq s = Some (sq \<in> gates s, s\<lparr>gatingSequences := g'\<rparr>)"
    and "gating_ok g'" and "ptrs (group_seqs g') = gates s - {sq}"
proof (rule as_removeGatingSequence_alone [OF assms, of sq])
  fix g'
  assume g: "as_removeGatingSequence [] sq s = Some (sq \<in> gates s, s\<lparr>gatingSequences := g'\<rparr>)"
    "gating_ok g'" "group_seqs g' = filter (\<lambda>p. p \<noteq> Some sq) (group_seqs (gatingSequences s))"
  show thesis by (rule that [OF g(1,2)]) (auto simp: g(3) gates_def ptrs_def)
qed

interpretation sp_gated: gated_sequencer "sp_ops ndebug tid" "sp_ready ndebug tid" sp_no_lap
    "\<lambda>\<sigma>. nextValue" gates "\<lambda>s. {cursor s}" nextValue for ndebug tid
proof (unfold_locales, goal_cases)
  case (1 s)
  then show ?case by (simp add: sp_ops_def cursorSequence_def)
next
  case (2 s new \<sigma>)
  then have "gating_ok (gatingSequences s)" by (simp add: sp_ready_def sp_wf_def)
  then obtain g' where g: "as_addGatingSequences [] new (\<sigma>, s) =
        Some (set_all new (\<sigma> (cursor s)) \<sigma>, s\<lparr>gatingSequences := g'\<rparr>)"
      "gating_ok g'" "ptrs (group_seqs g') = gates s \<union> ptrs new"
    using as_addGating_parts by metis
  then show ?case using 2(1)
    by (simp add: sp_ops_def sp_addGatingSequences_def cursorSequence_def getBufferSize_def
        sp_ready_def sp_wf_def gates_def)
next
  case (3 s sq \<sigma>)
  then have "gating_ok (gatingSequences s)" by (simp add: sp_ready_def sp_wf_def)
  then obtain g' where g: "as_removeGatingSequence [] sq s = Some (sq \<in> gates s, s\<lparr>gatingSequences := g'\<rparr>)"
      "gating_ok g'" "ptrs (group_seqs g') = gates s - {sq}"
    using as_removeGating_parts by metis
  then show ?case using 3
    by (simp add: sp_ops_def sp_removeGatingSequence_def cursorSequence_def getBufferSize_def
        sp_ready_def sp_wf_def gates_def)
qed

interpretation mp_gated: gated_sequencer mp_ops mp_wf mp_cache_ok "\<lambda>\<sigma> s. \<sigma> (cursor s)" gates
    "\<lambda>s. {cursor s, gatingSequenceCache s}"
    "\<lambda>s. (cursor s, gatingSequenceCache s, bufferSize s, availableBuffer s)"
proof (unfold_locales, goal_cases)
  case (1 s)
  then show ?case by (simp add: mp_ops_def cursorSequence_def)
next
  case (2 s new \<sigma>)
  then have "gating_ok (gatingSequences s)" by (simp add: mp_wf_def)
  then obtain g' where g: "as_addGatingSequences [] new (\<sigma>, s) =
        Some (set_all new (\<sigma> (cursor s)) \<sigma>, s\<lparr>gatingSequences := g'\<rparr>)"
      "gating_ok g'" "ptrs (group_seqs g') = gates s \<union> ptrs new"
    using as_addGating_parts by metis
  then show ?case using 2
    by (auto simp: mp_ops_def mp_addGatingSequences_def cursorSequence_def getBufferSize_def
        mp_wf_def gates_def)
next
  case (3 s sq \<sigma>)
  then have "gating_ok (gatingSequences s)" by (simp add: mp_wf_def)
  then obtain g' where g: "as_removeGatingSequence [] sq s = Some (sq \<in> gates s, s\<lparr>gatingSequences := g'\<rparr>)"
      "gating_ok g'" "ptrs (group_seqs g') = gates s - {sq}"
    using as_removeGating_parts by metis
  then show ?case using 3
    by (simp add: mp_ops_def mp_removeGatingSequence_def cursorSequence_def getBufferSize_def
        mp_wf_def gates_def)
qed

text \<open>Two small sequencers with one consumer each, for the witnesses.\<close>

definition demo_sequencer :: mp_sequencer where
  "demo_sequencer = \<lparr>bufferSize = 1, cursor = 0,
     gatingSequences = \<lparr>holder = Some 0, vecs = [0 \<mapsto> [Some 2]], nextVec = 1\<rparr>,
     kIsBlockingStrategy = False, signals = 0, gatingSequenceCache = 1, availableBuffer = [- 1],
     indexMask = 0, indexShift = 0, mp_gatingCache = None\<rparr>"

lemma demo_sequencer_simps [simp]:
  "bufferSize demo_sequencer = 1" "cursor demo_sequencer = 0" "gatingSequenceCache demo_sequencer = 1"
  "indexMask demo_sequencer = 0" "indexShift demo_sequencer = 0" "availableBuffer demo_sequencer = [- 1]"
  "gates demo_sequencer = {2}" "gates (demo_sequencer\<lparr>availableBuffer := fs\<rparr>) = gates demo_sequencer"
  by (simp_all add: demo_sequencer_def gates_def group_seqs_def vec_at_def)

lemma demo_sequencer_wf: "mp_wf (demo_sequencer\<lparr>availableBuffer := [- 1]\<rparr>)"
  unfolding mp_wf_def by (simp add: demo_sequencer_def gating_ok_def is_pow2_def gates_def group_seqs_def vec_at_def)

lemma demo_sequencer_ok: "mp_wf demo_sequencer" "mp_cache_ok (\<lambda>_. - 1) demo_sequencer"
proof -
  have "demo_sequencer\<lparr>availableBuffer := [- 1]\<rparr> = demo_sequencer" by (simp add: demo_sequencer_def)
  then show "mp_wf demo_sequencer" using demo_sequencer_wf by metis
  show "mp_cache_ok (\<lambda>_. - 1) demo_sequencer" by (simp add: mp_cache_ok_def)
qed

definition demo_sp :: sp_sequencer where
  "demo_sp = \<lparr>bufferSize = 2, cursor = 0,
     gatingSequences = \<lparr>holder = Some 0, vecs = [0 \<mapsto> [Some 2]], nextVec = 1\<rparr>,
     kIsBlockingStrategy = False, signals = 0, nextValue = - 1, cachedValue = - 1,
     sp_gatingCache = None, producerThread = None, wrapWaitEntries = 0, wrapWaitLoops = 0\<rparr>"

lemma demo_sp_simps [simp]:
  "bufferSize demo_sp = 2" "cursor demo_sp = 0" "nextValue demo_sp = - 1" "gates demo_sp = {2}"
  by (simp_all add: demo_sp_def gates_def group_seqs_def vec_at_def)

lemma demo_sp_ok: "sp_ready True 0 demo_sp" "sp_no_lap (\<lambda>_. - 1) demo_sp"
proof -
  have "is_pow2 2" using pow2_is_pow2[of 1] by simp
  then show "sp_ready True 0 demo_sp"
    by (simp add: sp_ready_def sp_wf_def demo_sp_def gating_ok_def)
  show "sp_no_lap (\<lambda>_. - 1) demo_sp" unfolding sp_no_lap_def by (simp add: demo_sp_def)
qed

section \<open>Properties\<close>

text \<open>C12: \<open>SingleProducerSequencer.next\<close> hands out the next \<open>n\<close> sequences, and when it
  returns every gating consumer is at most one buffer behind the last of them, so no event is
  overwritten before it is consumed; the next call starts from the same invariant. This holds
  for any progress of the consumers while the call waits.\<close>

theorem sp_next_safe:
  assumes "sp_ready ndebug tid s" and "sp_no_lap \<sigma> s"
    and "sp_next_n ndebug tid script n (\<sigma>, s) = Some (Inr q, \<sigma>', s')"
  shows "q = nextValue s + n \<and> 1 \<le> n \<and> n \<le> bufferSize s \<and> nextValue s' = q \<and>
    (\<forall>c\<in>gates s. q - bufferSize s \<le> \<sigma>' c) \<and> sp_ready ndebug tid s' \<and> sp_no_lap \<sigma>' s' \<and> gates s' = gates s"
proof -
  obtain s1 where eq: "sp_next_n ndebug tid script n (\<sigma>, s) = sp_next_body script n (\<sigma>, s1)"
    and s1: "sp_wf s1" "s1 = s \<or> \<not> ndebug \<and> s1 = s\<lparr>producerThread := Some tid\<rparr>" "sp_ready ndebug tid s1"
    using sp_next_n_ready[OF assms(1)] by metis
  have body: "sp_next_body script n (\<sigma>, s1) = Some (Inr q, \<sigma>', s')" using assms(3) eq by simp
  have same: "nextValue s1 = nextValue s" "bufferSize s1 = bufferSize s" "gates s1 = gates s"
    and "sp_no_lap \<sigma> s1"
    using s1(2) assms(2) by (auto simp: sp_no_lap_def)
  note V = sp_next_body_value(1-7)[OF s1(1) body]
  have lap: "sp_no_lap \<sigma>' s'" by (rule sp_next_body_no_lap[OF s1(1) \<open>sp_no_lap \<sigma> s1\<close> body])
  moreover have "sp_ready ndebug tid s'"
    using s1(3) V(5) sp_next_body_producerThread[OF s1(1) body] by (simp add: sp_ready_def)
  ultimately show ?thesis using V same by (auto simp: sp_no_lap_def)
qed

lemma sp_next_safe_witness:
  "\<exists>\<sigma>' s'. sp_next_n True 0 [] 2 (\<lambda>_. - 1, demo_sp) = Some (Inr 1, \<sigma>', s') \<and> - 1 \<le> \<sigma>' 2 \<and> sp_no_lap \<sigma>' s'"
proof -
  obtain \<sigma>' s' where r: "sp_next_n True 0 [] 2 (\<lambda>_. - 1, demo_sp) = Some (Inr 1, \<sigma>', s')"
    using sp_next_total[OF demo_sp_ok(1), of 2 "\<lambda>_. - 1" "[]"] by auto
  show ?thesis using sp_next_safe[OF demo_sp_ok r] r by auto
qed





text \<open>C19: After a range has been published, the scan for the highest published sequence from its
  first element reaches its last one, every sequence of the range is available, and one published
  earlier stays available as long as its slot was not published again.\<close>

theorem mp_publish_visible:
  assumes "mp_wf s" and "lo \<le> hi" and "hi - lo < bufferSize s"
  shows "mp_getHighestPublishedSequence lo hi (mp_publish_range lo hi (\<sigma>, s)) = hi \<and>
    (\<forall>l. lo \<le> l \<and> l \<le> hi \<longrightarrow> mp_isAvailable l (snd (mp_publish_range lo hi (\<sigma>, s)))) \<and>
    (\<forall>r. r < lo \<and> hi - r < bufferSize s \<and> mp_isAvailable r s \<longrightarrow>
       mp_isAvailable r (snd (mp_publish_range lo hi (\<sigma>, s))))"
proof -
  let ?s = "setAvailable_range lo hi s"
  have all: "mp_isAvailable l (signalAll ?s)" if "lo \<le> l" "l \<le> hi" for l
    using setAvailable_range_available[OF assms(1,3) that] by simp
  have "mp_scan (signalAll ?s) lo hi = hi"
    using mp_scan_spec[of lo hi "signalAll ?s"] assms(2) all by force
  then show ?thesis
    using all setAvailable_range_keeps[OF assms(1), of _ lo hi]
    by (auto simp: mp_publish_range_def mp_getHighestPublishedSequence_def)
qed

lemma mp_publish_visible_witness:
  "mp_getHighestPublishedSequence 5 5 (mp_publish_range 5 5 (\<lambda>_. 5, demo_sequencer)) = 5"
  using mp_publish_visible[OF demo_sequencer_ok(1), of 5 5 "\<lambda>_. 5"] by simp

text \<open>Both sequencers refuse a claim of fewer than one sequence or of more than a buffer, with
  the code's message and without claiming anything, and \<open>next\<close> fails in no other way.\<close>

lemma next_rejects:
  assumes "sp_ready ndebug tid s" and "in_int64 (nextValue s + n)" and "mp_wf m" and "in_int64 (\<sigma> (cursor m) + n)"
  shows "((\<exists>e w. sp_next_n ndebug tid script n (\<sigma>, s) = Some (Inl e, w)) \<longleftrightarrow> n < 1 \<or> bufferSize s < n) \<and>
    ((\<exists>e w. mp_next_n script n (\<sigma>, m) = Some (Inl e, w)) \<longleftrightarrow> n < 1 \<or> bufferSize m < n) \<and>
    (n < 1 \<longrightarrow> mp_next_n script n (\<sigma>, m) =
       Some (Inl (InvalidArgument ''n must be > 0 and < bufferSize''), \<sigma>, m) \<and>
       (\<exists>s'. sp_next_n ndebug tid script n (\<sigma>, s) =
          Some (Inl (InvalidArgument ''n must be > 0 and < bufferSize''), \<sigma>, s') \<and> nextValue s' = nextValue s))"
proof -
  have sp_size: "op_bufferSize (sp_ops ndebug tid) t = bufferSize t" and mp_size: "op_bufferSize mp_ops u = bufferSize u"
    for t u by (simp_all add: sp_ops_def mp_ops_def getBufferSize_def)
  have sp_op: "op_next (sp_ops ndebug tid) = sp_next_n ndebug tid" and mp_op: "op_next mp_ops = mp_next_n"
    by (simp_all add: sp_ops_def mp_ops_def)
  note sp = sp_seq.next_error[where \<sigma> = \<sigma> and script = script, OF assms(1), unfolded sp_size sp_op] 
    sp_seq.next_Inl[where \<sigma> = \<sigma> and script = script, OF assms(1,2), unfolded sp_size sp_op]
  note mp = mp_next_n_error[of n m script \<sigma>] mp_next_n_Inl[where \<sigma> = \<sigma> and n = n and s = m and script = script, OF assms(3,4)]
  show ?thesis using sp mp by blast
qed

text \<open>C20: \<open>next\<close> returns: as soon as the consumers have moved far enough, the waiting call of
  either sequencer hands out its sequences.\<close>

theorem next_returns:
  assumes "mp_wf m" and "in_int64 (\<sigma> (cursor m) + n)" and "1 \<le> n" and "n \<le> bufferSize m" and "n \<le> bufferSize s"
    and "\<forall>c\<in>gates m. \<sigma> (cursor m) + n - bufferSize m \<le>
      run_env pre (\<sigma>(cursor m := \<sigma> (cursor m) + n)) c"
    and "sp_ready ndebug tid s"
    and "\<forall>c\<in>gates s. nextValue s + n - bufferSize s \<le>
      run_env pre' (seq_setVolatile (cursor s) (nextValue s) \<sigma>) c"
  shows "(\<exists>w. mp_next_n (pre @ post) n (\<sigma>, m) = Some (Inr (\<sigma> (cursor m) + n), w)) \<and>
    (\<exists>w. sp_next_n ndebug tid (pre' @ post) n (\<sigma>, s) = Some (Inr (nextValue s + n), w))"
proof
  show "\<exists>w. mp_next_n (pre @ post) n (\<sigma>, m) = Some (Inr (\<sigma> (cursor m) + n), w)"
    by (rule mp_next_n_progress[where \<sigma> = \<sigma> and n = n and s = m, OF assms(1,3,4,2)]) (use assms(4,6) in \<open>simp add: gate_min_ge_iff\<close>)
  obtain s1 where eq: "sp_next_n ndebug tid (pre' @ post) n (\<sigma>, s) = sp_next_body (pre' @ post) n (\<sigma>, s1)"
    and s1: "sp_wf s1" "s1 = s \<or> \<not> ndebug \<and> s1 = s\<lparr>producerThread := Some tid\<rparr>"
    using sp_next_n_ready[OF assms(7)] by metis
  have same: "nextValue s1 = nextValue s" "bufferSize s1 = bufferSize s" "gates s1 = gates s" "cursor s1 = cursor s"
    using s1(2) by auto
  have "\<exists>w. sp_next_body (pre' @ post) n (\<sigma>, s1) = Some (Inr (nextValue s1 + n), w)"
    by (rule sp_next_body_progress[where n = n, OF s1(1) assms(3)]) (use assms(5,8) same in \<open>simp_all add: gate_min_ge_iff\<close>)
  then show "\<exists>w. sp_next_n ndebug tid (pre' @ post) n (\<sigma>, s) = Some (Inr (nextValue s + n), w)"
    using eq same by simp
qed

lemma next_returns_witness:
  "\<exists>w. mp_next_n [\<lambda>\<sigma>. \<sigma>(2 := 3), \<lambda>\<sigma>. \<sigma>(2 := 4)] 1 ((\<lambda>_. - 1)(0 := 4), demo_sequencer) = Some (Inr 5, w)"
  using next_returns[of demo_sequencer "(\<lambda>_. - 1)(0 := 4)" 1 demo_sp "[\<lambda>\<sigma>. \<sigma>(2 := 3), \<lambda>\<sigma>. \<sigma>(2 := 4)]" True 0 "[]" "[]"]
    demo_sequencer_ok(1) demo_sp_ok(1)
  by (simp add: in_int64_def int64_min_def int64_max_def)

text \<open>C21: On both sequencers \<open>hasAvailableCapacity\<close>, which may answer from its cache, agrees
  with \<open>remainingCapacity\<close>, which always looks at the consumers: it holds exactly when no
  more is asked for than remains.\<close>

theorem hasAvailableCapacity_exact:
  assumes "mp_wf m" and "mp_cache_ok \<sigma> m" and "sp_ready ndebug tid s" and "sp_no_lap \<sigma> s"
  shows "(\<exists>r. fst (mp_remainingCapacity (\<sigma>, m)) = Inr r \<and> (fst (mp_hasCapacity n (\<sigma>, m)) \<longleftrightarrow> n \<le> r)) \<and>
    (\<exists>r. fst (sp_remainingCapacity (\<sigma>, s)) = Inr r \<and> fst (sp_hasCapacity n (\<sigma>, s)) = Inr (n \<le> r))"
proof
  have "fst (mp_hasCapacity n (\<sigma>, m)) \<longleftrightarrow>
      \<sigma> (cursor m) + n - bufferSize m \<le> gate_min (\<sigma> (cursor m)) \<sigma> m"
    by (rule mp_hasAvailableCapacity_eq[OF assms(1,2), of n "\<sigma> (cursor m)"])
      (simp add: mp_hasCapacity_def seq_get_def)
  then show "\<exists>r. fst (mp_remainingCapacity (\<sigma>, m)) = Inr r \<and> (fst (mp_hasCapacity n (\<sigma>, m)) \<longleftrightarrow> n \<le> r)"
    using mp_remainingCapacity_eq[OF assms(1)] by auto
  have wf: "sp_wf s" using assms(3) by (simp add: sp_ready_def)
  obtain r \<sigma>' s' where run: "sp_hasAvailableCapacity n False (\<sigma>, s) = (r, \<sigma>', s')" by (metis prod_cases3)
  then have "r = Inr (nextValue s + n - bufferSize s \<le> gate_min (nextValue s) \<sigma>' s)" "\<sigma>' = \<sigma>"
    using sp_hasAvailableCapacity_eq(1,8)[OF wf assms(4) run] by auto
  then show "\<exists>r. fst (sp_remainingCapacity (\<sigma>, s)) = Inr r \<and> fst (sp_hasCapacity n (\<sigma>, s)) = Inr (n \<le> r)"
    using run sp_remainingCapacity_bounds[OF wf assms(4)] by (auto simp: sp_hasCapacity_def)
qed

lemma hasAvailableCapacity_exact_witness:
  "\<exists>r. fst (sp_remainingCapacity (\<lambda>_. - 1, demo_sp)) = Inr r \<and> fst (sp_hasCapacity 3 (\<lambda>_. - 1, demo_sp)) = Inr (3 \<le> r)"
  using hasAvailableCapacity_exact[OF demo_sequencer_ok demo_sp_ok, of 3] by blast

end
