(* ===== verification/Ring_Buffer.thy ===== *)
theory Ring_Buffer
  imports Sequencer_Interface
begin

text \<open>
  \<open>RingBuffer\<close> (\<open>include/disruptor/RingBuffer.h\<close>): the entries, padded by 32 unused elements
  on either side, and the operations, which forward to the sequencer.  A translator is user
  code: given the old content of an entry and the sequence it returns the new content and
  possibly an exception, thrown after the entry was changed that far.
\<close>

section \<open>State and construction\<close>

record ('e, 's) ring_buffer =
  rb_indexMask :: int
  rb_entries :: "'e list"
  rb_bufferSize :: int
  rb_sequencer :: 's

definition BUFFER_PAD :: int where
  "BUFFER_PAD = 32"

text \<open>\<open>fill\<close>: the factory is user code with a state of its own, and may throw.\<close>

function rb_fill ::
  "('f \<Rightarrow> (exn + 'e) \<times> 'f) \<Rightarrow> int \<Rightarrow> int \<Rightarrow> 'f \<Rightarrow> 'e list \<Rightarrow> (exn + 'e list) \<times> 'f" where
  "rb_fill newInstance n i f entries =
     (if i < n
      then case newInstance f of
             (Inl e, f') \<Rightarrow> (Inl e, f')
           | (Inr ev, f') \<Rightarrow> rb_fill newInstance n (i + 1) f' (entries[nat (BUFFER_PAD + i) := ev])
      else (Inr entries, f))"
  by pat_completeness auto
termination
  by (relation "measure (\<lambda>(g, n, i, f, es). nat (n - i))") auto

declare rb_fill.simps [simp del]

text \<open>
  The constructor, for a sequencer that exists already (owned, or built in place from its
  arguments).  The vector is allocated before the arguments are checked; a size that is
  negative as an \<open>int\<close> is a huge \<open>size_t\<close>, which the vector refuses.
\<close>

definition rb_new ::
  "'s seq_ops \<Rightarrow> 'e \<Rightarrow> ('f \<Rightarrow> (exn + 'e) \<times> 'f) option \<Rightarrow> 'f \<Rightarrow> 's \<Rightarrow> (exn + ('e, 's) ring_buffer) \<times> 'f" where
  "rb_new ops dflt eventFactory f s =
     (let n = op_bufferSize ops s in
      if n + 2 * BUFFER_PAD < 0 then (Inl (StdExn ''length_error''), f)
      else let entries = replicate (nat (n + 2 * BUFFER_PAD)) dflt in
      case eventFactory of
        None \<Rightarrow> (Inl (InvalidArgument ''eventFactory must not be null''), f)
      | Some newInstance \<Rightarrow>
          if n < 1 then (Inl (InvalidArgument ''bufferSize must not be less than 1''), f)
          else if n AND (n - 1) \<noteq> 0 then (Inl (InvalidArgument ''bufferSize must be a power of 2''), f)
          else case rb_fill newInstance n 0 f entries of
                 (Inl e, f') \<Rightarrow> (Inl e, f')
               | (Inr es, f') \<Rightarrow>
                   (Inr \<lparr>rb_indexMask = n - 1, rb_entries = es, rb_bufferSize = n, rb_sequencer = s\<rparr>, f'))"

definition createSingleProducer ::
  "bool \<Rightarrow> nat \<Rightarrow> 'e \<Rightarrow> ('f \<Rightarrow> (exn + 'e) \<times> 'f) option \<Rightarrow> 'f \<Rightarrow> sid \<Rightarrow> bool \<Rightarrow> nat option \<Rightarrow> int \<Rightarrow> store
     \<Rightarrow> exn + store \<times> ('e, sp_sequencer) ring_buffer" where
  "createSingleProducer ndebug tid dflt factory f cursorId blocking stale n \<sigma> =
     (case new_sp cursorId blocking stale n \<sigma> of
        Inl e \<Rightarrow> Inl e
      | Inr (\<sigma>', s) \<Rightarrow>
          (case fst (rb_new (sp_ops ndebug tid) dflt factory f s) of
             Inl e \<Rightarrow> Inl e | Inr rb \<Rightarrow> Inr (\<sigma>', rb)))"

definition createMultiProducer ::
  "'e \<Rightarrow> ('f \<Rightarrow> (exn + 'e) \<times> 'f) option \<Rightarrow> 'f \<Rightarrow> sid \<Rightarrow> sid \<Rightarrow> bool \<Rightarrow> int \<Rightarrow> store
     \<Rightarrow> exn + store \<times> ('e, mp_sequencer) ring_buffer" where
  "createMultiProducer dflt factory f cursorId cacheId blocking n \<sigma> =
     (case new_mp cursorId cacheId blocking n \<sigma> of
        Inl e \<Rightarrow> Inl e
      | Inr (\<sigma>', s) \<Rightarrow>
          (case fst (rb_new mp_ops dflt factory f s) of
             Inl e \<Rightarrow> Inl e | Inr rb \<Rightarrow> Inr (\<sigma>', rb)))"

section \<open>Entries\<close>

definition rb_slot :: "('e, 's) ring_buffer \<Rightarrow> int \<Rightarrow> nat" where
  "rb_slot rb sequence = nat (BUFFER_PAD + (wrap32 sequence AND wrap32 (rb_indexMask rb)))"

definition elementAt :: "('e, 's) ring_buffer \<Rightarrow> int \<Rightarrow> 'e" where
  "elementAt rb sequence = rb_entries rb ! rb_slot rb sequence"

definition rb_get :: "('e, 's) ring_buffer \<Rightarrow> int \<Rightarrow> 'e" where
  "rb_get rb sequence = elementAt rb sequence"

text \<open>What a caller does through the reference \<open>get\<close> returned.\<close>

definition rb_put :: "int \<Rightarrow> 'e \<Rightarrow> ('e, 's) ring_buffer \<Rightarrow> ('e, 's) ring_buffer" where
  "rb_put sequence ev rb = rb\<lparr>rb_entries := (rb_entries rb)[rb_slot rb sequence := ev]\<rparr>"

section \<open>Operations of the sequencer\<close>

definition on_sequencer ::
  "(store \<times> 's \<Rightarrow> 'r \<times> store \<times> 's) \<Rightarrow> store \<times> ('e, 's) ring_buffer \<Rightarrow> 'r \<times> store \<times> ('e, 's) ring_buffer" where
  "on_sequencer f w =
     (let (\<sigma>, rb) = w; (r, \<sigma>', s') = f (\<sigma>, rb_sequencer rb) in (r, \<sigma>', rb\<lparr>rb_sequencer := s'\<rparr>))"

definition rb_next_n ::
  "'s seq_ops \<Rightarrow> (store \<Rightarrow> store) list \<Rightarrow> int \<Rightarrow> store \<times> ('e, 's) ring_buffer
     \<Rightarrow> ((exn + int) \<times> store \<times> ('e, 's) ring_buffer) option" where
  "rb_next_n ops script n w =
     (let (\<sigma>, rb) = w in
      map_option (\<lambda>(r, \<sigma>', s'). (r, \<sigma>', rb\<lparr>rb_sequencer := s'\<rparr>)) (op_next ops script n (\<sigma>, rb_sequencer rb)))"

definition rb_next where
  "rb_next ops script w = rb_next_n ops script 1 w"

definition rb_tryNext_n ::
  "'s seq_ops \<Rightarrow> ((store \<Rightarrow> store) \<times> bool) list \<Rightarrow> int \<Rightarrow> store \<times> ('e, 's) ring_buffer
     \<Rightarrow> (exn + (error + int)) \<times> store \<times> ('e, 's) ring_buffer" where
  "rb_tryNext_n ops script n w = on_sequencer (op_tryNext ops script n) w"

definition rb_hasAvailableCapacity ::
  "'s seq_ops \<Rightarrow> int \<Rightarrow> store \<times> ('e, 's) ring_buffer \<Rightarrow> (exn + bool) \<times> store \<times> ('e, 's) ring_buffer" where
  "rb_hasAvailableCapacity ops n w = on_sequencer (op_hasCapacity ops n) w"

definition rb_remainingCapacity ::
  "'s seq_ops \<Rightarrow> store \<times> ('e, 's) ring_buffer \<Rightarrow> (exn + int) \<times> store \<times> ('e, 's) ring_buffer" where
  "rb_remainingCapacity ops w = on_sequencer (op_remainingCapacity ops) w"

definition rb_publish ::
  "'s seq_ops \<Rightarrow> int \<Rightarrow> store \<times> ('e, 's) ring_buffer \<Rightarrow> store \<times> ('e, 's) ring_buffer" where
  "rb_publish ops sequence w = snd (on_sequencer (\<lambda>v. ((), op_publish ops sequence v)) w)"

definition rb_publish_range ::
  "'s seq_ops \<Rightarrow> int \<Rightarrow> int \<Rightarrow> store \<times> ('e, 's) ring_buffer \<Rightarrow> store \<times> ('e, 's) ring_buffer" where
  "rb_publish_range ops lo hi w = snd (on_sequencer (\<lambda>v. ((), op_publish_range ops lo hi v)) w)"

definition rb_getCursor :: "'s seq_ops \<Rightarrow> store \<Rightarrow> ('e, 's) ring_buffer \<Rightarrow> int" where
  "rb_getCursor ops \<sigma> rb = seq_get \<sigma> (op_cursor ops (rb_sequencer rb))"

definition rb_getMinimumGatingSequence :: "'s seq_ops \<Rightarrow> store \<Rightarrow> ('e, 's) ring_buffer \<Rightarrow> int" where
  "rb_getMinimumGatingSequence ops \<sigma> rb = op_getMinimum ops \<sigma> (rb_sequencer rb)"

definition rb_addGatingSequences ::
  "'s seq_ops \<Rightarrow> (store \<times> gating \<Rightarrow> store \<times> gating) list \<Rightarrow> seqs \<Rightarrow> store \<times> ('e, 's) ring_buffer
     \<Rightarrow> (store \<times> ('e, 's) ring_buffer) option" where
  "rb_addGatingSequences ops script new w =
     (let (\<sigma>, rb) = w in
      map_option (\<lambda>(\<sigma>', s'). (\<sigma>', rb\<lparr>rb_sequencer := s'\<rparr>)) (op_addGating ops script new (\<sigma>, rb_sequencer rb)))"

definition rb_addGatingSequence where
  "rb_addGatingSequence ops script sq w = rb_addGatingSequences ops script [Some sq] w"

definition rb_removeGatingSequence ::
  "'s seq_ops \<Rightarrow> (gating \<Rightarrow> gating) list \<Rightarrow> sid \<Rightarrow> store \<times> ('e, 's) ring_buffer
     \<Rightarrow> (bool \<times> store \<times> ('e, 's) ring_buffer) option" where
  "rb_removeGatingSequence ops script sq w =
     (let (\<sigma>, rb) = w in
      map_option (\<lambda>(r, \<sigma>', s'). (r, \<sigma>', rb\<lparr>rb_sequencer := s'\<rparr>)) (op_removeGating ops script sq (\<sigma>, rb_sequencer rb)))"

section \<open>Publishing one event\<close>

type_synonym 'e translator = "'e \<Rightarrow> int \<Rightarrow> 'e \<times> exn option"

text \<open>The three statements every \<open>publishEvent\<close> consists of; nothing catches an exception.\<close>

definition rb_translate_one ::
  "'e translator \<Rightarrow> int \<Rightarrow> ('e, 's) ring_buffer \<Rightarrow> exn option \<times> ('e, 's) ring_buffer" where
  "rb_translate_one translateTo sequence rb =
     (let (ev, thrown) = translateTo (rb_get rb sequence) sequence in (thrown, rb_put sequence ev rb))"

definition publish_one ::
  "'s seq_ops \<Rightarrow> (store \<Rightarrow> store) list \<Rightarrow> 'e translator \<Rightarrow> store \<times> ('e, 's) ring_buffer
     \<Rightarrow> ((exn + unit) \<times> store \<times> ('e, 's) ring_buffer) option" where
  "publish_one ops script translateTo w =
     (case rb_next ops script w of
        None \<Rightarrow> None
      | Some (Inl e, w1) \<Rightarrow> Some (Inl e, w1)
      | Some (Inr sequence, \<sigma>1, rb1) \<Rightarrow>
          (case rb_translate_one translateTo sequence rb1 of
             (Some e, rb2) \<Rightarrow> Some (Inl e, \<sigma>1, rb2)
           | (None, rb2) \<Rightarrow> Some (Inr (), rb_publish ops sequence (\<sigma>1, rb2))))"

definition publishEvent where
  "publishEvent ops script translator w = publish_one ops script (\<lambda>ev q. translator ev q) w"

definition publishEvent_vararg where
  "publishEvent_vararg ops script translator args w =
     publish_one ops script (\<lambda>ev q. translator ev q args) w"

definition publishEvent_oneArg where
  "publishEvent_oneArg ops script translator arg0 w =
     publish_one ops script (\<lambda>ev q. translator ev q arg0) w"

definition publishEvent_twoArg where
  "publishEvent_twoArg ops script translator arg0 arg1 w =
     publish_one ops script (\<lambda>ev q. translator ev q arg0 arg1) w"

definition publishEvent_threeArg where
  "publishEvent_threeArg ops script translator arg0 arg1 arg2 w =
     publish_one ops script (\<lambda>ev q. translator ev q arg0 arg1 arg2) w"

text \<open>
  \<open>tryPublishEvent\<close> tests the capacity and then publishes; \<open>gap\<close> is what the other threads do
  in between.
\<close>

definition if_capacity ::
  "'s seq_ops \<Rightarrow> int \<Rightarrow> (store \<Rightarrow> store) \<Rightarrow>
     (store \<times> ('e, 's) ring_buffer \<Rightarrow> ((exn + unit) \<times> store \<times> ('e, 's) ring_buffer) option) \<Rightarrow>
     store \<times> ('e, 's) ring_buffer \<Rightarrow> ((exn + bool) \<times> store \<times> ('e, 's) ring_buffer) option" where
  "if_capacity ops n gap body w =
     (case rb_hasAvailableCapacity ops n w of
        (Inl e, w1) \<Rightarrow> Some (Inl e, w1)
      | (Inr False, w1) \<Rightarrow> Some (Inr False, w1)
      | (Inr True, \<sigma>1, rb1) \<Rightarrow>
          map_option (\<lambda>(r, w2). (map_sum id (\<lambda>_. True) r, w2)) (body (gap \<sigma>1, rb1)))"

definition tryPublishEvent where
  "tryPublishEvent ops gap script translator w =
     if_capacity ops 1 gap (publishEvent ops script translator) w"

definition tryPublishEvent_vararg where
  "tryPublishEvent_vararg ops gap script translator args w =
     if_capacity ops 1 gap (publishEvent_vararg ops script translator args) w"

definition tryPublishEvent_oneArg where
  "tryPublishEvent_oneArg ops gap script translator arg0 w =
     if_capacity ops 1 gap (publishEvent_oneArg ops script translator arg0) w"

definition tryPublishEvent_twoArg where
  "tryPublishEvent_twoArg ops gap script translator arg0 arg1 w =
     if_capacity ops 1 gap (publishEvent_twoArg ops script translator arg0 arg1) w"

definition tryPublishEvent_threeArg where
  "tryPublishEvent_threeArg ops gap script translator arg0 arg1 arg2 w =
     if_capacity ops 1 gap (publishEvent_threeArg ops script translator arg0 arg1 arg2) w"

section \<open>Publishing a batch\<close>

text \<open>The loop over the translators: null ones are skipped, an index outside is not defined.\<close>

function rb_translate ::
  "'e translator option list \<Rightarrow> int \<Rightarrow> int \<Rightarrow> int \<Rightarrow> int \<Rightarrow> ('e, 's) ring_buffer
     \<Rightarrow> exn option \<times> ('e, 's) ring_buffer" where
  "rb_translate translators batchStartsAt batchSize i initialSequence rb =
     (if i < batchSize
      then if batchStartsAt + i < 0 \<or> int (length translators) \<le> batchStartsAt + i
           then (Some OutOfBounds, rb)
           else case translators ! nat (batchStartsAt + i) of
                  None \<Rightarrow> rb_translate translators batchStartsAt batchSize (i + 1) initialSequence rb
                | Some tr \<Rightarrow>
                    (case rb_translate_one tr (initialSequence + i) rb of
                       (Some e, rb') \<Rightarrow> (Some e, rb')
                     | (None, rb') \<Rightarrow>
                         rb_translate translators batchStartsAt batchSize (i + 1) initialSequence rb')
      else (None, rb))"
  by pat_completeness auto
termination
  by (relation "measure (\<lambda>(ts, b, n, i, q, rb). nat (n - i))") auto

declare rb_translate.simps [simp del]

definition publishEvents_from ::
  "'s seq_ops \<Rightarrow> (store \<Rightarrow> store) list \<Rightarrow> 'e translator option list \<Rightarrow> int \<Rightarrow> int
     \<Rightarrow> store \<times> ('e, 's) ring_buffer \<Rightarrow> ((exn + unit) \<times> store \<times> ('e, 's) ring_buffer) option" where
  "publishEvents_from ops script translators batchStartsAt batchSize w =
     (if batchSize = 0 then Some (Inr (), w)
      else case rb_next_n ops script batchSize w of
             None \<Rightarrow> None
           | Some (Inl e, w1) \<Rightarrow> Some (Inl e, w1)
           | Some (Inr finalSequence, \<sigma>1, rb1) \<Rightarrow>
               (let initialSequence = finalSequence - (batchSize - 1) in
                case rb_translate translators batchStartsAt batchSize 0 initialSequence rb1 of
                  (None, rb2) \<Rightarrow>
                    Some (Inr (), rb_publish_range ops initialSequence finalSequence (\<sigma>1, rb2))
                | (Some e, rb2) \<Rightarrow>
                    if is_thrown e
                    then Some (Inl e, rb_publish_range ops initialSequence finalSequence (\<sigma>1, rb2))
                    else Some (Inl e, \<sigma>1, rb2)))"

definition publishEvents where
  "publishEvents ops script translators w =
     publishEvents_from ops script translators 0 (wrap32 (int (length translators))) w"

definition tryPublishEvents_from where
  "tryPublishEvents_from ops gap script translators batchStartsAt batchSize w =
     (if batchSize = 0 then Some (Inr True, w)
      else if_capacity ops batchSize gap
             (publishEvents_from ops script translators batchStartsAt batchSize) w)"

definition tryPublishEvents where
  "tryPublishEvents ops gap script translators w =
     tryPublishEvents_from ops gap script translators 0 (wrap32 (int (length translators))) w"

section \<open>Entries and slots\<close>

definition rb_ok :: "'s seq_ops \<Rightarrow> ('e, 's) ring_buffer \<Rightarrow> bool" where
  "rb_ok ops rb \<longleftrightarrow>
     rb_bufferSize rb = op_bufferSize ops (rb_sequencer rb) \<and>
     rb_indexMask rb = rb_bufferSize rb - 1 \<and>
     int (length (rb_entries rb)) = rb_bufferSize rb + 2 * BUFFER_PAD \<and>
     is_pow2 (rb_bufferSize rb) \<and> rb_bufferSize rb \<le> 2 ^ 30"

lemma rb_ok_pos: "rb_ok ops rb \<Longrightarrow> 0 < rb_bufferSize rb"
  by (auto simp: rb_ok_def dest: is_pow2_pos)

lemma rb_slot_eq:
  assumes "rb_ok ops rb"
  shows "rb_slot rb q = nat (BUFFER_PAD + q mod rb_bufferSize rb)"
proof -
  have p: "is_pow2 (rb_bufferSize rb)" "rb_bufferSize rb \<le> 2 ^ 30" "rb_indexMask rb = rb_bufferSize rb - 1"
    using assms unfolding rb_ok_def by blast+
  then have "wrap32 (rb_indexMask rb) = rb_bufferSize rb - 1"
    using is_pow2_pos [OF p(1)] by (simp add: wrap32_id)
  then show ?thesis
    using p(1,2) by (simp add: rb_slot_def is_pow2_mask wrap32_mod_pow2)
qed

text \<open>Every access falls between the two paddings.\<close>

lemma rb_slot_bounds:
  assumes "rb_ok ops rb"
  shows "BUFFER_PAD \<le> int (rb_slot rb q)" and "int (rb_slot rb q) < BUFFER_PAD + rb_bufferSize rb"
    and "rb_slot rb q < length (rb_entries rb)"
proof -
  have "0 \<le> q mod rb_bufferSize rb" "q mod rb_bufferSize rb < rb_bufferSize rb"
    using rb_ok_pos [OF assms] by simp_all
  then show "BUFFER_PAD \<le> int (rb_slot rb q)" and "int (rb_slot rb q) < BUFFER_PAD + rb_bufferSize rb"
    by (simp_all add: rb_slot_eq [OF assms] BUFFER_PAD_def)
  moreover have "int (length (rb_entries rb)) = rb_bufferSize rb + 2 * BUFFER_PAD"
    using assms by (simp add: rb_ok_def)
  ultimately show "rb_slot rb q < length (rb_entries rb)" by (simp add: BUFFER_PAD_def)
qed

text \<open>Two sequences share an entry exactly when they are a whole number of laps apart.\<close>

lemma rb_slot_eq_iff:
  assumes "rb_ok ops rb"
  shows "rb_slot rb q = rb_slot rb r \<longleftrightarrow> q mod rb_bufferSize rb = r mod rb_bufferSize rb"
proof -
  have "0 \<le> q mod rb_bufferSize rb" "0 \<le> r mod rb_bufferSize rb"
    using rb_ok_pos [OF assms] by simp_all
  then show ?thesis
    by (simp add: rb_slot_eq [OF assms] BUFFER_PAD_def nat_add_distrib eq_nat_nat_iff)
qed

lemma rb_slot_distinct:
  assumes "rb_ok ops rb" and "\<bar>q - r\<bar> < rb_bufferSize rb" and "rb_slot rb q = rb_slot rb r"
  shows "q = r"
  by (rule same_slot_eq [where n = "rb_bufferSize rb"])
    (use assms(2,3) in \<open>auto simp: rb_slot_eq_iff [OF assms(1)]\<close>)

lemma rb_get_put:
  assumes "rb_ok ops rb"
  shows "rb_get (rb_put q ev rb) r = (if rb_slot rb r = rb_slot rb q then ev else rb_get rb r)"
  using rb_slot_bounds(3) [OF assms, of q]
  by (simp add: rb_get_def elementAt_def rb_put_def rb_slot_def)

lemma rb_put_frame [simp]:
  "rb_bufferSize (rb_put q ev rb) = rb_bufferSize rb" "rb_sequencer (rb_put q ev rb) = rb_sequencer rb"
  "rb_slot (rb_put q ev rb) = rb_slot rb" "rb_ok ops (rb_put q ev rb) = rb_ok ops rb"
  by (auto simp: rb_put_def rb_ok_def rb_slot_def fun_eq_iff)

lemma rb_sequencer_update [simp]:
  "rb_get (rb\<lparr>rb_sequencer := s\<rparr>) = rb_get rb" "rb_slot (rb\<lparr>rb_sequencer := s\<rparr>) = rb_slot rb"
  by (auto simp: rb_get_def elementAt_def rb_slot_def fun_eq_iff)

lemma rb_ok_sequencer_update:
  "op_bufferSize ops s = op_bufferSize ops (rb_sequencer rb) \<Longrightarrow>
     rb_ok ops (rb\<lparr>rb_sequencer := s\<rparr>) = rb_ok ops rb"
  by (simp add: rb_ok_def)

section \<open>The batch loop\<close>

text \<open>What one translator, or none, makes of an entry.\<close>

definition translated :: "'e translator option \<Rightarrow> 'e \<Rightarrow> int \<Rightarrow> 'e" where
  "translated tr ev q = (case tr of None \<Rightarrow> ev | Some t \<Rightarrow> fst (t ev q))"

definition raises :: "'e translator option \<Rightarrow> 'e \<Rightarrow> int \<Rightarrow> exn option" where
  "raises tr ev q = (case tr of None \<Rightarrow> None | Some t \<Rightarrow> snd (t ev q))"

lemma rb_translate_step:
  fixes q0 :: int
  assumes "i < n" and "0 \<le> b + i" and "b + i < int (length trs)" and "rb_ok ops rb"
  defines "tr \<equiv> trs ! nat (b + i)" and "ev \<equiv> rb_get rb (q0 + i)"
  obtains rb1 where "rb_ok ops rb1" and "rb_sequencer rb1 = rb_sequencer rb"
    and "rb_slot rb1 = rb_slot rb" and "rb_bufferSize rb1 = rb_bufferSize rb"
    and "\<And>r. rb_get rb1 r = (if rb_slot rb r = rb_slot rb (q0 + i) then translated tr ev (q0 + i) else rb_get rb r)"
    and "rb_translate trs b n i q0 rb =
      (case raises tr ev (q0 + i) of Some e \<Rightarrow> (Some e, rb1) | None \<Rightarrow> rb_translate trs b n (i + 1) q0 rb1)"
proof (cases tr)
  case None
  have same: "rb_slot rb r = rb_slot rb (q0 + i) \<Longrightarrow> rb_get rb r = ev" for r
    by (simp add: ev_def rb_get_def elementAt_def)
  show thesis
    by (rule that [of rb]) (use None assms(1-4) same in
      \<open>simp_all add: tr_def raises_def translated_def rb_translate.simps [of trs b n i]\<close>)
next
  case (Some t)
  obtain v x where vx: "t ev (q0 + i) = (v, x)" by (cases "t ev (q0 + i)")
  show thesis
    using Some assms(1-4) vx
    by (intro that [of "rb_put (q0 + i) v rb"])
      (simp_all add: tr_def ev_def raises_def translated_def rb_translate.simps [of trs b n i]
        rb_translate_one_def rb_get_put split: option.splits)
qed

text \<open>
  A batch no longer than the buffer: the entries before the first translator that throws hold
  what their translators made of them, the throwing one its partial work, the rest and every
  other entry is unchanged.
\<close>

lemma rb_translate_spec:
  assumes "rb_ok ops rb" and "0 \<le> i" and "i \<le> n" and "n \<le> rb_bufferSize rb"
    and "0 \<le> b" and "b + n \<le> int (length trs)"
    and "rb_translate trs b n i q0 rb = (x, rb')"
  shows "rb_ok ops rb' \<and> rb_sequencer rb' = rb_sequencer rb \<and>
    (\<exists>k. i \<le> k \<and> k \<le> n \<and>
      (x = None \<longrightarrow> k = n) \<and>
      (x \<noteq> None \<longrightarrow> k < n \<and> raises (trs ! nat (b + k)) (rb_get rb (q0 + k)) (q0 + k) = x) \<and>
      (\<forall>j. i \<le> j \<and> j < k \<longrightarrow> raises (trs ! nat (b + j)) (rb_get rb (q0 + j)) (q0 + j) = None) \<and>
      (\<forall>j. i \<le> j \<and> j < n \<longrightarrow> rb_get rb' (q0 + j) =
         (if j \<le> k then translated (trs ! nat (b + j)) (rb_get rb (q0 + j)) (q0 + j)
          else rb_get rb (q0 + j)))) \<and>
    (\<forall>r. (\<forall>j. i \<le> j \<and> j < n \<longrightarrow> rb_slot rb r \<noteq> rb_slot rb (q0 + j)) \<longrightarrow> rb_get rb' r = rb_get rb r)"
  using assms
proof (induction "nat (n - i)" arbitrary: i rb)
  case 0
  then have i: "i = n" by simp
  with 0 have "x = None" "rb' = rb" by (simp_all add: rb_translate.simps [of trs b n n])
  with i 0 show ?case by (intro conjI exI [of _ n]) auto
next
  case (Suc m)
  then have i: "i < n" by simp
  let ?tr = "trs ! nat (b + i)" and ?ev = "rb_get rb (q0 + i)"
  obtain rb1 where rb1: "rb_ok ops rb1" "rb_sequencer rb1 = rb_sequencer rb"
      "rb_slot rb1 = rb_slot rb" "rb_bufferSize rb1 = rb_bufferSize rb"
    and get1: "\<And>r. rb_get rb1 r =
        (if rb_slot rb r = rb_slot rb (q0 + i) then translated ?tr ?ev (q0 + i) else rb_get rb r)"
    and step: "rb_translate trs b n i q0 rb =
      (case raises ?tr ?ev (q0 + i) of Some e \<Rightarrow> (Some e, rb1) | None \<Rightarrow> rb_translate trs b n (i + 1) q0 rb1)"
    using rb_translate_step [OF i _ _ Suc.prems(1), of b trs q0] Suc.prems(2,5,6) i by auto
  have other: "rb_slot rb (q0 + j) \<noteq> rb_slot rb (q0 + i)" if "i < j" "j < n" for j
    using rb_slot_distinct [OF Suc.prems(1), of "q0 + j" "q0 + i"] that Suc.prems(2,4) by auto
  show ?case
  proof (cases "raises ?tr ?ev (q0 + i)")
    case (Some e)
    with Suc.prems(7) step have x: "x = Some e" "rb' = rb1" by auto
    have "rb_get rb' (q0 + j) = (if j \<le> i then translated (trs ! nat (b + j)) (rb_get rb (q0 + j)) (q0 + j)
          else rb_get rb (q0 + j))" if "i \<le> j" "j < n" for j
      using that other [of j] by (cases "j = i") (auto simp: x get1)
    then show ?thesis
      using rb1 x Some i by (intro conjI exI [of _ i]) (auto simp: get1)
  next
    case None
    with Suc.prems(7) step have "rb_translate trs b n (i + 1) q0 rb1 = (x, rb')" by simp
    from Suc.hyps(1) [OF _ rb1(1) _ _ _ Suc.prems(5,6) this] Suc.hyps(2) Suc.prems(2,4) i rb1(4)
    have IH: "rb_ok ops rb' \<and> rb_sequencer rb' = rb_sequencer rb1 \<and>
      (\<exists>k. i + 1 \<le> k \<and> k \<le> n \<and>
        (x = None \<longrightarrow> k = n) \<and>
        (x \<noteq> None \<longrightarrow> k < n \<and> raises (trs ! nat (b + k)) (rb_get rb1 (q0 + k)) (q0 + k) = x) \<and>
        (\<forall>j. i + 1 \<le> j \<and> j < k \<longrightarrow> raises (trs ! nat (b + j)) (rb_get rb1 (q0 + j)) (q0 + j) = None) \<and>
        (\<forall>j. i + 1 \<le> j \<and> j < n \<longrightarrow> rb_get rb' (q0 + j) =
           (if j \<le> k then translated (trs ! nat (b + j)) (rb_get rb1 (q0 + j)) (q0 + j)
            else rb_get rb1 (q0 + j)))) \<and>
      (\<forall>r. (\<forall>j. i + 1 \<le> j \<and> j < n \<longrightarrow> rb_slot rb1 r \<noteq> rb_slot rb1 (q0 + j)) \<longrightarrow> rb_get rb' r = rb_get rb1 r)"
      by simp
    then obtain k where k: "i + 1 \<le> k" "k \<le> n" "x = None \<longrightarrow> k = n"
      "x \<noteq> None \<longrightarrow> k < n \<and> raises (trs ! nat (b + k)) (rb_get rb1 (q0 + k)) (q0 + k) = x"
      "\<forall>j. i + 1 \<le> j \<and> j < k \<longrightarrow> raises (trs ! nat (b + j)) (rb_get rb1 (q0 + j)) (q0 + j) = None"
      "\<forall>j. i + 1 \<le> j \<and> j < n \<longrightarrow> rb_get rb' (q0 + j) =
           (if j \<le> k then translated (trs ! nat (b + j)) (rb_get rb1 (q0 + j)) (q0 + j)
            else rb_get rb1 (q0 + j))" by blast
    have frame: "rb_get rb' r = rb_get rb1 r"
      if "\<forall>j. i + 1 \<le> j \<and> j < n \<longrightarrow> rb_slot rb r \<noteq> rb_slot rb (q0 + j)" for r
      using IH that unfolding rb1(3) by blast
    have old: "rb_get rb1 (q0 + j) = rb_get rb (q0 + j)" if "i < j" "j < n" for j
      using other [OF that] by (simp add: get1)
    have first: "rb_get rb' (q0 + i) = translated ?tr ?ev (q0 + i)"
    proof -
      have "rb_get rb' (q0 + i) = rb_get rb1 (q0 + i)"
      proof (rule frame, intro allI impI)
        fix j assume "i + 1 \<le> j \<and> j < n"
        then show "rb_slot rb (q0 + i) \<noteq> rb_slot rb (q0 + j)" using other [of j] by simp
      qed
      then show ?thesis by (simp add: get1)
    qed
    have "rb_get rb' (q0 + j) = (if j \<le> k then translated (trs ! nat (b + j)) (rb_get rb (q0 + j)) (q0 + j)
          else rb_get rb (q0 + j))" if "i \<le> j" "j < n" for j
      using that k(1,6) old [of j] first by (cases "j = i") auto
    moreover have "raises (trs ! nat (b + j)) (rb_get rb (q0 + j)) (q0 + j) = None"
      if "i \<le> j" "j < k" for j
      using that k(2) k(5) [rule_format, of j] old [of j] None by (cases "j = i") auto
    moreover have "x \<noteq> None \<longrightarrow> k < n \<and> raises (trs ! nat (b + k)) (rb_get rb (q0 + k)) (q0 + k) = x"
      using k(1,4) old [of k] by auto
    moreover have "rb_get rb' r = rb_get rb r"
      if "\<forall>j. i \<le> j \<and> j < n \<longrightarrow> rb_slot rb r \<noteq> rb_slot rb (q0 + j)" for r
      using that frame [of r] i by (auto simp: get1)
    ultimately show ?thesis
      using IH rb1(2) k(1,2,3) by (intro conjI allI impI exI [of _ k]) auto
  qed
qed

section \<open>Construction\<close>

text \<open>The entries in the order the factory made them.\<close>

lemma rb_fill_spec:
  assumes "rb_fill newInstance n i f entries = (Inr es, f')" and "0 \<le> i" and "i \<le> n"
    and "BUFFER_PAD + n \<le> int (length entries)"
  shows "length es = length entries \<and>
    (\<forall>j. j < nat (BUFFER_PAD + i) \<or> nat (BUFFER_PAD + n) \<le> j \<longrightarrow> es ! j = entries ! j) \<and>
    (\<exists>states. states i = f \<and> states n = f' \<and>
      (\<forall>j. i \<le> j \<and> j < n \<longrightarrow> newInstance (states j) = (Inr (es ! nat (BUFFER_PAD + j)), states (j + 1))))"
  using assms
proof (induction newInstance n i f entries rule: rb_fill.induct)
  case (1 newInstance n i f entries)
  show ?case
  proof (cases "i < n")
    case False
    with "1.prems" show ?thesis by (auto simp: rb_fill.simps [of newInstance n i])
  next
    case True
    obtain ev f1 where new: "newInstance f = (Inr ev, f1)"
      and rest: "rb_fill newInstance n (i + 1) f1 (entries[nat (BUFFER_PAD + i) := ev]) = (Inr es, f')"
      using "1.prems"(1) True by (auto simp: rb_fill.simps [of newInstance n i] split: prod.splits sum.splits)
    from "1.IH" [OF True new [symmetric] refl rest] "1.prems"(2,4) True
    obtain states where IH: "length es = length entries"
        "\<forall>j. j < nat (BUFFER_PAD + (i + 1)) \<or> nat (BUFFER_PAD + n) \<le> j \<longrightarrow>
           es ! j = entries[nat (BUFFER_PAD + i) := ev] ! j"
      and st: "states (i + 1) = f1" "states n = f'"
        "\<forall>j. i + 1 \<le> j \<and> j < n \<longrightarrow>
           newInstance (states j) = (Inr (es ! nat (BUFFER_PAD + j)), states (j + 1))"
      by auto
    let ?k = "nat (BUFFER_PAD + i)"
    have k: "?k < length entries" "?k < nat (BUFFER_PAD + (i + 1))" "?k < nat (BUFFER_PAD + n)"
      using "1.prems"(2,4) True by (simp_all add: BUFFER_PAD_def)
    have ev: "es ! ?k = ev" using IH(2) k by simp
    have "newInstance ((states(i := f)) j) = (Inr (es ! nat (BUFFER_PAD + j)), (states(i := f)) (j + 1))"
      if "i \<le> j" "j < n" for j
      using that st new ev by (cases "j = i") auto
    moreover have "es ! j = entries ! j" if "j < ?k \<or> nat (BUFFER_PAD + n) \<le> j" for j
    proof -
      have "j \<noteq> ?k" "j < nat (BUFFER_PAD + (i + 1)) \<or> nat (BUFFER_PAD + n) \<le> j"
        using that k by auto
      then show ?thesis using IH(2) [rule_format, of j] by simp
    qed
    ultimately show ?thesis
      using IH(1) st True by (intro conjI exI [of _ "states(i := f)"]) auto
  qed
qed

lemma rb_new_ok:
  assumes "rb_new ops dflt eventFactory f s = (Inr rb, f')" and "op_bufferSize ops s \<le> int32_max"
  shows "rb_ok ops rb" and "rb_sequencer rb = s" and "rb_bufferSize rb = op_bufferSize ops s"
    and "\<exists>newInstance states. eventFactory = Some newInstance \<and> states 0 = f \<and>
      (\<forall>q. 0 \<le> q \<and> q < rb_bufferSize rb \<longrightarrow> newInstance (states q) = (Inr (rb_get rb q), states (q + 1)))"
proof -
  let ?n = "op_bufferSize ops s"
  obtain newInstance es where fac: "eventFactory = Some newInstance"
    and n: "1 \<le> ?n" "?n AND (?n - 1) = 0"
    and fill: "rb_fill newInstance ?n 0 f (replicate (nat (?n + 2 * BUFFER_PAD)) dflt) = (Inr es, f')"
    and rb: "rb = \<lparr>rb_indexMask = ?n - 1, rb_entries = es, rb_bufferSize = ?n, rb_sequencer = s\<rparr>"
    using assms(1)
    by (auto simp: rb_new_def Let_def split: option.splits if_splits sum.splits prod.splits)
  have p: "is_pow2 ?n" using n by (simp add: is_pow2_def)
  from rb_fill_spec [OF fill] n(1)
  have len: "int (length es) = ?n + 2 * BUFFER_PAD"
    and st: "\<exists>states. states 0 = f \<and> (\<forall>j. 0 \<le> j \<and> j < ?n \<longrightarrow>
        newInstance (states j) = (Inr (es ! nat (BUFFER_PAD + j)), states (j + 1)))"
    by (auto simp: BUFFER_PAD_def)
  show ok: "rb_ok ops rb" and "rb_sequencer rb = s" and "rb_bufferSize rb = ?n"
    using p is_pow2_int32 [OF p assms(2)] len by (simp_all add: rb rb_ok_def)
  have "rb_get rb q = es ! nat (BUFFER_PAD + q)" if "0 \<le> q" "q < ?n" for q
    using that by (simp add: rb_get_def elementAt_def rb_slot_eq [OF ok]) (simp add: rb)
  then show "\<exists>newInstance states. eventFactory = Some newInstance \<and> states 0 = f \<and>
      (\<forall>q. 0 \<le> q \<and> q < rb_bufferSize rb \<longrightarrow> newInstance (states q) = (Inr (rb_get rb q), states (q + 1)))"
    using st fac by (auto simp: rb)
qed

section \<open>Publishing through any sequencer\<close>

context sequencer
begin

lemma rb_next_n_value:
  assumes "wf (rb_sequencer rb)" and "rb_ok ops rb" and "in_int64 (claimed \<sigma> (rb_sequencer rb) + n)"
    and "rb_next_n ops script n (\<sigma>, rb) = Some (Inr q, \<sigma>', rb')"
  shows "q = claimed \<sigma> (rb_sequencer rb) + n \<and> 1 \<le> n \<and> n \<le> rb_bufferSize rb \<and>
    wf (rb_sequencer rb') \<and> rb_ok ops rb' \<and> rb_get rb' = rb_get rb \<and> rb_slot rb' = rb_slot rb \<and>
    rb_bufferSize rb' = rb_bufferSize rb \<and>
    op_next ops script n (\<sigma>, rb_sequencer rb) = Some (Inr q, \<sigma>', rb_sequencer rb')"
proof -
  from assms(4) obtain s' where s': "op_next ops script n (\<sigma>, rb_sequencer rb) = Some (Inr q, \<sigma>', s')"
      "rb' = rb\<lparr>rb_sequencer := s'\<rparr>"
    by (auto simp: rb_next_n_def)
  from next_value [OF assms(1,3) s'(1)] have v: "q = claimed \<sigma> (rb_sequencer rb) + n" "1 \<le> n"
      "n \<le> op_bufferSize ops (rb_sequencer rb)" "wf s'"
      "op_bufferSize ops s' = op_bufferSize ops (rb_sequencer rb)" by auto
  have "rb_ok ops rb'" using assms(2) rb_ok_sequencer_update [OF v(5)] by (simp add: s'(2))
  then show ?thesis using v assms(2) s' by (simp add: rb_ok_def [of ops rb])
qed

lemma publish_one_spec:
  assumes "wf (rb_sequencer rb)" and "rb_ok ops rb" and "in_int64 (claimed \<sigma> (rb_sequencer rb) + 1)"
    and "publish_one ops script tr (\<sigma>, rb) = Some (r, \<sigma>', rb')"
  defines "q \<equiv> claimed \<sigma> (rb_sequencer rb) + 1"
  shows "rb_ok ops rb'" and "wf (rb_sequencer rb')" and "rb_bufferSize rb' = rb_bufferSize rb"
    and "rb_get rb' q = fst (tr (rb_get rb q) q)"
    and "q mod rb_bufferSize rb \<noteq> l mod rb_bufferSize rb \<Longrightarrow> rb_get rb' l = rb_get rb l"
    and "snd (tr (rb_get rb q) q) = None \<Longrightarrow>
      r = Inr () \<and> op_isAvailable ops q (\<sigma>', rb_sequencer rb')"
    and "snd (tr (rb_get rb q) q) = Some e \<Longrightarrow> r = Inl e \<and>
      op_next ops script 1 (\<sigma>, rb_sequencer rb) = Some (Inr q, \<sigma>', rb_sequencer rb')"
proof -
  have nonerr: "rb_next_n ops script 1 (\<sigma>, rb) \<noteq> Some (Inl x, w)" for x w
    using next_Inl [OF assms(1,3)] size_pos [OF assms(1)] by (fastforce simp: rb_next_n_def)
  have "rb_next_n ops script 1 (\<sigma>, rb) \<noteq> None"
  proof
    assume "rb_next_n ops script 1 (\<sigma>, rb) = None"
    then show False using assms(4) by (simp add: publish_one_def rb_next_def)
  qed
  then obtain q' \<sigma>1 rb1 where nx: "rb_next_n ops script 1 (\<sigma>, rb) = Some (Inr q', \<sigma>1, rb1)"
    using nonerr by (metis not_None_eq old.sum.exhaust prod_cases3)
  from rb_next_n_value [OF assms(1-3) nx]
  have v: "q' = q" "wf (rb_sequencer rb1)" "rb_ok ops rb1" "rb_get rb1 = rb_get rb"
      "rb_bufferSize rb1 = rb_bufferSize rb"
      "op_next ops script 1 (\<sigma>, rb_sequencer rb) = Some (Inr q, \<sigma>1, rb_sequencer rb1)"
    by (auto simp: q_def)
  obtain ev x where tr: "tr (rb_get rb q) q = (ev, x)" by (cases "tr (rb_get rb q) q")
  let ?rb2 = "rb_put q ev rb1"
  have one: "rb_translate_one tr q rb1 = (x, ?rb2)" by (simp add: rb_translate_one_def v tr)
  have ok2: "rb_ok ops ?rb2" using v(3) by simp
  have get2: "rb_get ?rb2 l = (if l mod rb_bufferSize rb = q mod rb_bufferSize rb then ev else rb_get rb l)" for l
    using rb_slot_eq_iff [OF v(3), of l q] by (simp add: rb_get_put [OF v(3)] v(4,5))
  obtain \<sigma>3 s3 where pub: "op_publish ops q (\<sigma>1, rb_sequencer rb1) = (\<sigma>3, s3)" by force
  from publish [OF v(2) pub] have p: "wf s3" "op_isAvailable ops q (\<sigma>3, s3)"
      "op_bufferSize ops s3 = op_bufferSize ops (rb_sequencer ?rb2)" by auto
  have res: "(r, \<sigma>', rb') = (case x of Some e \<Rightarrow> (Inl e, \<sigma>1, ?rb2)
      | None \<Rightarrow> (Inr (), \<sigma>3, ?rb2\<lparr>rb_sequencer := s3\<rparr>))"
    using assms(4) one pub
    by (auto simp: publish_one_def rb_next_def nx v(1) rb_publish_def on_sequencer_def split: option.splits)
  show "rb_ok ops rb'" using res ok2 rb_ok_sequencer_update [OF p(3)] by (auto split: option.splits)
  show "wf (rb_sequencer rb')" using res v(2) p(1) by (auto split: option.splits)
  show "rb_bufferSize rb' = rb_bufferSize rb" using res v(5) by (auto split: option.splits)
  show "rb_get rb' q = fst (tr (rb_get rb q) q)" using res tr by (auto simp: get2 split: option.splits)
  show "q mod rb_bufferSize rb \<noteq> l mod rb_bufferSize rb \<Longrightarrow> rb_get rb' l = rb_get rb l"
    using res by (auto simp: get2 split: option.splits)
  show "snd (tr (rb_get rb q) q) = None \<Longrightarrow> r = Inr () \<and> op_isAvailable ops q (\<sigma>', rb_sequencer rb')"
    using res tr p(2) by auto
  show "snd (tr (rb_get rb q) q) = Some e \<Longrightarrow> r = Inl e \<and>
      op_next ops script 1 (\<sigma>, rb_sequencer rb) = Some (Inr q, \<sigma>', rb_sequencer rb')"
    using res tr v(6) by auto
qed

text \<open>A batch is published whole, also when a translator throws; the exception goes on.\<close>

lemma publishEvents_from_spec:
  assumes "wf (rb_sequencer rb)" and "rb_ok ops rb" and "in_int64 (claimed \<sigma> (rb_sequencer rb) + n)"
    and "0 \<le> b" and "b + n \<le> int (length trs)" and "n \<noteq> 0"
    and "publishEvents_from ops script trs b n (\<sigma>, rb) = Some (r, \<sigma>', rb')"
    and "1 \<le> n" and "n \<le> rb_bufferSize rb"
  defines "q0 \<equiv> claimed \<sigma> (rb_sequencer rb) + 1"
  shows "\<exists>x k. 0 \<le> k \<and> k \<le> n \<and>
      (x = None \<longrightarrow> k = n \<and> r = Inr ()) \<and>
      (\<forall>e. x = Some e \<longrightarrow> r = Inl e \<and> k < n \<and>
         raises (trs ! nat (b + k)) (rb_get rb (q0 + k)) (q0 + k) = Some e) \<and>
      (\<forall>j. 0 \<le> j \<and> j < k \<longrightarrow> raises (trs ! nat (b + j)) (rb_get rb (q0 + j)) (q0 + j) = None) \<and>
      (\<forall>j. 0 \<le> j \<and> j < n \<longrightarrow> rb_get rb' (q0 + j) =
         (if j \<le> k then translated (trs ! nat (b + j)) (rb_get rb (q0 + j)) (q0 + j)
          else rb_get rb (q0 + j))) \<and>
      rb_ok ops rb' \<and> wf (rb_sequencer rb') \<and>
      ((\<forall>e. x = Some e \<longrightarrow> is_thrown e) \<longrightarrow>
         (\<forall>j. 0 \<le> j \<and> j < n \<longrightarrow> op_isAvailable ops (q0 + j) (\<sigma>', rb_sequencer rb')))"
proof -
  have n_le: "n \<le> op_bufferSize ops (rb_sequencer rb)" using assms(2,9) by (simp add: rb_ok_def)
  have nonerr: "rb_next_n ops script n (\<sigma>, rb) \<noteq> Some (Inl x, w)" for x w
    using next_Inl [OF assms(1,3)] assms(8) n_le by (fastforce simp: rb_next_n_def)
  have "rb_next_n ops script n (\<sigma>, rb) \<noteq> None"
  proof
    assume "rb_next_n ops script n (\<sigma>, rb) = None"
    then show False using assms(6,7) by (simp add: publishEvents_from_def)
  qed
  then obtain q' \<sigma>1 rb1 where nx: "rb_next_n ops script n (\<sigma>, rb) = Some (Inr q', \<sigma>1, rb1)"
    using nonerr by (metis not_None_eq old.sum.exhaust prod_cases3)
  from rb_next_n_value [OF assms(1-3) nx]
  have v: "q' - (n - 1) = q0" "wf (rb_sequencer rb1)" "rb_ok ops rb1" "rb_get rb1 = rb_get rb"
      "rb_bufferSize rb1 = rb_bufferSize rb" "q' = q0 + (n - 1)"
    by (auto simp: q0_def)
  obtain x rb2 where tr: "rb_translate trs b n 0 q0 rb1 = (x, rb2)" by force
  from rb_translate_spec [OF v(3) _ _ _ assms(4,5) tr] assms(8,9)
  obtain k where ok2: "rb_ok ops rb2" "rb_sequencer rb2 = rb_sequencer rb1"
    and k: "0 \<le> k" "k \<le> n" "x = None \<longrightarrow> k = n"
      "x \<noteq> None \<longrightarrow> k < n \<and> raises (trs ! nat (b + k)) (rb_get rb (q0 + k)) (q0 + k) = x"
    and quiet: "\<forall>j. 0 \<le> j \<and> j < k \<longrightarrow> raises (trs ! nat (b + j)) (rb_get rb (q0 + j)) (q0 + j) = None"
    and get2: "\<forall>j. 0 \<le> j \<and> j < n \<longrightarrow> rb_get rb2 (q0 + j) =
         (if j \<le> k then translated (trs ! nat (b + j)) (rb_get rb (q0 + j)) (q0 + j)
          else rb_get rb (q0 + j))"
    unfolding v(4,5) by auto
  obtain \<sigma>3 s3 where pub: "op_publish_range ops q0 (q0 + (n - 1)) (\<sigma>1, rb_sequencer rb2) = (\<sigma>3, s3)"
    by force
  have "wf (rb_sequencer rb2)" using v(2) ok2(2) by simp
  from publish_range [OF this pub] have p: "wf s3"
      "op_bufferSize ops s3 = op_bufferSize ops (rb_sequencer rb2)"
      "\<forall>l. q0 \<le> l \<and> l \<le> q0 + (n - 1) \<longrightarrow> op_isAvailable ops l (\<sigma>3, s3)"
    using ok2 v(5) assms(9) v(3) by (auto simp: rb_ok_def)
  let ?rb3 = "rb2\<lparr>rb_sequencer := s3\<rparr>"
  have ok3: "rb_ok ops ?rb3" using ok2(1) rb_ok_sequencer_update [OF p(2)] by simp
  have res: "(r, \<sigma>', rb') = (case x of None \<Rightarrow> (Inr (), \<sigma>3, ?rb3)
      | Some e \<Rightarrow> if is_thrown e then (Inl e, \<sigma>3, ?rb3) else (Inl e, \<sigma>1, rb2))"
    using assms(6,7) tr pub
    by (auto simp: publishEvents_from_def nx v(1) v(6) Let_def rb_publish_range_def on_sequencer_def
        split: option.splits)
  show ?thesis
  proof (intro exI [of _ x] exI [of _ k] conjI)
    show "0 \<le> k" "k \<le> n" using k by simp_all
    show "x = None \<longrightarrow> k = n \<and> r = Inr ()" using k res by auto
    show "\<forall>e. x = Some e \<longrightarrow> r = Inl e \<and> k < n \<and>
         raises (trs ! nat (b + k)) (rb_get rb (q0 + k)) (q0 + k) = Some e"
      using k res by (auto split: if_splits)
    show "\<forall>j. 0 \<le> j \<and> j < k \<longrightarrow> raises (trs ! nat (b + j)) (rb_get rb (q0 + j)) (q0 + j) = None"
      by (rule quiet)
    have "rb_get rb' = rb_get rb2" using res by (auto split: option.splits if_splits)
    then show "\<forall>j. 0 \<le> j \<and> j < n \<longrightarrow> rb_get rb' (q0 + j) =
         (if j \<le> k then translated (trs ! nat (b + j)) (rb_get rb (q0 + j)) (q0 + j)
          else rb_get rb (q0 + j))" using get2 by simp
    show "rb_ok ops rb'" using res ok2 ok3 by (auto split: option.splits if_splits)
    show "wf (rb_sequencer rb')" using res p(1) v(2) ok2(2) by (auto split: option.splits if_splits)
    show "(\<forall>e. x = Some e \<longrightarrow> is_thrown e) \<longrightarrow>
         (\<forall>j. 0 \<le> j \<and> j < n \<longrightarrow> op_isAvailable ops (q0 + j) (\<sigma>', rb_sequencer rb'))"
      using res p(3) by (auto split: option.splits if_splits)
  qed
qed

text \<open>\<open>tryPublishEvent\<close> with no other producer in the gap never waits.\<close>

lemma if_capacity_publish_returns:
  assumes "wf (rb_sequencer rb)" and "safe \<sigma> (rb_sequencer rb)" and "rb_ok ops rb"
    and "in_int64 (claimed \<sigma> (rb_sequencer rb) + 1)"
  shows "if_capacity ops 1 (\<lambda>\<sigma>. \<sigma>) (publish_one ops script tr) (\<sigma>, rb) \<noteq> None"
proof -
  obtain b \<sigma>1 s1 where h: "op_hasCapacity ops 1 (\<sigma>, rb_sequencer rb) = (Inr b, \<sigma>1, s1)"
    using hasCapacity [OF assms(1,2)] by blast
  show ?thesis
  proof (cases b)
    case False
    then show ?thesis by (simp add: if_capacity_def rb_hasAvailableCapacity_def on_sequencer_def h)
  next
    case True
    from hasCapacity_next [OF assms(1,2) _ assms(4), of \<sigma>1 s1 script] h True
    obtain w' where "op_next ops script 1 (\<sigma>1, s1) = Some (Inr (claimed \<sigma> (rb_sequencer rb) + 1), w')"
      by auto
    then show ?thesis using True
      by (cases w') (auto simp: if_capacity_def rb_hasAvailableCapacity_def on_sequencer_def h
        publish_one_def rb_next_def rb_next_n_def split: option.splits prod.splits)
  qed
qed

end

section \<open>Properties\<close>

text \<open>A small ring on the demonstration sequencer, for the witnesses.\<close>

definition demo_ring_buffer :: "(nat, mp_sequencer) ring_buffer" where
  "demo_ring_buffer = \<lparr>rb_indexMask = 0, rb_entries = replicate 65 0, rb_bufferSize = 1, rb_sequencer = demo_sequencer\<rparr>"

lemma demo_ring_buffer_ok:
  "rb_ok mp_ops demo_ring_buffer" "rb_sequencer demo_ring_buffer = demo_sequencer" "rb_bufferSize demo_ring_buffer = 1"
  by (simp_all add: demo_ring_buffer_def rb_ok_def mp_ops_def getBufferSize_def BUFFER_PAD_def is_pow2_def)

lemma demo_range: "in_int64 ((\<lambda>_. - 1) (cursor (rb_sequencer demo_ring_buffer)) + 1)"
  by (simp add: demo_ring_buffer_def in_int64_def int64_min_def int64_max_def)

lemma mp_next_flags:
  assumes "mp_wf s" and "in_int64 (\<sigma> (cursor s) + n)" and "mp_next_n script n (\<sigma>, s) = Some (Inr q, \<sigma>', s')"
  shows "mp_isAvailable l s' \<longleftrightarrow> mp_isAvailable l s"
proof -
  have s: "s' = s\<lparr>mp_gatingCache := mp_gatingCache s'\<rparr>" using mp_next_n_value(4)[OF assms] .
  show ?thesis
    by (subst s) (simp add: mp_isAvailable_def calculateIndex_def calculateAvailabilityFlag_def)
qed





text \<open>C26: Every access of the ring stays inside its array, between the pads; two sequences less than a
  buffer apart have different slots, and what one put stores is what a get of its slot reads.\<close>

theorem rb_slots:
  assumes "rb_ok ops rb"
  shows "BUFFER_PAD \<le> int (rb_slot rb q) \<and> int (rb_slot rb q) < BUFFER_PAD + rb_bufferSize rb \<and>
    rb_slot rb q < length (rb_entries rb) \<and>
    (\<bar>q - r\<bar> < rb_bufferSize rb \<longrightarrow> rb_get (rb_put q ev rb) r = (if r = q then ev else rb_get rb r)) \<and>
    rb_get (rb_put q ev rb) (q + rb_bufferSize rb) = ev"
proof -
  have "rb_slot rb (q + rb_bufferSize rb) = rb_slot rb q" using rb_slot_eq_iff[OF assms] by simp
  then show ?thesis
    using rb_slot_bounds[OF assms, of q] rb_slot_distinct[OF assms, of q r] rb_get_put[OF assms] by auto
qed

lemma rb_slots_witness:
  "rb_slot demo_ring_buffer 5 < 65 \<and> rb_get (rb_put 5 8 demo_ring_buffer) 6 = 8"
proof -
  have "rb_get (rb_put 5 8 demo_ring_buffer) (5 + 1) = 8" and "rb_slot demo_ring_buffer 5 < length (rb_entries demo_ring_buffer)"
    using rb_slots[OF demo_ring_buffer_ok(1), of 5 5 8] by (simp_all only: demo_ring_buffer_ok(3))
  then show ?thesis by (simp add: demo_ring_buffer_def)
qed

lemma rb_fill_error:
  "rb_fill newInstance n i f entries = (Inl e, f') \<Longrightarrow> \<exists>g. fst (newInstance g) = Inl e"
proof (induction newInstance n i f entries rule: rb_fill.induct)
  case (1 newInstance n i f entries)
  show ?case
  proof (cases "newInstance f")
    case (Pair r g)
    then show ?thesis using 1 by (cases r) (auto simp: rb_fill.simps[of _ n i] split: if_splits intro: exI[of _ f])
  qed
qed

lemma new_mp_unavailable:
  assumes "new_mp cursorId cacheId blocking n \<sigma> = Inr (\<sigma>', s)" and "cursorId \<noteq> cacheId"
    and "n \<le> int32_max" and "0 \<le> q" and "q < 2 ^ 31 * n"
  shows "\<not> mp_isAvailable q s"
proof -
  note N = new_mp_wf[OF assms(1-3)]
  have pos: "0 < n" using mp_wf_pos[OF N(1)] N(3) by simp
  have d: "0 \<le> q div n" using assms(4) pos by (simp add: pos_imp_zdiv_nonneg_iff)
  have e: "q div n < 2 ^ 31"
  proof (rule ccontr)
    assume "\<not> q div n < 2 ^ 31"
    then have "2 ^ 31 * n \<le> q div n * n" using pos by (intro mult_right_mono) simp_all
    also have "\<dots> \<le> q" using pos pos_mod_sign[OF pos, of q] by (simp add: minus_mod_eq_div_mult[symmetric])
    finally show False using assms(5) by simp
  qed
  have "nat (q mod n) < nat n" using pos pos_mod_bound[OF pos, of q] by simp
  then have "availableBuffer s ! nat (q mod n) = - 1" using N(2) by simp
  then show ?thesis using mp_isAvailable_eq[OF N(1)] N(3) d e wrap32_id[of "q div n"] by simp
qed

text \<open>C27: \<open>createMultiProducer\<close> succeeds only for a power of two; then every sequence number has
  a slot holding the event the factory made for it, in order, and nothing is available yet. It fails
  only on a bad size, a missing factory, or with the exception of the factory itself.\<close>

theorem rb_construct:
  assumes "cursorId \<noteq> cacheId" and "n \<le> int32_max"
  shows "case createMultiProducer dflt factory f cursorId cacheId blocking n \<sigma> of
      Inl e \<Rightarrow> \<not> is_pow2 n \<and> (\<exists>m. e = InvalidArgument m) \<or> factory = None \<or>
        (\<exists>newInstance g. factory = Some newInstance \<and> fst (newInstance g) = Inl e)
    | Inr (\<sigma>', rb) \<Rightarrow> is_pow2 n \<and> rb_ok mp_ops rb \<and> mp_wf (rb_sequencer rb) \<and> rb_bufferSize rb = n \<and>
        (\<exists>newInstance states. factory = Some newInstance \<and> states 0 = f \<and>
          (\<forall>q. 0 \<le> q \<and> q < n \<longrightarrow> newInstance (states q) = (Inr (rb_get rb q), states (q + 1)))) \<and>
        (\<forall>q. 0 \<le> q \<and> q < 2 ^ 31 * n \<longrightarrow> \<not> mp_isAvailable q (rb_sequencer rb))"
proof (cases "new_mp cursorId cacheId blocking n \<sigma>")
  case (Inl e)
  have bad: "\<not> is_pow2 n"
  proof
    assume p: "is_pow2 n"
    then have "check_bufferSize n = None" and "1 \<le> n" by (simp_all add: check_bufferSize_None is_pow2_def)
    then show False using Inl by (simp add: new_mp_def util_log2_def)
  qed
  then obtain m where "check_bufferSize n = Some (InvalidArgument m)"
    using check_bufferSize_None[of n] by (auto simp: check_bufferSize_def split: if_splits)
  then have "e = InvalidArgument m" using Inl by (simp add: new_mp_def)
  then show ?thesis using bad Inl by (simp add: createMultiProducer_def)
next
  case (Inr w)
  obtain \<sigma>' s where w: "w = (\<sigma>', s)" by force
  note N = new_mp_wf[OF Inr[unfolded w] assms]
  have size: "op_bufferSize mp_ops s = n" using N(3) by (simp add: mp_ops_def getBufferSize_def)
  have pow: "is_pow2 n" using N(1,3) by (simp add: mp_wf_def)
  obtain r f' where new: "rb_new mp_ops dflt factory f s = (r, f')" by force
  show ?thesis
  proof (cases r)
    case (Inl e)
    have ok: "\<not> n + 2 * BUFFER_PAD < 0" "\<not> n < 1" "n AND (n - 1) = 0"
      using pow by (auto simp: is_pow2_def BUFFER_PAD_def)
    have "factory = None \<or> (\<exists>newInstance g. factory = Some newInstance \<and> fst (newInstance g) = Inl e)"
      using new Inl ok unfolding rb_new_def size
      by (auto simp: Let_def split: option.splits sum.splits prod.splits dest!: rb_fill_error)
    then show ?thesis using Inr w new Inl by (auto simp: createMultiProducer_def)
  next
    case (Inr rb)
    note R = rb_new_ok[OF new[unfolded Inr], unfolded size, OF assms(2)]
    show ?thesis
      using \<open>new_mp _ _ _ _ _ = Inr w\<close> w new Inr R pow N(1) new_mp_unavailable[OF _ assms]
      by (simp add: createMultiProducer_def)
  qed
qed

lemma rb_construct_witness:
  "case createMultiProducer (0::nat) (Some (\<lambda>k. (Inr k, Suc k))) 5 0 1 False 2 (\<lambda>_. 0) of
     Inl e \<Rightarrow> False | Inr (\<sigma>', rb) \<Rightarrow> rb_ok mp_ops rb \<and> \<not> mp_isAvailable 0 (rb_sequencer rb)"
proof -
  have p: "is_pow2 2" using pow2_is_pow2[of 1] by simp
  have "case createMultiProducer (0::nat) (Some (\<lambda>k. (Inr k, Suc k))) 5 0 1 False 2 (\<lambda>_. 0) of
      Inl e \<Rightarrow> \<not> is_pow2 2 \<and> (\<exists>m. e = InvalidArgument m) \<or> Some (\<lambda>k. (Inr k, Suc k)) = None \<or>
        (\<exists>newInstance g. Some (\<lambda>k. (Inr k, Suc k)) = Some newInstance \<and> fst (newInstance g) = Inl e)
    | Inr (\<sigma>', rb) \<Rightarrow> rb_ok mp_ops rb \<and> \<not> mp_isAvailable 0 (rb_sequencer rb)"
    using rb_construct[where cursorId = 0 and cacheId = 1 and n = 2 and dflt = "0::nat" and f = 5 and blocking = False
        and factory = "Some (\<lambda>k. (Inr k, Suc k))" and \<sigma> = "\<lambda>_. 0"]
    by (auto simp: int32_max_def split: sum.splits prod.splits)
  then show ?thesis using p by (auto split: sum.splits)
qed

text \<open>\<open>tryPublishEvent\<close> used by one thread at a time never waits: either there is no room and
  nothing happens, or the claim succeeds at once and the call returns.\<close>

lemma tryPublishEvent_never_waits:
  assumes "mp_wf (rb_sequencer rb)" and "mp_cache_ok \<sigma> (rb_sequencer rb)" and "rb_ok mp_ops rb"
    and "in_int64 (\<sigma> (cursor (rb_sequencer rb)) + 1)"
  shows "\<exists>r w. tryPublishEvent mp_ops (\<lambda>\<sigma>. \<sigma>) [] tr (\<sigma>, rb) = Some (r, w)"
proof -
  have "if_capacity mp_ops 1 (\<lambda>\<sigma>. \<sigma>) (publish_one mp_ops [] tr) (\<sigma>, rb) \<noteq> None"
    by (rule mp_seq.if_capacity_publish_returns[OF assms])
  moreover have "publishEvent mp_ops [] tr = publish_one mp_ops [] tr" by (simp add: publishEvent_def fun_eq_iff)
  ultimately show ?thesis by (auto simp: tryPublishEvent_def)
qed

text \<open>With a second producer it can wait: the room is tested with \<open>hasAvailableCapacity\<close> and
  then claimed with the blocking \<open>next\<close>; a claim by another producer in between takes the
  last slot, and the call does not return before a consumer moves, however long it spins.\<close>

lemma tryPublishEvent_may_wait:
  "tryPublishEvent mp_ops (\<lambda>\<sigma>. \<sigma>(0 := \<sigma> 0 + 1)) (replicate k id) (\<lambda>_ q. (7, None)) ((\<lambda>_. - 1), demo_ring_buffer) = None"
proof -
  let ?\<tau> = "(\<lambda>_. - 1)(0 := 0) :: store"
  have cap: "rb_hasAvailableCapacity mp_ops 1 ((\<lambda>_. - 1), demo_ring_buffer) = (Inr True, (\<lambda>_. - 1), demo_ring_buffer)"
    by (simp add: rb_hasAvailableCapacity_def on_sequencer_def demo_ring_buffer_def mp_ops_def mp_hasCapacity_def
        mp_hasAvailableCapacity_def seq_get_def)
  have range: "in_int64 (?\<tau> (cursor demo_sequencer) + 1)" by (simp add: in_int64_def int64_min_def int64_max_def)
  have quiet: "run_env (replicate j id) \<sigma> = \<sigma>" for j \<sigma> by (induction j) simp_all
  have "mp_next_n (replicate k id) 1 (?\<tau>, demo_sequencer) = None"
  proof (rule ccontr)
    assume "\<not> ?thesis"
    then obtain r \<sigma>' s' where r: "mp_next_n (replicate k id) 1 (?\<tau>, demo_sequencer) = Some (r, \<sigma>', s')"
      by (metis not_None_eq prod_cases3)
    obtain q where q: "r = Inr q"
      using mp_next_n_Inl[OF demo_sequencer_ok(1), of ?\<tau> 1 "replicate k id"] range r by (cases r) auto
    have "mp_slow 1 ?\<tau> demo_sequencer" by (simp add: mp_slow_def)
    then show False
      using mp_next_n_value(3,6)[where \<sigma> = ?\<tau> and n = 1, OF demo_sequencer_ok(1) range r[unfolded q]]
      by (auto simp: quiet gate_min_def)
  qed
  then have "rb_next mp_ops (replicate k id) (?\<tau>, demo_ring_buffer) = None"
    by (simp add: rb_next_def rb_next_n_def mp_ops_def demo_ring_buffer_ok)
  then have "publishEvent mp_ops (replicate k id) (\<lambda>_ q. (7, None)) (?\<tau>, demo_ring_buffer) = None"
    by (simp add: publishEvent_def publish_one_def)
  then show ?thesis
    unfolding tryPublishEvent_def if_capacity_def cap by simp
qed

end
