(* ===== verification/Wait_Strategies.thy ===== *)
theory Wait_Strategies
  imports Util_Funs
begin

text \<open>
  The eight wait strategies (\<open>include/disruptor/*WaitStrategy.h\<close>).

  A waiting thread learns about the rest of the system only through its reads: of the cursor,
  of the dependent sequence, of the barrier's alert flag and of the clock.  A call of
  \<open>waitFor\<close> runs against a list of snapshots, one per read, in order; nothing relates
  consecutive snapshots, so every interleaving with the other threads is covered.  The store
  of a snapshot holds the values the read saw (a group of sequences is read member by member:
  its members' values may come from different moments).  \<open>None\<close> is a call still waiting when
  the list ends.

  The result also lists what the call did besides reading: waits on the condition variable,
  stores to the \<open>signalNeeded_\<close> flag, hints to the processor and the scheduler.  The wake-up of a
  condition variable is not constrained: it may be spurious.
\<close>

record snapshot =
  o_store :: store
  o_alerted :: bool
  o_now :: int

datatype wait_effect =
    CvWait
  | AwaitNanos int
  | StoreSignalNeeded
  | SpinHint
  | YieldThread
  | SleepFor int

type_synonym 'a wait = "snapshot list \<Rightarrow> ((exn + 'a) \<times> wait_effect list \<times> snapshot list) option"

text \<open>The dependent sequence: what its \<open>get()\<close> returns on a store.\<close>

type_synonym dependent = "store \<Rightarrow> int"

definition prepend ::
  "wait_effect list \<Rightarrow> ('r \<times> wait_effect list \<times> 'o) option \<Rightarrow> ('r \<times> wait_effect list \<times> 'o) option" where
  "prepend es = map_option (\<lambda>(r, es', rest). (r, es @ es', rest))"

definition wait_then :: "unit wait \<Rightarrow> 'a wait \<Rightarrow> 'a wait" where
  "wait_then m k obs =
     (case m obs of
        None \<Rightarrow> None
      | Some (Inl e, es, rest) \<Rightarrow> Some (Inl e, es, rest)
      | Some (Inr _, es, rest) \<Rightarrow> prepend es (k rest))"

section \<open>Polling the dependent sequence\<close>

text \<open>
  The loop every strategy ends with: read the dependent sequence; when it is not there yet,
  check the alert and apply the strategy's wait method, which takes and returns a counter.
\<close>

fun poll_loop ::
  "(int \<Rightarrow> wait_effect list \<times> int) \<Rightarrow> int \<Rightarrow> dependent \<Rightarrow> int \<Rightarrow> int wait" where
  "poll_loop apply_wait counter dep sequence [] = None"
| "poll_loop apply_wait counter dep sequence (o1 # obs) =
     (let availableSequence = dep (o_store o1) in
      if \<not> availableSequence < sequence then Some (Inr availableSequence, [], obs)
      else case obs of
             [] \<Rightarrow> None
           | o2 # obs' \<Rightarrow>
               if o_alerted o2 then Some (Inl AlertExn, [], obs')
               else prepend (fst (apply_wait counter))
                      (poll_loop apply_wait (snd (apply_wait counter)) dep sequence obs'))"

definition spin_wait :: "int \<Rightarrow> wait_effect list \<times> int" where
  "spin_wait counter = ([SpinHint], counter)"

definition no_wait :: "int \<Rightarrow> wait_effect list \<times> int" where
  "no_wait counter = ([], counter)"

definition yielding_apply :: "int \<Rightarrow> wait_effect list \<times> int" where
  "yielding_apply counter = (if counter = 0 then ([YieldThread], counter) else ([], counter - 1))"

definition sleeping_apply :: "int \<Rightarrow> int \<Rightarrow> wait_effect list \<times> int" where
  "sleeping_apply sleepTimeNs counter =
     (if counter > 100 then ([], counter - 1)
      else if counter > 0 then ([YieldThread], counter - 1)
      else ([SleepFor sleepTimeNs], counter))"

definition busy_spin_waitFor :: "sid \<Rightarrow> dependent \<Rightarrow> int \<Rightarrow> int wait" where
  "busy_spin_waitFor cursorId dep sequence obs = poll_loop spin_wait 0 dep sequence obs"

definition yielding_waitFor :: "sid \<Rightarrow> dependent \<Rightarrow> int \<Rightarrow> int wait" where
  "yielding_waitFor cursorId dep sequence obs = poll_loop yielding_apply 100 dep sequence obs"

definition sleeping_waitFor :: "int \<Rightarrow> int \<Rightarrow> sid \<Rightarrow> dependent \<Rightarrow> int \<Rightarrow> int wait" where
  "sleeping_waitFor retries sleepTimeNs cursorId dep sequence obs =
     poll_loop (sleeping_apply sleepTimeNs) retries dep sequence obs"

definition DEFAULT_RETRIES :: int where
  "DEFAULT_RETRIES = 200"

definition DEFAULT_SLEEP :: int where
  "DEFAULT_SLEEP = 100"

section \<open>Waiting for the cursor\<close>

definition cursor_reached :: "sid \<Rightarrow> int \<Rightarrow> snapshot \<Rightarrow> bool" where
  "cursor_reached cursorId sequence ob \<longleftrightarrow> \<not> seq_get (o_store ob) cursorId < sequence"

text \<open>The first test, made without the lock; \<open>inner\<close> is what happens under the lock.\<close>

definition unless_reached :: "sid \<Rightarrow> int \<Rightarrow> unit wait \<Rightarrow> unit wait" where
  "unless_reached cursorId sequence inner obs =
     (case obs of
        [] \<Rightarrow> None
      | o1 # rest \<Rightarrow> if cursor_reached cursorId sequence o1 then Some (Inr (), [], rest) else inner rest)"

fun blocking_loop :: "sid \<Rightarrow> int \<Rightarrow> unit wait" where
  "blocking_loop cursorId sequence [] = None"
| "blocking_loop cursorId sequence (o1 # obs) =
     (if cursor_reached cursorId sequence o1 then Some (Inr (), [], obs)
      else case obs of
             [] \<Rightarrow> None
           | o2 # obs' \<Rightarrow>
               if o_alerted o2 then Some (Inl AlertExn, [], obs')
               else prepend [CvWait] (blocking_loop cursorId sequence obs'))"

definition blocking_waitFor :: "sid \<Rightarrow> dependent \<Rightarrow> int \<Rightarrow> int wait" where
  "blocking_waitFor cursorId dep sequence =
     wait_then (unless_reached cursorId sequence (blocking_loop cursorId sequence))
       (poll_loop spin_wait 0 dep sequence)"

fun lite_blocking_loop :: "sid \<Rightarrow> int \<Rightarrow> unit wait" where
  "lite_blocking_loop cursorId sequence [] = None"
| "lite_blocking_loop cursorId sequence (o1 # obs) =
     prepend [StoreSignalNeeded]
       (if cursor_reached cursorId sequence o1 then Some (Inr (), [], obs)
        else case obs of
               o2 # o3 # obs' \<Rightarrow>
                 if o_alerted o2 then Some (Inl AlertExn, [], o3 # obs')
                 else prepend [CvWait]
                   (if cursor_reached cursorId sequence o3 then Some (Inr (), [], obs')
                    else lite_blocking_loop cursorId sequence obs')
             | [o2] \<Rightarrow> if o_alerted o2 then Some (Inl AlertExn, [], []) else None
             | [] \<Rightarrow> None)"

definition lite_blocking_waitFor :: "sid \<Rightarrow> dependent \<Rightarrow> int \<Rightarrow> int wait" where
  "lite_blocking_waitFor cursorId dep sequence =
     wait_then (unless_reached cursorId sequence (lite_blocking_loop cursorId sequence))
       (poll_loop spin_wait 0 dep sequence)"

text \<open>
  The two timed strategies differ in the store to the flag.  \<open>awaitNanos\<close> reads the clock
  before and after the wait.
\<close>

fun timeout_loop :: "bool \<Rightarrow> sid \<Rightarrow> int \<Rightarrow> int \<Rightarrow> unit wait" where
  "timeout_loop lite cursorId sequence nanos [] = None"
| "timeout_loop lite cursorId sequence nanos (o1 # obs) =
     (if cursor_reached cursorId sequence o1 then Some (Inr (), [], obs)
      else prepend (if lite then [StoreSignalNeeded] else [])
        (case obs of
           o2 # o3 # o4 # obs' \<Rightarrow>
             if o_alerted o2 then Some (Inl AlertExn, [], o3 # o4 # obs')
             else let nanos' = awaitNanos (o_now o4 - o_now o3) nanos in
                  prepend [AwaitNanos (awaitNanos_request nanos)]
                    (if nanos' \<le> 0 then Some (Inl TimeoutExn, [], obs')
                     else timeout_loop lite cursorId sequence nanos' obs')
         | o2 # rest \<Rightarrow> if o_alerted o2 then Some (Inl AlertExn, [], rest) else None
         | [] \<Rightarrow> None))"

definition timeout_blocking_waitFor :: "int \<Rightarrow> sid \<Rightarrow> dependent \<Rightarrow> int \<Rightarrow> int wait" where
  "timeout_blocking_waitFor timeoutInNanos cursorId dep sequence =
     wait_then (unless_reached cursorId sequence (timeout_loop False cursorId sequence timeoutInNanos))
       (poll_loop no_wait 0 dep sequence)"

definition lite_timeout_blocking_waitFor :: "int \<Rightarrow> sid \<Rightarrow> dependent \<Rightarrow> int \<Rightarrow> int wait" where
  "lite_timeout_blocking_waitFor timeoutInNanos cursorId dep sequence =
     wait_then (unless_reached cursorId sequence (timeout_loop True cursorId sequence timeoutInNanos))
       (poll_loop no_wait 0 dep sequence)"

section \<open>Phased backoff\<close>

definition SPIN_TRIES :: int where
  "SPIN_TRIES = 10000"

fun phased_loop ::
  "int wait \<Rightarrow> int \<Rightarrow> int \<Rightarrow> dependent \<Rightarrow> int \<Rightarrow> int \<Rightarrow> int \<Rightarrow> int wait" where
  "phased_loop fallback spinTimeout yieldTimeout dep sequence startTime counter [] = None"
| "phased_loop fallback spinTimeout yieldTimeout dep sequence startTime counter (o1 # obs) =
     (let availableSequence = dep (o_store o1) in
      if availableSequence \<ge> sequence then Some (Inr availableSequence, [], obs)
      else if counter - 1 \<noteq> 0
           then phased_loop fallback spinTimeout yieldTimeout dep sequence startTime (counter - 1) obs
      else case obs of
             [] \<Rightarrow> None
           | o2 # obs' \<Rightarrow>
               if startTime = 0
               then phased_loop fallback spinTimeout yieldTimeout dep sequence (o_now o2) SPIN_TRIES obs'
               else let timeDelta = o_now o2 - startTime in
                    if timeDelta > yieldTimeout then fallback obs'
                    else prepend (if timeDelta > spinTimeout then [YieldThread] else [])
                      (phased_loop fallback spinTimeout yieldTimeout dep sequence startTime SPIN_TRIES obs'))"

text \<open>The constructor adds the spin timeout to the yield timeout.\<close>

definition phased_waitFor ::
  "int \<Rightarrow> int \<Rightarrow> (sid \<Rightarrow> dependent \<Rightarrow> int \<Rightarrow> int wait) \<Rightarrow> sid \<Rightarrow> dependent \<Rightarrow> int \<Rightarrow> int wait" where
  "phased_waitFor spinTimeoutNanos yieldTimeoutNanos fallback cursorId dep sequence obs =
     phased_loop (fallback cursorId dep sequence) spinTimeoutNanos
       (spinTimeoutNanos + yieldTimeoutNanos) dep sequence 0 SPIN_TRIES obs"

definition phased_withLock where
  "phased_withLock spin yield = phased_waitFor spin yield blocking_waitFor"

definition phased_withLiteLock where
  "phased_withLiteLock spin yield = phased_waitFor spin yield lite_blocking_waitFor"

definition phased_withSleep where
  "phased_withSleep spin yield = phased_waitFor spin yield (sleeping_waitFor 0 DEFAULT_SLEEP)"

section \<open>The contract\<close>

text \<open>How many of the last reads see a good state.\<close>

definition good_suffix :: "(snapshot \<Rightarrow> bool) \<Rightarrow> snapshot list \<Rightarrow> nat" where
  "good_suffix P obs = length (takeWhile P (rev obs))"

definition published :: "sid \<Rightarrow> dependent \<Rightarrow> int \<Rightarrow> snapshot \<Rightarrow> bool" where
  "published cursorId dep sequence ob \<longleftrightarrow>
     sequence \<le> dep (o_store ob) \<and> sequence \<le> o_store ob cursorId"

text \<open>
  What a barrier relies on: a value returned is at least the sequence waited for and was read
  from the dependent sequence; an exception is an alert that was raised or, where the strategy
  has a timeout, a timeout; and the call returns once the sequence stays available.
\<close>

locale wait_strategy =
  fixes waitFor :: "sid \<Rightarrow> dependent \<Rightarrow> int \<Rightarrow> int wait"
    and timed :: bool
    and slack :: nat
  assumes reached: "waitFor c dep q obs = Some (Inr v, es, rest) \<Longrightarrow>
      q \<le> v \<and> (\<exists>ob\<in>set obs. v = dep (o_store ob))"
    and exception: "waitFor c dep q obs = Some (Inl e, es, rest) \<Longrightarrow>
      e = AlertExn \<and> (\<exists>ob\<in>set obs. o_alerted ob) \<or> e = TimeoutExn \<and> timed"
    and returns: "slack \<le> good_suffix (published c dep q) obs \<Longrightarrow> waitFor c dep q obs \<noteq> None"
begin

lemma alert_free:
  assumes "\<not> timed" and "\<forall>ob\<in>set obs. \<not> o_alerted ob" and "slack \<le> good_suffix (published c dep q) obs"
  shows "\<exists>v es rest. waitFor c dep q obs = Some (Inr v, es, rest) \<and> q \<le> v"
proof -
  obtain r es rest where r: "waitFor c dep q obs = Some (r, es, rest)"
    using returns [OF assms(3)] by (metis not_None_eq prod_cases3)
  show ?thesis
  proof (cases r)
    case (Inl e)
    then show ?thesis using exception [of c dep q obs e es rest] r assms(1,2) by auto
  next
    case (Inr v)
    then show ?thesis using reached [of c dep q obs v es rest] r by auto
  qed
qed

end

section \<open>Good suffixes\<close>

lemma good_suffix_Nil [simp]: "good_suffix P [] = 0"
  by (simp add: good_suffix_def)

lemma good_suffix_all: "list_all P xs \<Longrightarrow> good_suffix P xs = length xs"
  unfolding good_suffix_def by (metis length_rev list_all_iff set_rev takeWhile_eq_all_conv)

lemma good_suffix_Cons:
  "good_suffix P (x # xs) = (if list_all P xs then (if P x then Suc (length xs) else length xs)
     else good_suffix P xs)"
proof (cases "list_all P xs")
  case True
  then have "takeWhile P (rev xs @ [x]) = rev xs @ takeWhile P [x]"
    by (intro takeWhile_append2) (auto simp: list_all_iff)
  then show ?thesis using True by (simp add: good_suffix_def)
next
  case False
  then obtain y where "y \<in> set (rev xs)" "\<not> P y" by (auto simp: list_all_iff)
  then have "takeWhile P (rev xs @ [x]) = takeWhile P (rev xs)" by (rule takeWhile_append1)
  then show ?thesis using False by (simp add: good_suffix_def)
qed

lemma good_suffix_bad: "\<not> P x \<Longrightarrow> good_suffix P (x # xs) = good_suffix P xs"
  by (simp add: good_suffix_Cons good_suffix_all)

lemma good_suffix_step: "good_suffix P (x # xs) \<le> Suc (good_suffix P xs)"
  by (simp add: good_suffix_Cons good_suffix_all)

lemma good_suffix_grows: "good_suffix P xs < good_suffix P (x # xs) \<Longrightarrow> list_all P xs"
  by (simp add: good_suffix_Cons split: if_splits)

lemma good_suffix_mono: "(\<And>x. P x \<Longrightarrow> Q x) \<Longrightarrow> good_suffix P xs \<le> good_suffix Q xs"
proof (induction xs)
  case (Cons x xs)
  then show ?case using good_suffix_all [of P xs] good_suffix_all [of Q xs]
    by (auto simp: good_suffix_Cons list_all_iff)
qed simp

text \<open>
  A loop that stops at its next good read and reads at most three times in between consumes
  at most four of the good reads.
\<close>

lemma good_suffix_skip1:
  "good_suffix P (x # y) \<le> good_suffix P y + 1"
  using good_suffix_step [of P x y] by simp

lemma good_suffix_skip3:
  "good_suffix P (x1 # x2 # x3 # y) \<le> good_suffix P y + 3"
  using good_suffix_step [of P x1 "x2 # x3 # y"] good_suffix_step [of P x2 "x3 # y"]
    good_suffix_step [of P x3 y] by linarith

lemma prepend_simps [simp]:
  "prepend es None = None" "prepend es (Some (r, es', rest)) = Some (r, es @ es', rest)"
  "prepend es x = None \<longleftrightarrow> x = None"
  "prepend es x = Some (r, es'', rest) \<longleftrightarrow> (\<exists>es'. x = Some (r, es', rest) \<and> es'' = es @ es')"
  by (auto simp: prepend_def)

lemma prepend_Nil [simp]: "prepend [] x = x"
  by (cases x) auto

section \<open>The polling loop\<close>

lemma poll_loop_value:
  "poll_loop ap k dep q obs = Some (Inr v, es, rest) \<Longrightarrow> q \<le> v \<and> (\<exists>ob\<in>set obs. v = dep (o_store ob))"
  by (induction ap k dep q obs arbitrary: es rule: poll_loop.induct)
    (fastforce simp: Let_def split: if_splits list.splits)+

lemma poll_loop_exception:
  "poll_loop ap k dep q obs = Some (Inl e, es, rest) \<Longrightarrow> e = AlertExn \<and> (\<exists>ob\<in>set obs. o_alerted ob)"
  by (induction ap k dep q obs arbitrary: es rule: poll_loop.induct)
    (fastforce simp: Let_def split: if_splits list.splits)+

lemma poll_loop_returns:
  assumes "poll_loop ap k dep q obs = None" and "\<And>ob. P ob \<Longrightarrow> q \<le> dep (o_store ob)"
  shows "good_suffix P obs \<le> 2"
  using assms
proof (induction ap k dep q obs rule: poll_loop.induct)
  case (2 ap k dep q o1 obs)
  from "2.prems"(1) have "dep (o_store o1) < q" by (simp add: Let_def split: if_splits)
  then have bad: "\<not> P o1" using "2.prems"(2) [of o1] by auto
  show ?case
  proof (cases obs)
    case Nil
    then show ?thesis using bad by (simp add: good_suffix_bad)
  next
    case (Cons o2 obs')
    have none: "poll_loop ap (snd (ap k)) dep q obs' = None" and na: "\<not> o_alerted o2"
      and low: "dep (o_store o1) < q"
      using "2.prems"(1) Cons by (auto simp: Let_def split: if_splits)
    have IH: "good_suffix P obs' \<le> 2"
      using "2.IH" [OF refl _ Cons na none "2.prems"(2)] low by simp
    show ?thesis
    proof (cases "list_all P obs'")
      case True
      have "obs' = []"
      proof (rule ccontr)
        assume "obs' \<noteq> []"
        then obtain o3 obs'' where "obs' = o3 # obs''" "P o3" using True by (cases obs') auto
        then show False using none "2.prems"(2) by (auto simp: Let_def not_less)
      qed
      then show ?thesis using bad Cons good_suffix_skip1 [of P o2 "[]"] by (simp add: good_suffix_bad)
    next
      case False
      then show ?thesis using IH bad Cons by (simp add: good_suffix_bad good_suffix_Cons)
    qed
  qed
qed simp

section \<open>Loops that wait for the cursor\<close>

text \<open>What they have in common: the outcome of a call with respect to the good reads.\<close>

definition keeps_up ::
  "(snapshot \<Rightarrow> bool) \<Rightarrow> nat \<Rightarrow> bool \<Rightarrow> ((exn + unit) \<times> wait_effect list \<times> snapshot list) option
     \<Rightarrow> snapshot list \<Rightarrow> bool" where
  "keeps_up P k timed r obs \<longleftrightarrow>
     (case r of
        None \<Rightarrow> good_suffix P obs \<le> k
      | Some (Inl e, es, rest) \<Rightarrow>
          e = AlertExn \<and> (\<exists>ob\<in>set obs. o_alerted ob) \<or> e = TimeoutExn \<and> timed
      | Some (Inr _, es, rest) \<Rightarrow> good_suffix P obs \<le> good_suffix P rest + k \<and> set rest \<subseteq> set obs)"

lemma keeps_up_prepend [simp]: "keeps_up P k timed (prepend es r) obs \<longleftrightarrow> keeps_up P k timed r obs"
  by (cases r) (auto simp: keeps_up_def split: sum.splits)

lemma keeps_up_mono:
  assumes "keeps_up P k timed r obs" and "good_suffix P obs' \<le> good_suffix P obs" and "set obs \<subseteq> set obs'"
  shows "keeps_up P k timed r obs'"
  using assms unfolding keeps_up_def by (fastforce split: option.splits sum.splits)

text \<open>
  The step every loop's induction makes: a bad read, at most three others, and either all that
  is left is good (then the next round stops) or none of it was counted.
\<close>

lemma keeps_up_round:
  assumes "\<not> P o1" and "length mid \<le> 3"
    and IH: "keeps_up P 4 timed r obs'"
    and stop: "\<And>o2 obs''. obs' = o2 # obs'' \<Longrightarrow> P o2 \<Longrightarrow> \<exists>es. r = Some (Inr (), es, obs'')"
    and empty: "obs' = [] \<Longrightarrow> r = None"
  shows "keeps_up P 4 timed r (o1 # mid @ obs')"
proof -
  have "good_suffix P (mid @ obs') \<le> length mid + good_suffix P obs'" for mid
    by (induction mid) (auto intro: order_trans [OF good_suffix_step])
  then have step: "good_suffix P (o1 # mid @ obs') \<le> good_suffix P obs' + 3"
    using assms(1,2) by (simp add: good_suffix_bad order_trans [of _ "length mid + good_suffix P obs'"])
  have eq: "good_suffix P (o1 # mid @ obs') = good_suffix P obs'" if "\<not> list_all P obs'"
  proof -
    have "good_suffix P (mid @ obs') = good_suffix P obs'" for mid
      using that by (induction mid) (simp_all add: good_suffix_Cons)
    then show ?thesis using assms(1) by (simp add: good_suffix_bad)
  qed
  show ?thesis
  proof (cases "list_all P obs'")
    case False
    then show ?thesis by (intro keeps_up_mono [OF IH]) (auto simp: eq)
  next
    case True
    show ?thesis
    proof (cases obs')
      case Nil
      then show ?thesis using empty step by (simp add: keeps_up_def)
    next
      case (Cons o2 obs'')
      with True have "P o2" by simp
      with stop Cons obtain es where r: "r = Some (Inr (), es, obs'')" by blast
      have "good_suffix P obs' \<le> Suc (good_suffix P obs'')" unfolding Cons by (rule good_suffix_step)
      then show ?thesis using r step Cons by (auto simp: keeps_up_def)
    qed
  qed
qed

lemma keeps_up_stop: "keeps_up P 4 timed (Some (Inr (), es, obs)) (o1 # obs)"
  using good_suffix_step [of P o1 obs] by (auto simp: keeps_up_def)

lemma keeps_up_alert: "o_alerted ob \<Longrightarrow> ob \<in> set obs \<Longrightarrow> keeps_up P k timed (Some (Inl AlertExn, es, rest)) obs"
  by (auto simp: keeps_up_def)

lemma keeps_up_short: "\<not> P o1 \<Longrightarrow> length mid \<le> 3 \<Longrightarrow> keeps_up P 4 timed None (o1 # mid)"
  using keeps_up_round [of P o1 mid timed None "[]"] by (simp add: keeps_up_def)

lemma blocking_loop_keeps_up:
  assumes "\<And>ob. P ob \<Longrightarrow> cursor_reached c q ob"
  shows "keeps_up P 4 timed (blocking_loop c q obs) obs"
  using assms
proof (induction c q obs rule: blocking_loop.induct)
  case (2 c q o1 obs)
  show ?case
  proof (cases "cursor_reached c q o1")
    case True
    then show ?thesis by (simp add: keeps_up_stop)
  next
    case False
    then have bad: "\<not> P o1" using "2.prems" by blast
    show ?thesis
    proof (cases obs)
      case Nil
      then show ?thesis using False bad keeps_up_short [of P o1 "[]"] by simp
    next
      case (Cons o2 obs')
      show ?thesis
      proof (cases "o_alerted o2")
        case True
        then show ?thesis using False Cons by (auto intro: keeps_up_alert)
      next
        case na: False
        have "keeps_up P 4 timed (blocking_loop c q obs') (o1 # [o2] @ obs')"
          by (rule keeps_up_round [where P = P, OF bad]) (use "2.IH" [OF False Cons na] "2.prems" in auto)
        then show ?thesis using False Cons na by simp
      qed
    qed
  qed
qed (simp add: keeps_up_def)

lemma lite_blocking_loop_keeps_up:
  assumes "\<And>ob. P ob \<Longrightarrow> cursor_reached c q ob"
  shows "keeps_up P 4 timed (lite_blocking_loop c q obs) obs"
  using assms
proof (induction c q obs rule: lite_blocking_loop.induct)
  case (2 c q o1 obs)
  show ?case
  proof (cases "cursor_reached c q o1")
    case True
    then show ?thesis by (simp add: keeps_up_stop)
  next
    case False
    then have bad: "\<not> P o1" using "2.prems" by blast
    consider "obs = []" | o2 where "obs = [o2]" | o2 o3 obs' where "obs = o2 # o3 # obs'"
      by (metis list.exhaust)
    then show ?thesis
    proof cases
      case 1
      then show ?thesis using False bad keeps_up_short [of P o1 "[]"] by simp
    next
      case 2
      then show ?thesis using False bad keeps_up_short [of P o1 "[o2]"] by (auto intro: keeps_up_alert)
    next
      case 3
      show ?thesis
      proof (cases "o_alerted o2")
        case True
        then show ?thesis using False 3 by (auto intro: keeps_up_alert)
      next
        case na: False
        show ?thesis
        proof (cases "cursor_reached c q o3")
          case True
          have "keeps_up P 4 timed (Some (Inr (), [StoreSignalNeeded, CvWait], obs')) (o1 # o2 # o3 # obs')"
            using good_suffix_skip3 [of P o1 o2 o3 obs'] by (auto simp: keeps_up_def)
          then show ?thesis using False 3 na True by simp
        next
          case n3: False
          have "keeps_up P 4 timed (lite_blocking_loop c q obs') (o1 # [o2, o3] @ obs')"
            by (rule keeps_up_round [where P = P, OF bad]) (use "2.IH" [OF False 3 refl na n3] "2.prems" in auto)
          then show ?thesis using False 3 na n3 by simp
        qed
      qed
    qed
  qed
qed (simp add: keeps_up_def)

lemma timeout_loop_keeps_up:
  assumes "\<And>ob. P ob \<Longrightarrow> cursor_reached c q ob"
  shows "keeps_up P 4 True (timeout_loop lite c q nanos obs) obs"
  using assms
proof (induction lite c q nanos obs rule: timeout_loop.induct)
  case (2 lite c q nanos o1 obs)
  show ?case
  proof (cases "cursor_reached c q o1")
    case True
    then show ?thesis by (simp add: keeps_up_stop)
  next
    case False
    then have bad: "\<not> P o1" using "2.prems" by blast
    consider "obs = []" | o2 where "obs = [o2]" | o2 o3 where "obs = [o2, o3]"
      | o2 o3 o4 obs' where "obs = o2 # o3 # o4 # obs'"
      by (metis list.exhaust)
    then show ?thesis
    proof cases
      case 1
      then show ?thesis using False bad keeps_up_short [of P o1 "[]"] by simp
    next
      case 2
      then show ?thesis using False bad keeps_up_short [of P o1 "[o2]"] by (auto intro: keeps_up_alert)
    next
      case 3
      then show ?thesis using False bad keeps_up_short [of P o1 "[o2, o3]"] by (auto intro: keeps_up_alert)
    next
      case 4
      let ?nanos = "awaitNanos (o_now o4 - o_now o3) nanos"
      show ?thesis
      proof (cases "o_alerted o2")
        case True
        then show ?thesis using False 4 by (auto intro: keeps_up_alert)
      next
        case na: False
        show ?thesis
        proof (cases "?nanos \<le> 0")
          case True
          then show ?thesis using False 4 na by (simp add: keeps_up_def)
        next
          case left: False
          have "keeps_up P 4 True (timeout_loop lite c q ?nanos obs') (o1 # [o2, o3, o4] @ obs')"
            by (rule keeps_up_round [where P = P, OF bad]) (use "2.IH" [OF False 4 refl refl na refl left] "2.prems" in auto)
          then show ?thesis using False 4 na left by simp
        qed
      qed
    qed
  qed
qed (simp add: keeps_up_def)

section \<open>The strategies meet the contract\<close>

lemma published_D:
  "published c dep q ob \<Longrightarrow> cursor_reached c q ob" "published c dep q ob \<Longrightarrow> q \<le> dep (o_store ob)"
  by (simp_all add: published_def cursor_reached_def seq_get_def)

lemma poll_strategy_contract:
  assumes "8 \<le> slack"
  shows "wait_strategy (\<lambda>c dep q. poll_loop ap k dep q) timed slack"
proof
  show "\<And>c dep q obs v es rest. poll_loop ap k dep q obs = Some (Inr v, es, rest) \<Longrightarrow>
      q \<le> v \<and> (\<exists>ob\<in>set obs. v = dep (o_store ob))"
    by (rule poll_loop_value)
  show "\<And>c dep q obs e es rest. poll_loop ap k dep q obs = Some (Inl e, es, rest) \<Longrightarrow>
      e = AlertExn \<and> (\<exists>ob\<in>set obs. o_alerted ob) \<or> e = TimeoutExn \<and> timed"
    using poll_loop_exception by blast
  show "poll_loop ap k dep q obs \<noteq> None" if "slack \<le> good_suffix (published c dep q) obs" for c dep q obs
    using poll_loop_returns [of ap k dep q obs "published c dep q"] published_D(2) [of c dep q] that assms
    by fastforce
qed

lemma unless_reached_keeps_up:
  assumes "\<And>P obs. (\<And>ob. P ob \<Longrightarrow> cursor_reached c q ob) \<Longrightarrow> keeps_up P 4 timed (inner obs) obs"
    and P: "\<And>ob. P ob \<Longrightarrow> cursor_reached c q ob"
  shows "keeps_up P 4 timed (unless_reached c q inner obs) obs"
proof (cases obs)
  case Nil
  then show ?thesis by (simp add: unless_reached_def keeps_up_def)
next
  case (Cons o1 rest)
  show ?thesis
  proof (cases "cursor_reached c q o1")
    case True
    then show ?thesis by (simp add: Cons unless_reached_def keeps_up_stop)
  next
    case False
    then have "good_suffix P (o1 # rest) = good_suffix P rest"
      using P by (intro good_suffix_bad) blast
    then show ?thesis using False Cons
      by (auto simp: unless_reached_def intro!: keeps_up_mono [OF assms(1) [OF P]])
  qed
qed

lemma two_phase_contract:
  assumes "\<And>c q P obs. (\<And>ob. P ob \<Longrightarrow> cursor_reached c q ob) \<Longrightarrow> keeps_up P 4 timed (inner c q obs) obs"
  shows "wait_strategy (\<lambda>c dep q. wait_then (unless_reached c q (inner c q)) (poll_loop ap 0 dep q)) timed 8"
proof
  fix c dep q obs
  let ?P = "published c dep q"
  let ?first = "unless_reached c q (inner c q) obs"
  have first: "keeps_up ?P 4 timed ?first obs"
    by (rule unless_reached_keeps_up) (rule assms, simp, rule published_D(1))
  show "q \<le> v \<and> (\<exists>ob\<in>set obs. v = dep (o_store ob))"
    if "wait_then (unless_reached c q (inner c q)) (poll_loop ap 0 dep q) obs = Some (Inr v, es, rest)"
    for v es rest
  proof -
    from that obtain es1 rest1 es2 where "?first = Some (Inr (), es1, rest1)"
      and second: "poll_loop ap 0 dep q rest1 = Some (Inr v, es2, rest)"
      by (auto simp: wait_then_def split: option.splits sum.splits prod.splits)
    then have "set rest1 \<subseteq> set obs" using first by (simp add: keeps_up_def)
    then show ?thesis using poll_loop_value [OF second] by auto
  qed
  show "e = AlertExn \<and> (\<exists>ob\<in>set obs. o_alerted ob) \<or> e = TimeoutExn \<and> timed"
    if "wait_then (unless_reached c q (inner c q)) (poll_loop ap 0 dep q) obs = Some (Inl e, es, rest)"
    for e es rest
  proof (cases "\<exists>es1 rest1. ?first = Some (Inr (), es1, rest1)")
    case True
    then obtain es1 rest1 where f: "?first = Some (Inr (), es1, rest1)" by blast
    with that obtain es2 where second: "poll_loop ap 0 dep q rest1 = Some (Inl e, es2, rest)"
      by (auto simp: wait_then_def)
    have "set rest1 \<subseteq> set obs" using f first by (simp add: keeps_up_def)
    then show ?thesis using poll_loop_exception [OF second] by auto
  next
    case False
    with that have "?first = Some (Inl e, es, rest)"
      by (auto simp: wait_then_def split: option.splits sum.splits prod.splits)
    then show ?thesis using first by (simp add: keeps_up_def)
  qed
  show "wait_then (unless_reached c q (inner c q)) (poll_loop ap 0 dep q) obs \<noteq> None"
    if good: "8 \<le> good_suffix ?P obs"
  proof
    assume none: "wait_then (unless_reached c q (inner c q)) (poll_loop ap 0 dep q) obs = None"
    have "?first \<noteq> None"
    proof
      assume "?first = None"
      then show False using first good by (simp add: keeps_up_def)
    qed
    then obtain es1 rest1 where f: "?first = Some (Inr (), es1, rest1)"
      and second: "poll_loop ap 0 dep q rest1 = None"
      using none by (auto simp: wait_then_def split: sum.splits)
    have "good_suffix ?P obs \<le> good_suffix ?P rest1 + 4" using f first by (simp add: keeps_up_def)
    moreover have "good_suffix ?P rest1 \<le> 2"
      using poll_loop_returns [OF second, of ?P] published_D(2) by blast
    ultimately show False using good by simp
  qed
qed

text \<open>Phased backoff over any strategy that meets the contract.\<close>

lemma phased_loop_cases:
  assumes "phased_loop fb sp yl dep q start k (o1 # obs) = r" and "dep (o_store o1) < q"
  obtains (spin) k' where "r = phased_loop fb sp yl dep q start k' obs" "k' = k - 1" "k - 1 \<noteq> 0"
  | (stop) "r = None" "obs = []"
  | (round) o2 obs' start' es where "obs = o2 # obs'"
      "r = prepend es (phased_loop fb sp yl dep q start' SPIN_TRIES obs')" "k - 1 = 0"
      "start = 0 \<and> start' = o_now o2 \<or> start \<noteq> 0 \<and> start' = start \<and> \<not> o_now o2 - start > yl"
  | (fallback) o2 obs' where "obs = o2 # obs'" "r = fb obs'"
proof (cases "k - 1 \<noteq> 0")
  case True
  then show thesis using assms spin by (simp add: Let_def not_le)
next
  case False
  show thesis
  proof (cases obs)
    case Nil
    then show thesis using assms False stop by (simp add: Let_def not_le)
  next
    case (Cons o2 obs')
    show thesis
    proof (cases "start = 0")
      case True
      then show thesis using assms False Cons round [of o2 obs' "[]" "o_now o2"]
        by (simp add: Let_def not_le prepend_Nil)
    next
      case started: False
      show thesis
      proof (cases "o_now o2 - start > yl")
        case True
        then show thesis using assms False Cons started fallback [of o2 obs'] by (simp add: Let_def not_le)
      next
        case no_fb: False
        then show thesis using assms False Cons started
            round [of o2 obs' "if o_now o2 - start > sp then [YieldThread] else []" start]
          by (simp add: Let_def not_le)
      qed
    qed
  qed
qed

lemma phased_loop_outcome:
  assumes fb: "\<And>obs v es rest. fb obs = Some (Inr v, es, rest) \<Longrightarrow> q \<le> v \<and> (\<exists>ob\<in>set obs. v = dep (o_store ob))"
    and fbe: "\<And>obs e es rest. fb obs = Some (Inl e, es, rest) \<Longrightarrow>
      e = AlertExn \<and> (\<exists>ob\<in>set obs. o_alerted ob) \<or> e = TimeoutExn \<and> timed"
    and "phased_loop fb sp yl dep q start k obs = Some (r, es, rest)"
  shows "case r of Inr v \<Rightarrow> q \<le> v \<and> (\<exists>ob\<in>set obs. v = dep (o_store ob))
    | Inl e \<Rightarrow> e = AlertExn \<and> (\<exists>ob\<in>set obs. o_alerted ob) \<or> e = TimeoutExn \<and> timed"
  using assms(3)
proof (induction "length obs" arbitrary: obs start k es rule: less_induct)
  case less
  show ?case
  proof (cases obs)
    case Nil
    then show ?thesis using less.prems by simp
  next
    case (Cons o1 obs1)
    show ?thesis
    proof (cases "dep (o_store o1) < q")
      case False
      then have "r = Inr (dep (o_store o1))" using less.prems Cons by (auto simp: Let_def)
      then show ?thesis using False Cons by simp
    next
      case True
      show ?thesis
      proof (cases rule: phased_loop_cases [OF less.prems [unfolded Cons] True])
        case (1 k')
        have "length obs1 < length obs" using Cons by simp
        from less.hyps [OF this 1(1) [symmetric]] show ?thesis using Cons by (auto split: sum.splits)
      next
        case 2
        then show ?thesis by simp
      next
        case (3 o2 obs' start' es1)
        from 3(2) obtain es2 where "phased_loop fb sp yl dep q start' SPIN_TRIES obs' = Some (r, es2, rest)"
          by (metis prepend_simps(4))
        moreover have "length obs' < length obs" using Cons 3(1) by simp
        ultimately show ?thesis using less.hyps Cons 3(1) by (fastforce split: sum.splits)
      next
        case (4 o2 obs')
        then have "fb obs' = Some (r, es, rest)" by simp
        then show ?thesis using fb [of obs'] fbe [of obs'] Cons 4(1) by (auto split: sum.splits)
      qed
    qed
  qed
qed

lemma phased_loop_None:
  assumes fb: "\<And>obs. fb obs = None \<Longrightarrow> good_suffix P obs < slack" and "0 < slack"
    and P: "\<And>ob. P ob \<Longrightarrow> q \<le> dep (o_store ob)"
    and "phased_loop fb sp yl dep q start k obs = None"
  shows "good_suffix P obs \<le> slack"
  using assms(4)
proof (induction "length obs" arbitrary: obs start k rule: less_induct)
  case less
  show ?case
  proof (cases obs)
    case (Cons o1 obs1)
    have low: "dep (o_store o1) < q" using less.prems Cons by (auto simp: Let_def split: if_splits)
    have skip: "good_suffix P obs = good_suffix P obs1"
      unfolding Cons by (rule good_suffix_bad) (use P [of o1] low in auto)
    show ?thesis
    proof (cases rule: phased_loop_cases [OF less.prems [unfolded Cons] low])
      case (1 k')
      have "length obs1 < length obs" using Cons by simp
      from less.hyps [OF this 1(1) [symmetric]] show ?thesis using skip by simp
    next
      case 2
      then show ?thesis using skip by simp
    next
      case (3 o2 obs' start' es1)
      from 3(2) have none: "phased_loop fb sp yl dep q start' SPIN_TRIES obs' = None"
        using prepend_simps(3) by metis
      have IH: "good_suffix P obs' \<le> slack"
        by (rule less.hyps [OF _ none]) (use Cons 3(1) in simp)
      show ?thesis
      proof (cases "list_all P obs'")
        case False
        then show ?thesis using IH skip 3(1) by (simp add: good_suffix_Cons)
      next
        case True
        have "obs' = []"
        proof (rule ccontr)
          assume "obs' \<noteq> []"
          then obtain o3 obs'' where "obs' = o3 # obs''" "P o3" using True by (cases obs') auto
          then show False using none P [of o3] by (auto simp: Let_def)
        qed
        then show ?thesis using skip 3(1) assms(2) good_suffix_step [of P o2 "[]"] by simp
      qed
    next
      case (4 o2 obs')
      then show ?thesis using fb [of obs'] skip good_suffix_step [of P o2 obs'] by simp
    qed
  qed simp
qed

lemma phased_contract:
  assumes "wait_strategy fallback timed slack" and "0 < slack"
  shows "wait_strategy (phased_waitFor spin yield fallback) timed (Suc slack)"
proof
  fix c dep q obs
  note out = phased_loop_outcome [where fb = "fallback c dep q" and timed = timed,
      OF wait_strategy.reached [OF assms(1)] wait_strategy.exception [OF assms(1)]]
  show "q \<le> v \<and> (\<exists>ob\<in>set obs. v = dep (o_store ob))"
    if "phased_waitFor spin yield fallback c dep q obs = Some (Inr v, es, rest)" for v es rest
    using out [OF _ _ that [unfolded phased_waitFor_def]] by simp
  show "e = AlertExn \<and> (\<exists>ob\<in>set obs. o_alerted ob) \<or> e = TimeoutExn \<and> timed"
    if "phased_waitFor spin yield fallback c dep q obs = Some (Inl e, es, rest)" for e es rest
    using out [OF _ _ that [unfolded phased_waitFor_def]] by simp
  show "phased_waitFor spin yield fallback c dep q obs \<noteq> None"
    if good: "Suc slack \<le> good_suffix (published c dep q) obs"
  proof
    assume "phased_waitFor spin yield fallback c dep q obs = None"
    then have none: "phased_loop (fallback c dep q) spin (spin + yield) dep q 0 SPIN_TRIES obs = None"
      by (simp add: phased_waitFor_def)
    have fb: "good_suffix (published c dep q) obs < slack" if "fallback c dep q obs = None" for obs
      using wait_strategy.returns [OF assms(1), of c dep q obs] that by (meson not_le)
    have "good_suffix (published c dep q) obs \<le> slack"
      by (rule phased_loop_None [OF _ assms(2) _ none]) (erule fb, rule published_D(2))
    then show False using good by simp
  qed
qed

interpretation busy_spin: wait_strategy busy_spin_waitFor False 8
  unfolding busy_spin_waitFor_def [abs_def] by (rule poll_strategy_contract) simp

interpretation yielding: wait_strategy yielding_waitFor False 8
  unfolding yielding_waitFor_def [abs_def] by (rule poll_strategy_contract) simp

interpretation sleeping: wait_strategy "sleeping_waitFor retries sleepTimeNs" False 8 for retries sleepTimeNs
  unfolding sleeping_waitFor_def [abs_def] by (rule poll_strategy_contract) simp

interpretation blocking: wait_strategy blocking_waitFor False 8
  unfolding blocking_waitFor_def [abs_def]
  by (rule two_phase_contract) (rule blocking_loop_keeps_up)

interpretation lite_blocking: wait_strategy lite_blocking_waitFor False 8
  unfolding lite_blocking_waitFor_def [abs_def]
  by (rule two_phase_contract) (rule lite_blocking_loop_keeps_up)

interpretation timeout_blocking: wait_strategy "timeout_blocking_waitFor nanos" True 8 for nanos
  unfolding timeout_blocking_waitFor_def [abs_def]
  by (rule two_phase_contract) (rule timeout_loop_keeps_up)

interpretation lite_timeout_blocking: wait_strategy "lite_timeout_blocking_waitFor nanos" True 8 for nanos
  unfolding lite_timeout_blocking_waitFor_def [abs_def]
  by (rule two_phase_contract) (rule timeout_loop_keeps_up)

interpretation phased_lock: wait_strategy "phased_withLock spin yield" False 9 for spin yield
  unfolding phased_withLock_def
  using phased_contract [OF blocking.wait_strategy_axioms, of spin yield] by simp

interpretation phased_lite_lock: wait_strategy "phased_withLiteLock spin yield" False 9 for spin yield
  unfolding phased_withLiteLock_def
  using phased_contract [OF lite_blocking.wait_strategy_axioms, of spin yield] by simp

interpretation phased_sleep: wait_strategy "phased_withSleep spin yield" False 9 for spin yield
  unfolding phased_withSleep_def
  using phased_contract [OF sleeping.wait_strategy_axioms [of 0 DEFAULT_SLEEP], of spin yield] by simp

end
