(* ===== verification/Barrier.thy ===== *)
theory Barrier
  imports Sequencer_Interface Wait_Strategies
begin

text \<open>
  \<open>ProcessingSequenceBarrier\<close> (\<open>include/disruptor/ProcessingSequenceBarrier.h\<close>): the alert flag,
  the dependent sequences, and \<open>waitFor\<close>, which asks the wait strategy and then the sequencer
  how far the events are published.
\<close>

record barrier =
  b_alerted :: bool
  b_dependents :: seqs
  b_cursor :: sid
  b_signalled :: nat

definition new_barrier :: "sid \<Rightarrow> seqs \<Rightarrow> barrier" where
  "new_barrier cursorId dependentSequences =
     \<lparr>b_alerted = False, b_dependents = dependentSequences, b_cursor = cursorId, b_signalled = 0\<rparr>"

text \<open>The dependent sequence: the cursor when there are none, their minimum otherwise.\<close>

definition barrier_dependent :: "barrier \<Rightarrow> dependent" where
  "barrier_dependent b \<sigma> =
     (if b_dependents b = [] then seq_get \<sigma> (b_cursor b)
      else getMinimumSequence_max \<sigma> (b_dependents b))"

definition barrier_getCursor :: "store \<Rightarrow> barrier \<Rightarrow> int" where
  "barrier_getCursor \<sigma> b = barrier_dependent b \<sigma>"

definition isAlerted :: "barrier \<Rightarrow> bool" where
  "isAlerted b = b_alerted b"

definition alert :: "barrier \<Rightarrow> barrier" where
  "alert b = b\<lparr>b_alerted := True, b_signalled := Suc (b_signalled b)\<rparr>"

definition clearAlert :: "barrier \<Rightarrow> barrier" where
  "clearAlert b = b\<lparr>b_alerted := False\<rparr>"

definition checkAlert :: "barrier \<Rightarrow> exn + unit" where
  "checkAlert b = (if isAlerted b then Inl AlertExn else Inr ())"

text \<open>
  \<open>waitFor\<close>.  The reads of the alert flag and of the sequences are those of the snapshots;
  \<open>w\<close> is the sequencer as the scan for published events sees it.
\<close>

definition barrier_waitFor ::
  "'s seq_ops \<Rightarrow> (sid \<Rightarrow> dependent \<Rightarrow> int \<Rightarrow> int wait) \<Rightarrow> barrier \<Rightarrow> store \<times> 's \<Rightarrow> int \<Rightarrow> int wait" where
  "barrier_waitFor ops strategy b w sequence obs =
     (case obs of
        [] \<Rightarrow> None
      | o1 # rest \<Rightarrow>
          if o_alerted o1 then Some (Inl AlertExn, [], rest)
          else case strategy (b_cursor b) (barrier_dependent b) sequence rest of
                 None \<Rightarrow> None
               | Some (Inl e, es, rest') \<Rightarrow> Some (Inl e, es, rest')
               | Some (Inr availableSequence, es, rest') \<Rightarrow>
                   Some (Inr (if availableSequence < sequence then availableSequence
                              else op_highestPublished ops sequence availableSequence w), es, rest'))"

text \<open>The dependent value is a lower bound of every sequence the barrier tracks.\<close>

lemma barrier_dependent_le:
  "c \<in> ptrs (b_dependents b) \<Longrightarrow> barrier_dependent b \<sigma> \<le> \<sigma> c"
  "b_dependents b = [] \<Longrightarrow> barrier_dependent b \<sigma> = \<sigma> (b_cursor b)"
  by (auto simp: barrier_dependent_def seq_get_def getMinimumSequence_max_def
      intro: getMinimumSequence_le_member)

lemma alert_simps [simp]:
  "isAlerted (alert b)" "\<not> isAlerted (clearAlert b)" "checkAlert (alert b) = Inl AlertExn"
  "checkAlert (clearAlert b) = Inr ()" "b_cursor (alert b) = b_cursor b"
  "b_dependents (alert b) = b_dependents b"
  by (simp_all add: alert_def clearAlert_def isAlerted_def checkAlert_def)

section \<open>waitFor over any strategy\<close>

context wait_strategy
begin

lemma barrier_exception:
  assumes "barrier_waitFor ops waitFor b w q obs = Some (Inl e, es, rest)"
  shows "e = AlertExn \<and> (\<exists>ob\<in>set obs. o_alerted ob) \<or> e = TimeoutExn \<and> timed"
  using assms exception [of "b_cursor b" "barrier_dependent b" q "tl obs" e es rest]
  by (cases obs) (auto simp: barrier_waitFor_def split: if_splits option.splits sum.splits)

lemma barrier_value:
  assumes "barrier_waitFor ops waitFor b w q obs = Some (Inr v, es, rest)"
  shows "\<exists>av. q \<le> av \<and> (\<exists>ob\<in>set obs. av = barrier_dependent b (o_store ob)) \<and>
    v = op_highestPublished ops q av w"
  using assms reached [of "b_cursor b" "barrier_dependent b" q "tl obs"]
  by (cases obs) (fastforce simp: barrier_waitFor_def split: if_splits option.splits sum.splits)+

lemma barrier_returns:
  assumes "Suc slack \<le> good_suffix (published (b_cursor b) (barrier_dependent b) q) obs"
  shows "barrier_waitFor ops waitFor b w q obs \<noteq> None"
proof (cases obs)
  case Nil
  then show ?thesis using assms by simp
next
  case (Cons o1 rest)
  have "slack \<le> good_suffix (published (b_cursor b) (barrier_dependent b) q) rest"
    using assms good_suffix_step [of "published (b_cursor b) (barrier_dependent b) q" o1 rest]
    unfolding Cons by simp
  from returns [OF this] show ?thesis
    by (auto simp: Cons barrier_waitFor_def split: sum.splits)
qed

end

text \<open>
  With a sequencer: everything from the requested sequence to the returned one is published,
  and no tracked sequence was behind the returned one when it was read.
\<close>

lemma barrier_published:
  assumes "sequencer ops wf safe claimed consumers" and "wait_strategy ws timed slack"
    and "wf s" and "barrier_waitFor ops ws b (\<sigma>, s) q obs = Some (Inr v, es, rest)"
    and "\<forall>ob\<in>set obs. barrier_dependent b (o_store ob) \<le> \<sigma> (op_cursor ops s)"
    and "\<sigma> (op_cursor ops s) - op_bufferSize ops s < q"
  shows "q - 1 \<le> v \<and> (\<forall>l. q \<le> l \<and> l \<le> v \<longrightarrow> op_isAvailable ops l (\<sigma>, s)) \<and>
    (\<exists>ob\<in>set obs. v \<le> barrier_dependent b (o_store ob))"
proof -
  obtain av ob where av: "q \<le> av" "ob \<in> set obs" "av = barrier_dependent b (o_store ob)"
      "v = op_highestPublished ops q av (\<sigma>, s)"
    using wait_strategy.barrier_value [OF assms(2,4)] by blast
  have "av \<le> \<sigma> (op_cursor ops s)" using assms(5) av(2,3) by blast
  from sequencer.highestPublished [of ops wf safe claimed consumers s q av \<sigma>, OF assms(1,3) _ this assms(6)] av(1)
  have "q - 1 \<le> v" "v \<le> av" "\<forall>l. q \<le> l \<and> l \<le> v \<longrightarrow> op_isAvailable ops l (\<sigma>, s)"
    unfolding av(4) by auto
  then show ?thesis using av(2,3) by blast
qed

section \<open>Properties\<close>

text \<open>The strategies of the library, and those of them that neither time out.\<close>

definition untimed_strategies :: "(sid \<Rightarrow> dependent \<Rightarrow> int \<Rightarrow> int wait) set" where
  "untimed_strategies =
     {busy_spin_waitFor, yielding_waitFor, blocking_waitFor, lite_blocking_waitFor} \<union>
     {w. \<exists>r t. w = sleeping_waitFor r t} \<union>
     {w. \<exists>s y. w = phased_withLock s y \<or> w = phased_withLiteLock s y \<or> w = phased_withSleep s y}"

definition timed_strategies :: "(sid \<Rightarrow> dependent \<Rightarrow> int \<Rightarrow> int wait) set" where
  "timed_strategies = {w. \<exists>t. w = timeout_blocking_waitFor t \<or> w = lite_timeout_blocking_waitFor t}"

lemma wait_strategy_slack:
  "wait_strategy w timed k \<Longrightarrow> k \<le> k' \<Longrightarrow> wait_strategy w timed k'"
  unfolding wait_strategy_def by (meson order_trans)

lemma untimed_contract:
  assumes "w \<in> untimed_strategies"
  shows "wait_strategy w False 9"
proof -
  have "(\<exists>k\<le>9. wait_strategy w False k)"
    using assms busy_spin.wait_strategy_axioms yielding.wait_strategy_axioms blocking.wait_strategy_axioms
      lite_blocking.wait_strategy_axioms sleeping.wait_strategy_axioms phased_lock.wait_strategy_axioms
      phased_lite_lock.wait_strategy_axioms phased_sleep.wait_strategy_axioms
    unfolding untimed_strategies_def by (elim UnE) (auto intro: exI[of _ 8] exI[of _ 9])
  then show ?thesis using wait_strategy_slack by blast
qed

lemma timed_contract: "w \<in> timed_strategies \<Longrightarrow> wait_strategy w True 8"
  using timeout_blocking.wait_strategy_axioms lite_timeout_blocking.wait_strategy_axioms
  by (auto simp: timed_strategies_def)

lemma good_suffix_append: "list_all P post \<Longrightarrow> length post \<le> good_suffix P (pre @ post)"
  by (auto simp: good_suffix_def takeWhile_append list_all_iff)

text \<open>C14: When \<open>waitFor\<close> of a barrier returns on a multi-producer ring, whatever the wait
  strategy, every sequence from the one asked for to the one returned is published, and no further
  than some value the dependent sequences really had; when it throws, it is an alert that was
  raised or, with a timeout strategy only, the timeout.\<close>

theorem barrier_waitFor_safe:
  assumes "ws \<in> untimed_strategies \<union> timed_strategies"
    and "barrier_waitFor mp_ops ws b (\<sigma>, s) q obs = Some (r, es, rest)"
  shows "case r of
      Inr v \<Rightarrow> q - 1 \<le> v \<and> (\<forall>l. q \<le> l \<and> l \<le> v \<longrightarrow> mp_isAvailable l s) \<and>
        (\<exists>ob\<in>set obs. v \<le> barrier_dependent b (o_store ob))
    | Inl e \<Rightarrow> e = AlertExn \<and> (\<exists>ob\<in>set obs. o_alerted ob) \<or> e = TimeoutExn \<and> ws \<in> timed_strategies"
proof -
  obtain timed k where ws: "wait_strategy ws timed k" "timed \<Longrightarrow> ws \<in> timed_strategies"
    using assms(1) untimed_contract timed_contract by blast
  show ?thesis
  proof (cases r)
    case (Inl e)
    then have "e = AlertExn \<and> (\<exists>ob\<in>set obs. o_alerted ob) \<or> e = TimeoutExn \<and> timed"
      using wait_strategy.barrier_exception[OF ws(1)] assms(2) by blast
    then show ?thesis using Inl ws(2) by auto
  next
    case (Inr v)
    then obtain av ob where av: "q \<le> av" "ob \<in> set obs" "av = barrier_dependent b (o_store ob)"
      and v: "v = op_highestPublished mp_ops q av (\<sigma>, s)"
      using wait_strategy.barrier_value[OF ws(1)] assms(2) by blast
    have "v = mp_scan s q av" using v by (simp add: mp_ops_def mp_getHighestPublishedSequence_def)
    then show ?thesis using Inr mp_scan_spec[of q av s] av by auto
  qed
qed

lemma barrier_waitFor_safe_witness:
  "barrier_waitFor mp_ops busy_spin_waitFor (new_barrier 0 [])
     (\<lambda>_. 0, demo_sequencer\<lparr>availableBuffer := [0]\<rparr>) 0
     [\<lparr>o_store = \<lambda>_. 0, o_alerted = False, o_now = 0\<rparr>, \<lparr>o_store = \<lambda>_. 0, o_alerted = False, o_now = 0\<rparr>] =
       Some (Inr 0, [], []) \<and> mp_isAvailable 0 (demo_sequencer\<lparr>availableBuffer := [0]\<rparr>)"
proof -
  let ?s = "demo_sequencer\<lparr>availableBuffer := [0]\<rparr>"
  let ?ob = "\<lparr>o_store = \<lambda>_. 0, o_alerted = False, o_now = 0\<rparr>"
  have "op_highestPublished mp_ops 0 0 (\<lambda>_. 0, ?s) = 0"
    by (simp add: mp_ops_def mp_getHighestPublishedSequence_def mp_scan.simps mp_isAvailable_def
        calculateIndex_def calculateAvailabilityFlag_def demo_sequencer_def wrap32_def)
  then have r: "barrier_waitFor mp_ops busy_spin_waitFor (new_barrier 0 []) (\<lambda>_. 0, ?s) 0 [?ob, ?ob] =
      Some (Inr 0, [], [])"
    by (simp add: barrier_waitFor_def busy_spin_waitFor_def new_barrier_def barrier_dependent_def seq_get_def)
  show ?thesis
    using barrier_waitFor_safe[OF _ r] r by (auto simp: untimed_strategies_def)
qed



end
