(* ===== verification/Signalling.thy ===== *)
theory Signalling
  imports Prelude
begin

text \<open>
  The signalling protocol of the blocking wait strategies (\<open>BlockingWaitStrategy.h\<close>,
  \<open>LiteBlockingWaitStrategy.h\<close>, \<open>LiteTimeoutBlockingWaitStrategy.h\<close>, with
  \<open>TimeoutBlockingWaitStrategy.h\<close> signalling like the first): a step relation with one step per
  read, store, lock operation or notification, any number of waiting consumers and any number of
  threads that publish or alert and then call \<open>signalAllWhenBlocking\<close>.

  The question is whether a wake-up can be lost: a consumer blocked on the condition variable
  although what it waits for has happened and nobody is going to notify it.
\<close>

section \<open>States\<close>

datatype protocol = Blocking | LiteBlocking | LiteTimeoutBlocking

datatype consumer_pc =
    C_first      \<comment> \<open>before the first test, made without the lock\<close>
  | C_acquire    \<comment> \<open>about to lock the mutex\<close>
  | C_store      \<comment> \<open>about to set \<open>signalNeeded_\<close>\<close>
  | C_test       \<comment> \<open>about to read the cursor under the lock\<close>
  | C_alert      \<comment> \<open>about to check the alert\<close>
  | C_wait       \<comment> \<open>about to wait on the condition variable\<close>
  | C_waiting    \<comment> \<open>blocked, the mutex released\<close>
  | C_woken      \<comment> \<open>about to lock the mutex again\<close>
  | C_loop       \<comment> \<open>about to evaluate the condition of the do-while loop\<close>
  | C_done
  | C_thrown

datatype signaller_pc =
    S_idle
  | S_signal     \<comment> \<open>entered \<open>signalAllWhenBlocking\<close>\<close>
  | S_notify     \<comment> \<open>about to lock, notify all and unlock\<close>

record sig_state =
  published_upto :: int
  any_alert :: bool
  signalNeeded :: bool
  mutex :: "nat option"
  consumer :: "nat \<Rightarrow> consumer_pc"
  signaller :: "nat \<Rightarrow> signaller_pc"

definition sig_init :: sig_state where
  "sig_init = \<lparr>published_upto = INITIAL_VALUE, any_alert = False, signalNeeded = False, mutex = None,
     consumer = (\<lambda>_. C_first), signaller = (\<lambda>_. S_idle)\<rparr>"

text \<open>The program counters at which a consumer holds the mutex.\<close>

definition holds_mutex :: "consumer_pc \<Rightarrow> bool" where
  "holds_mutex pc \<longleftrightarrow> pc \<in> {C_store, C_test, C_alert, C_wait, C_loop}"

section \<open>Steps\<close>

text \<open>Where a consumer goes with the lock: first time, after a failed test, after a wake-up.\<close>

fun after_lock :: "protocol \<Rightarrow> consumer_pc" where
  "after_lock Blocking = C_test"
| "after_lock LiteBlocking = C_store"
| "after_lock LiteTimeoutBlocking = C_test"

fun after_test :: "protocol \<Rightarrow> consumer_pc" where
  "after_test Blocking = C_alert"
| "after_test LiteBlocking = C_alert"
| "after_test LiteTimeoutBlocking = C_store"

fun after_store :: "protocol \<Rightarrow> consumer_pc" where
  "after_store Blocking = C_test"
| "after_store LiteBlocking = C_test"
| "after_store LiteTimeoutBlocking = C_alert"

fun after_relock :: "protocol \<Rightarrow> consumer_pc" where
  "after_relock Blocking = C_test"
| "after_relock LiteBlocking = C_loop"
| "after_relock LiteTimeoutBlocking = C_test"

text \<open>What \<open>notify_all\<close> does to the waiting consumers.\<close>

definition wake_all :: "(nat \<Rightarrow> consumer_pc) \<Rightarrow> nat \<Rightarrow> consumer_pc" where
  "wake_all c i = (if c i = C_waiting then C_woken else c i)"

text \<open>\<open>goal i\<close> is the sequence consumer \<open>i\<close> waits for.\<close>

inductive sig_step :: "protocol \<Rightarrow> (nat \<Rightarrow> int) \<Rightarrow> sig_state \<Rightarrow> sig_state \<Rightarrow> bool"
  for p :: protocol and goal :: "nat \<Rightarrow> int" where
  first_pass: "consumer s i = C_first \<Longrightarrow> \<not> published_upto s < goal i \<Longrightarrow>
    sig_step p goal s (s\<lparr>consumer := (consumer s)(i := C_done)\<rparr>)"
| first_fail: "consumer s i = C_first \<Longrightarrow> published_upto s < goal i \<Longrightarrow>
    sig_step p goal s (s\<lparr>consumer := (consumer s)(i := C_acquire)\<rparr>)"
| acquire: "consumer s i = C_acquire \<Longrightarrow> mutex s = None \<Longrightarrow>
    sig_step p goal s (s\<lparr>mutex := Some i, consumer := (consumer s)(i := after_lock p)\<rparr>)"
| store_flag: "consumer s i = C_store \<Longrightarrow>
    sig_step p goal s (s\<lparr>signalNeeded := True, consumer := (consumer s)(i := after_store p)\<rparr>)"
| test_pass: "consumer s i = C_test \<or> consumer s i = C_loop \<Longrightarrow> \<not> published_upto s < goal i \<Longrightarrow>
    sig_step p goal s (s\<lparr>mutex := None, consumer := (consumer s)(i := C_done)\<rparr>)"
| test_fail: "consumer s i = C_test \<Longrightarrow> published_upto s < goal i \<Longrightarrow>
    sig_step p goal s (s\<lparr>consumer := (consumer s)(i := after_test p)\<rparr>)"
| loop_again: "consumer s i = C_loop \<Longrightarrow> published_upto s < goal i \<Longrightarrow>
    sig_step p goal s (s\<lparr>consumer := (consumer s)(i := C_store)\<rparr>)"
| alert_throw: "consumer s i = C_alert \<Longrightarrow> any_alert s \<Longrightarrow>
    sig_step p goal s (s\<lparr>mutex := None, consumer := (consumer s)(i := C_thrown)\<rparr>)"
| alert_pass: "consumer s i = C_alert \<Longrightarrow> \<not> any_alert s \<Longrightarrow>
    sig_step p goal s (s\<lparr>consumer := (consumer s)(i := C_wait)\<rparr>)"
| wait: "consumer s i = C_wait \<Longrightarrow>
    sig_step p goal s (s\<lparr>mutex := None, consumer := (consumer s)(i := C_waiting)\<rparr>)"
| spurious: "consumer s i = C_waiting \<Longrightarrow>
    sig_step p goal s (s\<lparr>consumer := (consumer s)(i := C_woken)\<rparr>)"
| relock: "consumer s i = C_woken \<Longrightarrow> mutex s = None \<Longrightarrow>
    sig_step p goal s (s\<lparr>mutex := Some i, consumer := (consumer s)(i := after_relock p)\<rparr>)"
| publish: "signaller s t = S_idle \<Longrightarrow> published_upto s \<le> q \<Longrightarrow>
    sig_step p goal s (s\<lparr>published_upto := q, signaller := (signaller s)(t := S_signal)\<rparr>)"
| raise_alert: "signaller s t = S_idle \<Longrightarrow>
    sig_step p goal s (s\<lparr>any_alert := True, signaller := (signaller s)(t := S_signal)\<rparr>)"
| signal_blocking: "signaller s t = S_signal \<Longrightarrow> p = Blocking \<Longrightarrow>
    sig_step p goal s (s\<lparr>signaller := (signaller s)(t := S_notify)\<rparr>)"
| signal_exchange: "signaller s t = S_signal \<Longrightarrow> p \<noteq> Blocking \<Longrightarrow>
    sig_step p goal s (s\<lparr>signalNeeded := False,
      signaller := (signaller s)(t := (if signalNeeded s then S_notify else S_idle))\<rparr>)"
| notify: "signaller s t = S_notify \<Longrightarrow> mutex s = None \<Longrightarrow>
    sig_step p goal s (s\<lparr>consumer := wake_all (consumer s), signaller := (signaller s)(t := S_idle)\<rparr>)"

inductive sig_reach :: "protocol \<Rightarrow> (nat \<Rightarrow> int) \<Rightarrow> sig_state \<Rightarrow> bool"
  for p :: protocol and goal :: "nat \<Rightarrow> int" where
  start: "sig_reach p goal sig_init"
| step: "sig_reach p goal s \<Longrightarrow> sig_step p goal s s' \<Longrightarrow> sig_reach p goal s'"

section \<open>Mutual exclusion\<close>

text \<open>The invariants, on the components of the state they depend on.\<close>

definition mutex_ok :: "nat option \<Rightarrow> (nat \<Rightarrow> consumer_pc) \<Rightarrow> bool" where
  "mutex_ok m c \<longleftrightarrow> (\<forall>i. holds_mutex (c i) \<longleftrightarrow> m = Some i)"

lemma mutex_keep: "mutex_ok m c \<Longrightarrow> holds_mutex pc = holds_mutex (c i) \<Longrightarrow> mutex_ok m (c(i := pc))"
  by (simp add: mutex_ok_def)

lemma mutex_take: "mutex_ok None c \<Longrightarrow> holds_mutex pc \<Longrightarrow> mutex_ok (Some i) (c(i := pc))"
  by (auto simp: mutex_ok_def)

lemma mutex_release:
  "mutex_ok m c \<Longrightarrow> holds_mutex (c i) \<Longrightarrow> \<not> holds_mutex pc \<Longrightarrow> mutex_ok None (c(i := pc))"
  by (force simp: mutex_ok_def)

lemma mutex_wake: "mutex_ok m c \<Longrightarrow> mutex_ok m (wake_all c)"
proof -
  have "holds_mutex (wake_all c i) = holds_mutex (c i)" for i
    by (cases "c i") (simp_all add: wake_all_def holds_mutex_def)
  then show "mutex_ok m c \<Longrightarrow> mutex_ok m (wake_all c)" by (simp add: mutex_ok_def)
qed

lemma holds_pcs [simp]:
  "\<not> holds_mutex C_first" "\<not> holds_mutex C_acquire" "holds_mutex C_store" "holds_mutex C_test"
  "holds_mutex C_alert" "holds_mutex C_wait" "\<not> holds_mutex C_waiting" "\<not> holds_mutex C_woken"
  "holds_mutex C_loop" "\<not> holds_mutex C_done" "\<not> holds_mutex C_thrown"
  by (simp_all add: holds_mutex_def)

lemma after_holds [simp]:
  "holds_mutex (after_lock p)" "holds_mutex (after_test p)" "holds_mutex (after_store p)"
  "holds_mutex (after_relock p)"
  by (cases p; simp)+

lemma sig_step_mutex:
  assumes "sig_step p goal s s'" and "mutex_ok (mutex s) (consumer s)"
  shows "mutex_ok (mutex s') (consumer s')"
  using assms
  by (cases rule: sig_step.cases)
    (auto intro: mutex_keep mutex_take mutex_release mutex_wake)

section \<open>No wake-up is lost\<close>

text \<open>
  Consumer \<open>i\<close> has gone past its test although what it waits for has happened since.
\<close>

definition missed :: "int \<Rightarrow> bool \<Rightarrow> int \<Rightarrow> consumer_pc \<Rightarrow> bool" where
  "missed goal_i al pub pc \<longleftrightarrow>
     goal_i \<le> pub \<and> (pc = C_alert \<or> pc = C_wait \<or> pc = C_waiting) \<or>
     al \<and> (pc = C_wait \<or> pc = C_waiting)"

text \<open>Somebody will still signal.\<close>

definition signal_pending :: "(nat \<Rightarrow> signaller_pc) \<Rightarrow> bool" where
  "signal_pending sg \<longleftrightarrow> (\<exists>t. sg t \<noteq> S_idle)"

definition notify_pending :: "(nat \<Rightarrow> signaller_pc) \<Rightarrow> bool" where
  "notify_pending sg \<longleftrightarrow> (\<exists>t. sg t = S_notify)"

text \<open>A consumer that has set the flag and may be going to wait.\<close>

definition committed :: "consumer_pc \<Rightarrow> bool" where
  "committed pc \<longleftrightarrow> pc = C_test \<or> pc = C_alert \<or> pc = C_wait \<or> pc = C_waiting"

definition wakeups_ok :: "(nat \<Rightarrow> int) \<Rightarrow> sig_state \<Rightarrow> bool" where
  "wakeups_ok goal s \<longleftrightarrow>
     ((\<exists>i. missed (goal i) (any_alert s) (published_upto s) (consumer s i)) \<longrightarrow> signal_pending (signaller s))"

definition flag_ok :: "sig_state \<Rightarrow> bool" where
  "flag_ok s \<longleftrightarrow>
     ((\<exists>i. committed (consumer s i)) \<longrightarrow> signalNeeded s \<or> notify_pending (signaller s))"

lemma notified:
  assumes "mutex_ok None c"
  shows "\<not> committed (wake_all c i)" and "\<not> missed g al pub (wake_all c i)"
proof -
  have "\<not> holds_mutex (c i)" using assms by (simp add: mutex_ok_def)
  then have "wake_all c i \<notin> {C_test, C_alert, C_wait, C_waiting}"
    by (cases "c i") (auto simp: wake_all_def)
  then show "\<not> committed (wake_all c i)" and "\<not> missed g al pub (wake_all c i)"
    by (auto simp: committed_def missed_def)
qed

lemma missed_committed: "missed g al pub pc \<Longrightarrow> committed pc"
  by (auto simp: missed_def committed_def)

lemma pending_simps [simp]:
  "signal_pending (sg(t := S_signal))" "signal_pending (sg(t := S_notify))"
  "notify_pending (sg(t := S_notify))"
  by (force simp: signal_pending_def notify_pending_def)+

lemma notify_pending_signal [simp]: "notify_pending sg \<Longrightarrow> signal_pending sg"
  unfolding signal_pending_def notify_pending_def by (metis signaller_pc.distinct(3))

lemma notify_pending_upd:
  "sg t \<noteq> S_notify \<Longrightarrow> notify_pending sg \<Longrightarrow> notify_pending (sg(t := pc))"
  by (auto simp: notify_pending_def)

lemma one_consumer:
  "(\<exists>j. P j ((c(i := pc)) j)) \<Longrightarrow> (P i pc \<Longrightarrow> P i (c i)) \<Longrightarrow> \<exists>j. P j (c j)"
  by (metis fun_upd_apply)

text \<open>Steps of a consumer that do not take it past a test whose outcome has changed.\<close>

lemma wakeups_consumer:
  assumes "wakeups_ok goal s"
    and "missed (goal i) (any_alert s) (published_upto s) pc \<Longrightarrow>
         missed (goal i) (any_alert s) (published_upto s) (consumer s i)"
  shows "wakeups_ok goal (s\<lparr>consumer := (consumer s)(i := pc)\<rparr>)"
    and "wakeups_ok goal (s\<lparr>mutex := m, consumer := (consumer s)(i := pc)\<rparr>)"
    and "wakeups_ok goal (s\<lparr>signalNeeded := b, consumer := (consumer s)(i := pc)\<rparr>)"
  using assms one_consumer [of "\<lambda>i pc. missed (goal i) (any_alert s) (published_upto s) pc" "consumer s" i pc]
  by (auto simp: wakeups_ok_def simp del: fun_upd_apply)

lemma flag_consumer:
  assumes "flag_ok s" and "committed pc \<Longrightarrow> committed (consumer s i)"
  shows "flag_ok (s\<lparr>consumer := (consumer s)(i := pc)\<rparr>)"
    and "flag_ok (s\<lparr>mutex := m, consumer := (consumer s)(i := pc)\<rparr>)"
  using assms one_consumer [of "\<lambda>i pc. committed pc" "consumer s" i pc]
  by (auto simp: flag_ok_def simp del: fun_upd_apply)

lemma flag_exchange:
  assumes "flag_ok s" and "signaller s t = S_signal"
  shows "flag_ok (s\<lparr>signalNeeded := False,
      signaller := (signaller s)(t := (if signalNeeded s then S_notify else S_idle))\<rparr>)"
  using assms notify_pending_upd [of "signaller s" t] by (auto simp: flag_ok_def)

lemma sig_step_flag:
  assumes "sig_step LiteBlocking goal s s'" and "mutex_ok (mutex s) (consumer s)" and "flag_ok s"
  shows "flag_ok s'"
  using assms
proof (cases rule: sig_step.cases)
  case (notify t)
  then show ?thesis using assms(2) notified(1) by (auto simp: flag_ok_def)
next
  case (signal_exchange t)
  then show ?thesis using flag_exchange [OF assms(3)] by simp
next
  case (store_flag i)
  then show ?thesis by (simp add: flag_ok_def)
next
  case (publish t q)
  then show ?thesis using assms(3) notify_pending_upd [of "signaller s" t] by (auto simp: flag_ok_def)
next
  case (raise_alert t)
  then show ?thesis using assms(3) notify_pending_upd [of "signaller s" t] by (auto simp: flag_ok_def)
qed (use assms(3) in \<open>auto intro!: flag_consumer simp: committed_def\<close>)

lemma sig_step_wakeups:
  assumes "sig_step p goal s s'" and "mutex_ok (mutex s) (consumer s)" and "wakeups_ok goal s"
    and "p = Blocking \<or> p = LiteBlocking \<and> flag_ok s"
  shows "wakeups_ok goal s'"
  using assms(1)
proof (cases rule: sig_step.cases)
  case (notify t)
  then show ?thesis using assms(2) notified(2) by (auto simp: wakeups_ok_def)
next
  case (signal_exchange t)
  then have flag: "flag_ok s" using assms(4) by simp
  show ?thesis
  proof (cases "signalNeeded s")
    case True
    then show ?thesis using signal_exchange by (simp add: wakeups_ok_def)
  next
    case False
    have "notify_pending ((signaller s)(t := S_idle))"
      if "missed (goal i) (any_alert s) (published_upto s) (consumer s i)" for i
    proof -
      have "notify_pending (signaller s)"
        using flag False missed_committed [OF that] by (auto simp: flag_ok_def)
      then show ?thesis using signal_exchange(2) by (intro notify_pending_upd) simp_all
    qed
    then show ?thesis using signal_exchange False by (auto simp: wakeups_ok_def)
  qed
next
  case (signal_blocking t)
  then show ?thesis by (simp add: wakeups_ok_def)
next
  case (publish t q)
  then show ?thesis by (simp add: wakeups_ok_def)
next
  case (raise_alert t)
  then show ?thesis by (simp add: wakeups_ok_def)
next
  case (store_flag i)
  then show ?thesis using assms(3,4)
    by (cases p) (auto intro!: wakeups_consumer simp: missed_def)
next
  case (acquire i)
  then show ?thesis using assms(3)
    by (cases p) (auto intro!: wakeups_consumer simp: missed_def)
next
  case (relock i)
  then show ?thesis using assms(3)
    by (cases p) (auto intro!: wakeups_consumer simp: missed_def)
next
  case (test_fail i)
  then show ?thesis using assms(3,4)
    by (cases p) (auto intro!: wakeups_consumer simp: missed_def)
qed (use assms(3) in \<open>auto intro!: wakeups_consumer simp: missed_def\<close>)

lemma sig_reach_inv:
  assumes "sig_reach p goal s" and "p = Blocking \<or> p = LiteBlocking"
  shows "mutex_ok (mutex s) (consumer s) \<and> wakeups_ok goal s \<and> (p = LiteBlocking \<longrightarrow> flag_ok s)"
  using assms(1)
proof (induction rule: sig_reach.induct)
  case start
  show ?case
    by (simp add: sig_init_def mutex_ok_def wakeups_ok_def flag_ok_def missed_def committed_def)
next
  case (step s s')
  have "flag_ok s'" if "p = LiteBlocking"
    using step that sig_step_flag [of goal s s'] by simp
  then show ?case
    using step sig_step_mutex [of p goal s s'] sig_step_wakeups [of p goal s s'] assms(2) by auto
qed

text \<open>C6: With \<open>BlockingWaitStrategy\<close> and \<open>LiteBlockingWaitStrategy\<close> no wake-up is lost: in every
  reachable state, a consumer blocked on the condition variable while no thread is inside
  \<open>signalAllWhenBlocking\<close> is waiting for a sequence that is not published, and no alert is
  raised.\<close>

theorem no_lost_wakeup:
  assumes "sig_reach p goal s" and "p = Blocking \<or> p = LiteBlocking"
    and "consumer s i = C_waiting" and "\<forall>t. signaller s t = S_idle"
  shows "published_upto s < goal i \<and> \<not> any_alert s"
proof (rule ccontr)
  assume "\<not> (published_upto s < goal i \<and> \<not> any_alert s)"
  then have "missed (goal i) (any_alert s) (published_upto s) (consumer s i)"
    using assms(3) by (auto simp: missed_def)
  then have "signal_pending (signaller s)"
    using sig_reach_inv [OF assms(1,2)] by (auto simp: wakeups_ok_def)
  then show False using assms(4) by (simp add: signal_pending_def)
qed

text \<open>A run: consumer 0 waits for sequence 0 and blocks before anything is published.\<close>

definition blocked_run :: sig_state where
  "blocked_run = sig_init\<lparr>consumer := (\<lambda>_. C_first)(0 := C_waiting)\<rparr>"

lemma blocked_run_reach: "sig_reach Blocking (\<lambda>_. 0) blocked_run"
proof -
  let ?c = "\<lambda>pc. (\<lambda>_. C_first)(0 := pc) :: nat \<Rightarrow> consumer_pc"
  note steps = sig_reach.step sig_step.intros
  have 1: "sig_reach Blocking (\<lambda>_. 0) (sig_init\<lparr>consumer := ?c C_acquire\<rparr>)"
    using sig_reach.step [OF sig_reach.start sig_step.first_fail [of sig_init 0 "\<lambda>_. 0" Blocking]]
    by (simp add: sig_init_def INITIAL_VALUE_def)
  have 2: "sig_reach Blocking (\<lambda>_. 0) (sig_init\<lparr>consumer := ?c C_test, mutex := Some 0\<rparr>)"
    using sig_reach.step [OF 1 sig_step.acquire [of _ 0]] by (simp add: sig_init_def)
  have 3: "sig_reach Blocking (\<lambda>_. 0) (sig_init\<lparr>consumer := ?c C_alert, mutex := Some 0\<rparr>)"
    using sig_reach.step [OF 2 sig_step.test_fail [of _ 0]] by (simp add: sig_init_def INITIAL_VALUE_def)
  have 4: "sig_reach Blocking (\<lambda>_. 0) (sig_init\<lparr>consumer := ?c C_wait, mutex := Some 0\<rparr>)"
    using sig_reach.step [OF 3 sig_step.alert_pass [of _ 0]] by (simp add: sig_init_def)
  show ?thesis
    using sig_reach.step [OF 4 sig_step.wait [of _ 0]] by (simp add: sig_init_def blocked_run_def)
qed

lemma no_lost_wakeup_witness: "published_upto blocked_run < 0 \<and> \<not> any_alert blocked_run"
  using no_lost_wakeup [OF blocked_run_reach, of 0] by (simp add: blocked_run_def sig_init_def)

text \<open>C11: \<open>LiteTimeoutBlockingWaitStrategy\<close> can lose a wake-up: it sets its flag after the last test
  of the cursor, so a producer that publishes and signals in between finds the flag clear.  A
  state is reachable in which the consumer is blocked, its sequence is published and no
  thread is going to notify it; only the timeout ends the wait.\<close>

theorem lite_timeout_lost_wakeup:
  "\<exists>s. sig_reach LiteTimeoutBlocking (\<lambda>_. 0) s \<and> consumer s 0 = C_waiting \<and>
     0 \<le> published_upto s \<and> (\<forall>t. signaller s t = S_idle)"
proof -
  let ?c = "\<lambda>pc. (\<lambda>_. C_first)(0 := pc) :: nat \<Rightarrow> consumer_pc"
  let ?R = "sig_reach LiteTimeoutBlocking (\<lambda>_. 0)"
  have 1: "?R (sig_init\<lparr>consumer := ?c C_acquire\<rparr>)"
    using sig_reach.step [OF sig_reach.start sig_step.first_fail [of sig_init 0 "\<lambda>_. 0" LiteTimeoutBlocking]]
    by (simp add: sig_init_def INITIAL_VALUE_def)
  have 2: "?R (sig_init\<lparr>consumer := ?c C_test, mutex := Some 0\<rparr>)"
    using sig_reach.step [OF 1 sig_step.acquire [of _ 0]] by (simp add: sig_init_def)
  have 3: "?R (sig_init\<lparr>consumer := ?c C_store, mutex := Some 0\<rparr>)"
    using sig_reach.step [OF 2 sig_step.test_fail [of _ 0]] by (simp add: sig_init_def INITIAL_VALUE_def)
  have 4: "?R (sig_init\<lparr>consumer := ?c C_store, mutex := Some 0, published_upto := 0,
      signaller := (\<lambda>_. S_idle)(0 := S_signal)\<rparr>)"
    using sig_reach.step [OF 3 sig_step.publish [of _ 0 0]] by (simp add: sig_init_def INITIAL_VALUE_def)
  have 5: "?R (sig_init\<lparr>consumer := ?c C_store, mutex := Some 0, published_upto := 0\<rparr>)"
    using sig_reach.step [OF 4 sig_step.signal_exchange [of _ 0]]
    by (simp add: sig_init_def fun_upd_idem)
  have 6: "?R (sig_init\<lparr>consumer := ?c C_alert, mutex := Some 0, published_upto := 0, signalNeeded := True\<rparr>)"
    using sig_reach.step [OF 5 sig_step.store_flag [of _ 0]] by (simp add: sig_init_def)
  have 7: "?R (sig_init\<lparr>consumer := ?c C_wait, mutex := Some 0, published_upto := 0, signalNeeded := True\<rparr>)"
    using sig_reach.step [OF 6 sig_step.alert_pass [of _ 0]] by (simp add: sig_init_def)
  have "?R (sig_init\<lparr>consumer := ?c C_waiting, published_upto := 0, signalNeeded := True\<rparr>)"
    using sig_reach.step [OF 7 sig_step.wait [of _ 0]] by (simp add: sig_init_def)
  then show ?thesis
    by (rule exI [of _ "sig_init\<lparr>consumer := ?c C_waiting, published_upto := 0, signalNeeded := True\<rparr>", OF conjI])
      (simp add: sig_init_def)
qed

end
