(* ===== verification/Batch_Processor.thy ===== *)
theory Batch_Processor
  imports Barrier
begin

text \<open>
  \<open>BatchEventProcessor\<close> (\<open>include/disruptor/BatchEventProcessor.h\<close>), its builder, the exception
  handlers and the batch rewind strategies.

  The event handler, the exception handler and the rewind strategy are user code: functions on
  a user state that may end with an exception.  The loop of \<open>processEvents\<close> runs against a
  script, one element per iteration: what the other threads do to the world before the
  iteration's \<open>waitFor\<close> returns (publish, mutate events, halt the processor), and what it
  returns.  \<open>None\<close> is a loop still running when the script ends.  The calls made to the handlers
  are logged, in order.
\<close>

section \<open>User code\<close>

type_synonym ('x, 'h) callback = "'x \<Rightarrow> 'h \<Rightarrow> exn option \<times> 'h"

record ('e, 'h) event_handler =
  onEvent :: "'e \<Rightarrow> int \<Rightarrow> bool \<Rightarrow> 'h \<Rightarrow> exn option \<times> 'e \<times> 'h"
  onBatchStart :: "int \<Rightarrow> int \<Rightarrow> 'h \<Rightarrow> exn option \<times> 'h"
  onStart :: "'h \<Rightarrow> exn option \<times> 'h"
  onShutdown :: "'h \<Rightarrow> exn option \<times> 'h"
  onTimeout :: "int \<Rightarrow> 'h \<Rightarrow> exn option \<times> 'h"
  isRewindable :: bool

text \<open>What \<open>EventHandlerBase\<close> supplies for the methods a handler does not override.\<close>

definition EventHandlerBase ::
  "('e \<Rightarrow> int \<Rightarrow> bool \<Rightarrow> 'h \<Rightarrow> exn option \<times> 'e \<times> 'h) \<Rightarrow> ('e, 'h) event_handler" where
  "EventHandlerBase f =
     \<lparr>onEvent = f, onBatchStart = (\<lambda>_ _ h. (None, h)), onStart = (\<lambda>h. (None, h)),
      onShutdown = (\<lambda>h. (None, h)), onTimeout = (\<lambda>_ h. (None, h)), isRewindable = False\<rparr>"

record ('e, 'h) exception_handler =
  eh_handleEventException :: "exn \<Rightarrow> int \<Rightarrow> 'e option \<Rightarrow> 'h \<Rightarrow> exn option \<times> 'h"
  eh_handleOnStartException :: "exn \<Rightarrow> 'h \<Rightarrow> exn option \<times> 'h"
  eh_handleOnShutdownException :: "exn \<Rightarrow> 'h \<Rightarrow> exn option \<times> 'h"

definition FatalExceptionHandler :: "('e, 'h) exception_handler" where
  "FatalExceptionHandler =
     \<lparr>eh_handleEventException = (\<lambda>ex q ev h. (Some (RuntimeErr (exn_what ex)), h)),
      eh_handleOnStartException = (\<lambda>ex h. (None, h)),
      eh_handleOnShutdownException = (\<lambda>ex h. (None, h))\<rparr>"

definition IgnoreExceptionHandler :: "('e, 'h) exception_handler" where
  "IgnoreExceptionHandler =
     \<lparr>eh_handleEventException = (\<lambda>ex q ev h. (None, h)),
      eh_handleOnStartException = (\<lambda>ex h. (None, h)),
      eh_handleOnShutdownException = (\<lambda>ex h. (None, h))\<rparr>"

definition defaultHandler :: "('e, 'h) exception_handler" where
  "defaultHandler = FatalExceptionHandler"

datatype rewind_action = REWIND | THROW

type_synonym 'h rewind_strategy = "exn \<Rightarrow> int \<Rightarrow> 'h \<Rightarrow> rewind_action \<times> 'h"

definition SimpleBatchRewindStrategy :: "'h rewind_strategy" where
  "SimpleBatchRewindStrategy e attempts h = (REWIND, h)"

definition EventuallyGiveUpBatchRewindStrategy :: "int \<Rightarrow> 'h rewind_strategy" where
  "EventuallyGiveUpBatchRewindStrategy maxAttempts e attempts h =
     (if attempts = maxAttempts then (THROW, h) else (REWIND, h))"

text \<open>The pause only takes time.\<close>

definition NanosecondPauseBatchRewindStrategy :: "int \<Rightarrow> 'h rewind_strategy" where
  "NanosecondPauseBatchRewindStrategy nanoSecondPauseTime e attempts h = (REWIND, h)"

section \<open>State\<close>

datatype run_state = IDLE | HALTED | RUNNING

datatype 'h rewind_handler = NoRewindHandler | TryRewindHandler "'h rewind_strategy option"

record ('e, 'h) processor =
  running :: run_state
  exceptionHandler :: "('e, 'h) exception_handler option"
  eventHandler :: "('e, 'h) event_handler"
  batchLimitOffset :: int
  p_sequence :: sid
  rewindHandler :: "'h rewind_handler"
  retriesAttempted :: int

datatype 'e call =
    OnStart
  | OnShutdown
  | OnBatchStart int int
  | OnEvent 'e int bool
  | OnTimeout int
  | HandleEventException exn int "'e option"
  | HandleOnStartException exn
  | HandleOnShutdownException exn

text \<open>
  The world of one processor: the store of sequences, the events as the data provider hands
  them out, the barrier, the processor, the user state, and the log of calls.
\<close>

record ('e, 'h) pworld =
  w_store :: store
  w_data :: "int \<Rightarrow> 'e"
  w_barrier :: barrier
  w_proc :: "('e, 'h) processor"
  w_user :: 'h
  w_calls :: "'e call list"

definition new_processor ::
  "sid \<Rightarrow> ('e, 'h) event_handler \<Rightarrow> int \<Rightarrow> 'h rewind_strategy option \<Rightarrow> exn + ('e, 'h) processor" where
  "new_processor sequenceId handler maxBatchSize batchRewindStrategy =
     (if maxBatchSize < 1 then Inl (InvalidArgument ''maxBatchSize must be greater than 0'')
      else Inr \<lparr>running = IDLE, exceptionHandler = None, eventHandler = handler,
        batchLimitOffset = maxBatchSize - 1, p_sequence = sequenceId,
        rewindHandler = (if isRewindable handler then TryRewindHandler batchRewindStrategy
                         else NoRewindHandler),
        retriesAttempted = 0\<rparr>)"

text \<open>\<open>BatchEventProcessorBuilder\<close>: the default batch size is the largest \<open>int\<close>.\<close>

record builder =
  maxBatchSize :: int

definition new_builder :: builder where
  "new_builder = \<lparr>maxBatchSize = int32_max\<rparr>"

definition setMaxBatchSize :: "int \<Rightarrow> builder \<Rightarrow> builder" where
  "setMaxBatchSize n b = b\<lparr>maxBatchSize := n\<rparr>"

text \<open>The second result is the sequence passed to \<open>setSequenceCallback\<close>.\<close>

definition build :: "builder \<Rightarrow> sid \<Rightarrow> ('e, 'h) event_handler \<Rightarrow> exn + ('e, 'h) processor \<times> sid" where
  "build b sequenceId handler =
     map_sum id (\<lambda>p. (p, p_sequence p)) (new_processor sequenceId handler (maxBatchSize b) None)"

definition build_rewindable ::
  "builder \<Rightarrow> sid \<Rightarrow> ('e, 'h) event_handler \<Rightarrow> 'h rewind_strategy \<Rightarrow> exn + ('e, 'h) processor" where
  "build_rewindable b sequenceId handler strategy =
     new_processor sequenceId handler (maxBatchSize b) (Some strategy)"

section \<open>Small operations\<close>

definition getSequence :: "('e, 'h) processor \<Rightarrow> sid" where
  "getSequence p = p_sequence p"

definition isRunning :: "('e, 'h) processor \<Rightarrow> bool" where
  "isRunning p = (running p \<noteq> IDLE)"

definition setExceptionHandler :: "('e, 'h) exception_handler \<Rightarrow> ('e, 'h) processor \<Rightarrow> ('e, 'h) processor" where
  "setExceptionHandler eh p = p\<lparr>exceptionHandler := Some eh\<rparr>"

definition set_running :: "run_state \<Rightarrow> ('e, 'h) pworld \<Rightarrow> ('e, 'h) pworld" where
  "set_running r w = w\<lparr>w_proc := (w_proc w)\<lparr>running := r\<rparr>\<rparr>"

definition halt :: "('e, 'h) pworld \<Rightarrow> ('e, 'h) pworld" where
  "halt w = (set_running HALTED w)\<lparr>w_barrier := alert (w_barrier w)\<rparr>"

definition getExceptionHandler :: "('e, 'h) processor \<Rightarrow> ('e, 'h) exception_handler" where
  "getExceptionHandler p = (case exceptionHandler p of None \<Rightarrow> defaultHandler | Some eh \<Rightarrow> eh)"

text \<open>Calling user code: log the call, run it on the user state.\<close>

definition call_user ::
  "'e call \<Rightarrow> ('h \<Rightarrow> exn option \<times> 'h) \<Rightarrow> ('e, 'h) pworld \<Rightarrow> exn option \<times> ('e, 'h) pworld" where
  "call_user c f w =
     (let (x, h) = f (w_user w) in (x, w\<lparr>w_user := h, w_calls := w_calls w @ [c]\<rparr>))"

definition handleEventException ::
  "exn \<Rightarrow> int \<Rightarrow> 'e option \<Rightarrow> ('e, 'h) pworld \<Rightarrow> ('e, 'h) pworld" where
  "handleEventException ex sequence event w =
     (let (x, w1) = call_user (HandleEventException ex sequence event)
            (eh_handleEventException (getExceptionHandler (w_proc w)) ex sequence event) w
      in case x of None \<Rightarrow> w1 | Some _ \<Rightarrow> halt w1)"

definition handleOnStartException :: "exn \<Rightarrow> ('e, 'h) pworld \<Rightarrow> exn option \<times> ('e, 'h) pworld" where
  "handleOnStartException ex w =
     call_user (HandleOnStartException ex) (eh_handleOnStartException (getExceptionHandler (w_proc w)) ex) w"

definition handleOnShutdownException :: "exn \<Rightarrow> ('e, 'h) pworld \<Rightarrow> exn option \<times> ('e, 'h) pworld" where
  "handleOnShutdownException ex w =
     call_user (HandleOnShutdownException ex) (eh_handleOnShutdownException (getExceptionHandler (w_proc w)) ex) w"

definition notifyStart :: "('e, 'h) pworld \<Rightarrow> exn option \<times> ('e, 'h) pworld" where
  "notifyStart w =
     (case call_user OnStart (onStart (eventHandler (w_proc w))) w of
        (None, w1) \<Rightarrow> (None, w1)
      | (Some ex, w1) \<Rightarrow> if is_std_exception ex then handleOnStartException ex w1 else (Some ex, w1))"

definition notifyShutdown :: "('e, 'h) pworld \<Rightarrow> exn option \<times> ('e, 'h) pworld" where
  "notifyShutdown w =
     (case call_user OnShutdown (onShutdown (eventHandler (w_proc w))) w of
        (None, w1) \<Rightarrow> (None, w1)
      | (Some ex, w1) \<Rightarrow> if is_std_exception ex then handleOnShutdownException ex w1 else (Some ex, w1))"

definition notifyTimeout :: "int \<Rightarrow> ('e, 'h) pworld \<Rightarrow> exn option \<times> ('e, 'h) pworld" where
  "notifyTimeout availableSequence w =
     (case call_user (OnTimeout availableSequence) (onTimeout (eventHandler (w_proc w)) availableSequence) w of
        (None, w1) \<Rightarrow> (None, w1)
      | (Some ex, w1) \<Rightarrow>
          if is_std_exception ex then (None, handleEventException ex availableSequence None w1)
          else (Some ex, w1))"

text \<open>The sequence of the processor.\<close>

definition p_get :: "('e, 'h) pworld \<Rightarrow> int" where
  "p_get w = seq_get (w_store w) (p_sequence (w_proc w))"

definition p_set :: "int \<Rightarrow> ('e, 'h) pworld \<Rightarrow> ('e, 'h) pworld" where
  "p_set v w = w\<lparr>w_store := seq_set (p_sequence (w_proc w)) v (w_store w)\<rparr>"

section \<open>The processing loop\<close>

text \<open>The inner loop over a batch; \<open>event\<close> is the last event fetched.\<close>

function deliver ::
  "int \<Rightarrow> int \<Rightarrow> 'e option \<Rightarrow> ('e, 'h) pworld \<Rightarrow> exn option \<times> int \<times> 'e option \<times> ('e, 'h) pworld" where
  "deliver endOfBatch nextSequence event w =
     (if nextSequence \<le> endOfBatch
      then let ev = w_data w nextSequence;
               (x, ev', h) = onEvent (eventHandler (w_proc w)) ev nextSequence
                               (nextSequence = endOfBatch) (w_user w);
               w1 = w\<lparr>w_data := (w_data w)(nextSequence := ev'), w_user := h,
                      w_calls := w_calls w @ [OnEvent ev nextSequence (nextSequence = endOfBatch)]\<rparr>
           in case x of
                Some e \<Rightarrow> (Some e, nextSequence, Some ev', w1)
              | None \<Rightarrow> deliver endOfBatch (nextSequence + 1) (Some ev') w1
      else (None, nextSequence, event, w))"
  by pat_completeness auto
termination
  by (relation "measure (\<lambda>(en, n, e, w). nat (en + 1 - n))") auto

declare deliver.simps [simp del]

text \<open>The body of the inner \<open>try\<close>, from the result of \<open>waitFor\<close>.\<close>

definition try_batch ::
  "exn + int \<Rightarrow> int \<Rightarrow> 'e option \<Rightarrow> ('e, 'h) pworld \<Rightarrow> exn option \<times> int \<times> 'e option \<times> ('e, 'h) pworld" where
  "try_batch waited nextSequence event w =
     (case waited of
        Inl e \<Rightarrow> (Some e, nextSequence, event, w)
      | Inr availableSequence \<Rightarrow>
          if availableSequence < nextSequence then (None, nextSequence, event, w)
          else let endOfBatch = min (nextSequence + batchLimitOffset (w_proc w)) availableSequence;
                   (x, w1) =
                     (if nextSequence \<le> endOfBatch
                      then call_user
                             (OnBatchStart (endOfBatch - nextSequence + 1) (availableSequence - nextSequence + 1))
                             (onBatchStart (eventHandler (w_proc w)) (endOfBatch - nextSequence + 1)
                               (availableSequence - nextSequence + 1)) w
                      else (None, w))
               in case x of
                    Some e \<Rightarrow> (Some e, nextSequence, event, w1)
                  | None \<Rightarrow>
                      (case deliver endOfBatch nextSequence event w1 of
                         (Some e, n', ev', w2) \<Rightarrow> (Some e, n', ev', w2)
                       | (None, n', ev', w2) \<Rightarrow>
                           (None, n', ev',
                            p_set endOfBatch (w2\<lparr>w_proc := (w_proc w2)\<lparr>retriesAttempted := 0\<rparr>\<rparr>))))"

text \<open>\<open>attemptRewindGetNextSequence\<close>: the sequence to go on with, or the exception thrown.\<close>

definition attemptRewind ::
  "exn \<Rightarrow> int \<Rightarrow> ('e, 'h) pworld \<Rightarrow> (exn + int) \<times> ('e, 'h) pworld" where
  "attemptRewind e startOfBatchSequence w =
     (case rewindHandler (w_proc w) of
        NoRewindHandler \<Rightarrow>
          (Inl (RuntimeErr ''Rewindable Exception thrown from a non-rewindable event handler''), w)
      | TryRewindHandler None \<Rightarrow>
          (Inl (RuntimeErr ''batchRewindStrategy cannot be null when building a BatchEventProcessor''), w)
      | TryRewindHandler (Some strategy) \<Rightarrow>
          let attempts = retriesAttempted (w_proc w) + 1;
              w1 = w\<lparr>w_proc := (w_proc w)\<lparr>retriesAttempted := attempts\<rparr>\<rparr>;
              (action, h) = strategy e attempts (w_user w1);
              w2 = w1\<lparr>w_user := h\<rparr>
          in (case action of
                REWIND \<Rightarrow> (Inr startOfBatchSequence, w2)
              | THROW \<Rightarrow> (Inl e, w2\<lparr>w_proc := (w_proc w2)\<lparr>retriesAttempted := 0\<rparr>\<rparr>)))"

datatype flow = Continue | Break | Escape exn

text \<open>The outer \<open>catch\<close> clauses, in their order.\<close>

definition catch_outer ::
  "exn \<Rightarrow> int \<Rightarrow> 'e option \<Rightarrow> ('e, 'h) pworld \<Rightarrow> flow \<times> int \<times> ('e, 'h) pworld" where
  "catch_outer ex nextSequence event w =
     (if ex = TimeoutExn
      then (case notifyTimeout (p_get w) w of
              (None, w1) \<Rightarrow> (Continue, nextSequence, w1)
            | (Some e, w1) \<Rightarrow> (Escape e, nextSequence, w1))
      else if ex = AlertExn
      then (if running (w_proc w) \<noteq> RUNNING then (Break, nextSequence, w) else (Continue, nextSequence, w))
      else if is_std_exception ex
      then (Continue, nextSequence + 1, p_set nextSequence (handleEventException ex nextSequence event w))
      else (Escape ex, nextSequence, w))"

definition process_once ::
  "exn + int \<Rightarrow> int \<Rightarrow> 'e option \<Rightarrow> ('e, 'h) pworld \<Rightarrow> flow \<times> int \<times> 'e option \<times> ('e, 'h) pworld" where
  "process_once waited nextSequence event w =
     (case try_batch waited nextSequence event w of
        (None, n', ev', w') \<Rightarrow> (Continue, n', ev', w')
      | (Some ex, n', ev', w') \<Rightarrow>
          (case ex of
             RewindableExn m \<Rightarrow>
               (case attemptRewind ex nextSequence w' of
                  (Inr n2, w2) \<Rightarrow> (Continue, n2, ev', w2)
                | (Inl e2, w2) \<Rightarrow>
                    (case catch_outer e2 n' ev' w2 of (f, n3, w3) \<Rightarrow> (f, n3, ev', w3)))
           | _ \<Rightarrow> (case catch_outer ex n' ev' w' of (f, n3, w3) \<Rightarrow> (f, n3, ev', w3))))"

type_synonym ('e, 'h) pscript = "((('e, 'h) pworld \<Rightarrow> ('e, 'h) pworld) \<times> (exn + int)) list"

fun process_loop ::
  "('e, 'h) pscript \<Rightarrow> int \<Rightarrow> 'e option \<Rightarrow> ('e, 'h) pworld \<Rightarrow> (exn option \<times> ('e, 'h) pworld) option" where
  "process_loop [] nextSequence event w = None"
| "process_loop ((env, waited) # script) nextSequence event w =
     (case process_once waited nextSequence event (env w) of
        (Continue, n', ev', w') \<Rightarrow> process_loop script n' ev' w'
      | (Break, n', ev', w') \<Rightarrow> Some (None, w')
      | (Escape e, n', ev', w') \<Rightarrow> Some (Some e, w'))"

definition processEvents ::
  "('e, 'h) pscript \<Rightarrow> ('e, 'h) pworld \<Rightarrow> (exn option \<times> ('e, 'h) pworld) option" where
  "processEvents script w = process_loop script (p_get w + 1) None w"

definition earlyExit :: "('e, 'h) pworld \<Rightarrow> exn option \<times> ('e, 'h) pworld" where
  "earlyExit w =
     (case notifyStart w of (Some e, w1) \<Rightarrow> (Some e, w1) | (None, w1) \<Rightarrow> notifyShutdown w1)"

text \<open>\<open>gap\<close> is what the other threads do between \<open>onStart\<close> and the test of the running state.\<close>

definition finish_run :: "exn option \<Rightarrow> ('e, 'h) pworld \<Rightarrow> exn option \<times> ('e, 'h) pworld" where
  "finish_run result w =
     (case notifyShutdown w of
        (Some e, w1) \<Rightarrow> (Some e, w1)
      | (None, w1) \<Rightarrow> (result, set_running IDLE w1))"

definition p_run ::
  "(('e, 'h) pworld \<Rightarrow> ('e, 'h) pworld) \<Rightarrow> ('e, 'h) pscript \<Rightarrow> ('e, 'h) pworld
     \<Rightarrow> (exn option \<times> ('e, 'h) pworld) option" where
  "p_run gap script w =
     (case running (w_proc w) of
        IDLE \<Rightarrow>
          (let w1 = set_running RUNNING w; w2 = w1\<lparr>w_barrier := clearAlert (w_barrier w1)\<rparr> in
           case notifyStart w2 of
             (Some e, w3) \<Rightarrow> Some (Some e, w3)
           | (None, w3) \<Rightarrow>
               let w4 = gap w3 in
               if running (w_proc w4) = RUNNING
               then (case processEvents script w4 of
                       None \<Rightarrow> None
                     | Some (result, w5) \<Rightarrow> Some (finish_run result w5))
               else Some (finish_run None w4))
      | RUNNING \<Rightarrow> Some (Some (RuntimeErr ''Thread is already running''), w)
      | HALTED \<Rightarrow> Some (earlyExit w))"

section \<open>What the handler sees\<close>

text \<open>The sequences passed to \<open>onEvent\<close>, in the order of the calls.\<close>

fun event_calls :: "'e call list \<Rightarrow> int list" where
  "event_calls [] = []"
| "event_calls (OnEvent e q b # cs) = q # event_calls cs"
| "event_calls (_ # cs) = event_calls cs"

lemma event_calls_append [simp]: "event_calls (xs @ ys) = event_calls xs @ event_calls ys"
  by (induction xs rule: event_calls.induct) simp_all

text \<open>A handler none of whose callbacks throws.\<close>

definition quiet :: "('e, 'h) event_handler \<Rightarrow> bool" where
  "quiet h \<longleftrightarrow>
     (\<forall>e q b u. fst (onEvent h e q b u) = None) \<and> (\<forall>n d u. fst (onBatchStart h n d u) = None) \<and>
     (\<forall>q u. fst (onTimeout h q u) = None) \<and> (\<forall>u. fst (onStart h u) = None) \<and>
     (\<forall>u. fst (onShutdown h u) = None)"

text \<open>
  The other threads may publish, mutate events, alert the barrier and halt the processor; they
  do not write its sequence and do not call its handler.
\<close>

definition env_ok :: "(('e, 'h) pworld \<Rightarrow> ('e, 'h) pworld) \<Rightarrow> bool" where
  "env_ok env \<longleftrightarrow>
     (\<forall>w. w_calls (env w) = w_calls w \<and> w_proc (env w) = (w_proc w)\<lparr>running := running (w_proc (env w))\<rparr> \<and>
        w_store (env w) (p_sequence (w_proc w)) = w_store w (p_sequence (w_proc w)))"

lemma env_ok_D:
  assumes "env_ok env"
  shows "w_calls (env w) = w_calls w" and "eventHandler (w_proc (env w)) = eventHandler (w_proc w)"
    and "batchLimitOffset (w_proc (env w)) = batchLimitOffset (w_proc w)"
    and "p_sequence (w_proc (env w)) = p_sequence (w_proc w)" and "p_get (env w) = p_get w"
    and "exceptionHandler (w_proc (env w)) = exceptionHandler (w_proc w)"
    and "rewindHandler (w_proc (env w)) = rewindHandler (w_proc w)"
    and "retriesAttempted (w_proc (env w)) = retriesAttempted (w_proc w)"
proof -
  obtain r where p: "w_proc (env w) = (w_proc w)\<lparr>running := r\<rparr>"
    using assms unfolding env_ok_def by metis
  show "w_calls (env w) = w_calls w" using assms by (simp add: env_ok_def)
  show "eventHandler (w_proc (env w)) = eventHandler (w_proc w)"
    and "batchLimitOffset (w_proc (env w)) = batchLimitOffset (w_proc w)"
    and "p_sequence (w_proc (env w)) = p_sequence (w_proc w)"
    and "exceptionHandler (w_proc (env w)) = exceptionHandler (w_proc w)"
    and "rewindHandler (w_proc (env w)) = rewindHandler (w_proc w)"
    and "retriesAttempted (w_proc (env w)) = retriesAttempted (w_proc w)"
    by (simp_all add: p)
  show "p_get (env w) = p_get w"
    using assms by (simp add: p_get_def p seq_get_def env_ok_def)
qed

lemma call_user_simps [simp]:
  "w_store (snd (call_user c f w)) = w_store w" "w_proc (snd (call_user c f w)) = w_proc w"
  "w_barrier (snd (call_user c f w)) = w_barrier w" "w_data (snd (call_user c f w)) = w_data w"
  "w_calls (snd (call_user c f w)) = w_calls w @ [c]" "p_get (snd (call_user c f w)) = p_get w"
  "fst (call_user c f w) = fst (f (w_user w))"
  by (simp_all add: call_user_def p_get_def split: prod.split)

lemma p_set_simps [simp]:
  "p_get (p_set v w) = v" "w_proc (p_set v w) = w_proc w" "w_calls (p_set v w) = w_calls w"
  "w_barrier (p_set v w) = w_barrier w" "w_data (p_set v w) = w_data w" "w_user (p_set v w) = w_user w"
  by (simp_all add: p_set_def p_get_def)

lemma halt_simps [simp]:
  "running (w_proc (halt w)) = HALTED" "w_calls (halt w) = w_calls w" "isAlerted (w_barrier (halt w))"
  "p_sequence (w_proc (halt w)) = p_sequence (w_proc w)" "w_store (halt w) = w_store w"
  "eventHandler (w_proc (halt w)) = eventHandler (w_proc w)"
  "batchLimitOffset (w_proc (halt w)) = batchLimitOffset (w_proc w)"
  by (simp_all add: halt_def set_running_def)

text \<open>
  A batch in which exactly the event \<open>k\<close>, if any, throws \<open>ex\<close>: the events are delivered in
  order up to it.
\<close>

definition throws_at :: "int \<Rightarrow> exn \<Rightarrow> ('e, 'h) event_handler \<Rightarrow> bool" where
  "throws_at k ex h \<longleftrightarrow>
     (\<forall>e q b u. fst (onEvent h e q b u) = (if q = k then Some ex else None)) \<and>
     (\<forall>n d u. fst (onBatchStart h n d u) = None)"

lemma deliver_spec:
  assumes "\<forall>e q b u. q \<le> en \<longrightarrow>
      fst (onEvent (eventHandler (w_proc w)) e q b u) = (if q = k then Some ex else None)"
    and "deliver en n ev w = (x, n', ev', w')" and "n \<le> en + 1"
  shows "w_proc w' = w_proc w \<and> w_store w' = w_store w \<and> w_barrier w' = w_barrier w \<and>
    (if n \<le> k \<and> k \<le> en
     then x = Some ex \<and> n' = k \<and> ev' \<noteq> None \<and> event_calls (w_calls w') = event_calls (w_calls w) @ [n..k]
     else x = None \<and> n' = en + 1 \<and> event_calls (w_calls w') = event_calls (w_calls w) @ [n..en])"
  using assms
proof (induction en n ev w arbitrary: x n' ev' w' rule: deliver.induct)
  case (1 en n ev w)
  show ?case
  proof (cases "n \<le> en")
    case False
    with 1 show ?thesis by (auto simp: deliver.simps [of en n])
  next
    case True
    obtain y e2 h where y: "onEvent (eventHandler (w_proc w)) (w_data w n) n (n = en) (w_user w) = (y, e2, h)"
      by (metis prod_cases3)
    define w1 where "w1 = w\<lparr>w_data := (w_data w)(n := e2), w_user := h,
        w_calls := w_calls w @ [OnEvent (w_data w n) n (n = en)]\<rparr>"
    have w1: "w_proc w1 = w_proc w" "w_store w1 = w_store w" "w_barrier w1 = w_barrier w"
        "event_calls (w_calls w1) = event_calls (w_calls w) @ [n]"
      by (simp_all add: w1_def)
    have unfold: "deliver en n ev w =
        (case y of Some e \<Rightarrow> (Some e, n, Some e2, w1) | None \<Rightarrow> deliver en (n + 1) (Some e2) w1)"
      using True y unfolding w1_def by (simp add: deliver.simps [of en n] Let_def)
    have y_eq: "y = (if n = k then Some ex else None)" using "1.prems"(1) True y by (metis fst_conv)
    show ?thesis
    proof (cases "n = k")
      case True
      then have "y = Some ex" using y_eq by simp
      then have "x = Some ex" "n' = n" "ev' = Some e2" "w' = w1"
        using "1.prems"(2) unfold by simp_all
      then show ?thesis using True \<open>n \<le> en\<close> w1 by simp
    next
      case False
      then have rest: "deliver en (n + 1) (Some e2) w1 = (x, n', ev', w')"
        using "1.prems"(2) unfold y_eq by simp
      have hyp: "\<forall>e q b u. q \<le> en \<longrightarrow>
          fst (onEvent (eventHandler (w_proc w1)) e q b u) = (if q = k then Some ex else None)"
        using "1.prems"(1) by (simp add: w1)
      have "w_proc w' = w_proc w1 \<and> w_store w' = w_store w1 \<and> w_barrier w' = w_barrier w1 \<and>
        (if n + 1 \<le> k \<and> k \<le> en
         then x = Some ex \<and> n' = k \<and> ev' \<noteq> None \<and> event_calls (w_calls w') = event_calls (w_calls w1) @ [n + 1..k]
         else x = None \<and> n' = en + 1 \<and> event_calls (w_calls w') = event_calls (w_calls w1) @ [n + 1..en])"
        using "1.IH" [OF True refl y [symmetric] refl refl w1_def _ hyp rest] True y_eq False by simp
      moreover have "[n..k] = n # [n + 1..k]" if "n \<le> k" using that by (simp add: upto.simps)
      moreover have "[n..en] = n # [n + 1..en]" using True by (simp add: upto.simps)
      ultimately show ?thesis using False w1 by (auto split: if_splits)
    qed
  qed
qed

lemma deliver_quiet:
  assumes "quiet (eventHandler (w_proc w))" and "deliver en n ev w = (x, n', ev', w')" and "n \<le> en + 1"
  shows "x = None \<and> n' = en + 1 \<and> w_proc w' = w_proc w \<and> w_store w' = w_store w \<and>
    w_barrier w' = w_barrier w \<and> event_calls (w_calls w') = event_calls (w_calls w) @ [n..en]"
  using deliver_spec [of en w "en + 1" undefined, OF _ assms(2,3)] assms(1) by (simp add: quiet_def)

text \<open>One round with a handler that does not throw.\<close>

lemma call_batchStart:
  assumes "fst (onBatchStart h a b u) = None" and "h = eventHandler (w_proc w)" and "u = w_user w"
  shows "\<exists>w1. call_user (OnBatchStart a b) (onBatchStart h a b) w = (None, w1) \<and> w_proc w1 = w_proc w \<and>
    w_store w1 = w_store w \<and> w_barrier w1 = w_barrier w \<and> event_calls (w_calls w1) = event_calls (w_calls w)"
  using assms by (cases "onBatchStart h a b u") (auto simp: call_user_def)

lemma try_batch_quiet:
  assumes "quiet (eventHandler (w_proc w))" and "0 \<le> batchLimitOffset (w_proc w)" and "n \<le> av"
  defines "en \<equiv> min (n + batchLimitOffset (w_proc w)) av"
  shows "\<exists>ev' w'. try_batch (Inr av) n ev w = (None, en + 1, ev', w') \<and> p_get w' = en \<and>
    w_proc w' = (w_proc w)\<lparr>retriesAttempted := 0\<rparr> \<and> w_barrier w' = w_barrier w \<and>
    event_calls (w_calls w') = event_calls (w_calls w) @ [n..en]"
proof -
  have en: "n \<le> en" using assms(2,3) by (simp add: en_def)
  obtain w1 where w1: "call_user (OnBatchStart (en - n + 1) (av - n + 1))
        (onBatchStart (eventHandler (w_proc w)) (en - n + 1) (av - n + 1)) w = (None, w1)"
      "w_proc w1 = w_proc w" "w_store w1 = w_store w" "w_barrier w1 = w_barrier w"
      "event_calls (w_calls w1) = event_calls (w_calls w)"
    using call_batchStart [of "eventHandler (w_proc w)" "en - n + 1" "av - n + 1" "w_user w" w] assms(1)
    by (auto simp: quiet_def)
  obtain x n' ev' w2 where d: "deliver en n ev w1 = (x, n', ev', w2)" by (metis prod_cases4)
  have q: "quiet (eventHandler (w_proc w1))" using assms(1) w1(2) by simp
  from deliver_quiet [OF q d] en w1 have
      "x = None" "n' = en + 1" "w_proc w2 = w_proc w" "w_barrier w2 = w_barrier w"
      "event_calls (w_calls w2) = event_calls (w_calls w) @ [n..en]" by auto
  then show ?thesis
    using assms(3) en d w1(1) unfolding try_batch_def en_def [symmetric]
    by (simp add: en_def [symmetric] Let_def)
qed

lemma retries_same: "\<exists>r. p = p\<lparr>retriesAttempted := r\<rparr>"
  by (rule exI [of _ "retriesAttempted p"]) simp

lemma process_once_quiet:
  assumes "quiet (eventHandler (w_proc w))" and "0 \<le> batchLimitOffset (w_proc w)"
    and "n = p_get w + 1" and "\<forall>e. waited = Inl e \<longrightarrow> e = AlertExn \<or> e = TimeoutExn"
    and "process_once waited n ev w = (f, n', ev', w')"
  shows "n' = p_get w' + 1 \<and> p_get w \<le> p_get w' \<and>
    (\<exists>r. w_proc w' = (w_proc w)\<lparr>retriesAttempted := r\<rparr>) \<and>
    event_calls (w_calls w') = event_calls (w_calls w) @ [p_get w + 1..p_get w'] \<and>
    (p_get w' = p_get w \<or> (\<exists>av. waited = Inr av \<and> p_get w' \<le> av)) \<and>
    (f = Continue \<or> f = Break \<and> running (w_proc w') \<noteq> RUNNING)"
proof (cases waited)
  case (Inr av)
  show ?thesis
  proof (cases "n \<le> av")
    case True
    let ?en = "min (n + batchLimitOffset (w_proc w)) av"
    obtain ev2 w2 where t: "try_batch (Inr av) n ev w = (None, ?en + 1, ev2, w2)" "p_get w2 = ?en"
        "w_proc w2 = (w_proc w)\<lparr>retriesAttempted := 0\<rparr>"
        "event_calls (w_calls w2) = event_calls (w_calls w) @ [n..?en]"
      using try_batch_quiet [OF assms(1,2) True] by blast
    then have "f = Continue" "n' = ?en + 1" "w' = w2" using assms(5) Inr by (auto simp: process_once_def)
    then show ?thesis using t(2-4) True assms(2,3) Inr by auto
  next
    case False
    then have "try_batch waited n ev w = (None, n, ev, w)" using Inr by (simp add: try_batch_def)
    then have "f = Continue" "n' = n" "w' = w" using assms(5) by (auto simp: process_once_def)
    then show ?thesis using assms(3) retries_same by simp
  qed
next
  case (Inl e)
  have t: "try_batch waited n ev w = (Some e, n, ev, w)" using Inl by (simp add: try_batch_def)
  note same = retries_same [of "w_proc w"]
  from assms(4) Inl consider "e = AlertExn" | "e = TimeoutExn" by auto
  then show ?thesis
  proof cases
    case 1
    then show ?thesis using assms(3,5) t same
      by (auto simp: process_once_def catch_outer_def split: if_splits)
  next
    case 2
    have nt: "fst (onTimeout (eventHandler (w_proc w)) (p_get w) (w_user w)) = None"
      using assms(1) by (simp add: quiet_def)
    obtain w2 where w2: "notifyTimeout (p_get w) w = (None, w2)" "w_proc w2 = w_proc w"
        "p_get w2 = p_get w" "event_calls (w_calls w2) = event_calls (w_calls w)"
      using nt by (cases "onTimeout (eventHandler (w_proc w)) (p_get w) (w_user w)")
        (auto simp: notifyTimeout_def call_user_def p_get_def)
    then have "f = Continue" "n' = n" "w' = w2"
      using assms(5) t 2 by (auto simp: process_once_def catch_outer_def)
    then show ?thesis using w2 same assms(3) by auto
  qed
qed

lemma process_loop_quiet:
  assumes "quiet (eventHandler (w_proc w))" and "0 \<le> batchLimitOffset (w_proc w)"
    and "n = p_get w + 1" and "\<forall>(env, waited)\<in>set script. env_ok env \<and>
      (\<forall>e. waited = Inl e \<longrightarrow> e = AlertExn \<or> e = TimeoutExn)"
    and "process_loop script n ev w = Some (r, w')"
  shows "r = None \<and> p_get w \<le> p_get w' \<and> running (w_proc w') \<noteq> RUNNING \<and>
    event_calls (w_calls w') = event_calls (w_calls w) @ [p_get w + 1..p_get w'] \<and>
    (p_get w' = p_get w \<or> (\<exists>env av. (env, Inr av) \<in> set script \<and> p_get w' \<le> av)) \<and>
    eventHandler (w_proc w') = eventHandler (w_proc w)"
  using assms
proof (induction script arbitrary: n ev w)
  case (Cons a script)
  obtain env waited where a: "a = (env, waited)" by (cases a)
  have env: "env_ok env" and waited: "\<forall>e. waited = Inl e \<longrightarrow> e = AlertExn \<or> e = TimeoutExn"
    using Cons.prems(4) by (auto simp: a)
  note e = env_ok_D [OF env, of w]
  obtain f n' ev' w1 where once: "process_once waited n ev (env w) = (f, n', ev', w1)"
    by (metis prod_cases4)
  have o: "n' = p_get w1 + 1" "p_get w \<le> p_get w1"
      "\<exists>r. w_proc w1 = (w_proc (env w))\<lparr>retriesAttempted := r\<rparr>"
      "event_calls (w_calls w1) = event_calls (w_calls w) @ [p_get w + 1..p_get w1]"
      "p_get w1 = p_get w \<or> (\<exists>av. waited = Inr av \<and> p_get w1 \<le> av)"
      "f = Continue \<or> f = Break \<and> running (w_proc w1) \<noteq> RUNNING"
    using process_once_quiet [OF _ _ _ waited once] Cons.prems(1-3) by (simp_all add: e)
  have h: "eventHandler (w_proc w1) = eventHandler (w_proc w)"
      "batchLimitOffset (w_proc w1) = batchLimitOffset (w_proc w)"
    using o(3) e(2,3) by auto
  show ?case
  proof (cases "f = Continue")
    case True
    then have rest: "process_loop script n' ev' w1 = Some (r, w')"
      using Cons.prems(5) once by (simp add: a)
    have "quiet (eventHandler (w_proc w1))" "0 \<le> batchLimitOffset (w_proc w1)"
      using Cons.prems(1,2) h by simp_all
    from Cons.IH [OF this o(1) _ rest] Cons.prems(4)
    have IH: "r = None" "p_get w1 \<le> p_get w'" "running (w_proc w') \<noteq> RUNNING"
        "event_calls (w_calls w') = event_calls (w_calls w1) @ [p_get w1 + 1..p_get w']"
        "p_get w' = p_get w1 \<or> (\<exists>env av. (env, Inr av) \<in> set script \<and> p_get w' \<le> av)"
        "eventHandler (w_proc w') = eventHandler (w_proc w1)" by auto
    have "[p_get w + 1..p_get w1] @ [p_get w1 + 1..p_get w'] = [p_get w + 1..p_get w']"
      using o(2) IH(2) by (rule upto_join)
    then show ?thesis using o(2,4,5) IH h(1) by (fastforce simp: a)
  next
    case False
    then have "f = Break" "running (w_proc w1) \<noteq> RUNNING" using o(6) by auto
    then have "r = None" "w' = w1" using Cons.prems(5) once by (auto simp: a)
    then show ?thesis using o(2,4,5) h(1) \<open>running (w_proc w1) \<noteq> RUNNING\<close> by (auto simp: a)
  qed
qed simp

section \<open>Exceptions and rewinds\<close>

text \<open>The sequences the exception handler was asked about.\<close>

fun handled_calls :: "'e call list \<Rightarrow> int list" where
  "handled_calls [] = []"
| "handled_calls (HandleEventException ex q ev # cs) = q # handled_calls cs"
| "handled_calls (_ # cs) = handled_calls cs"

lemma handled_calls_append [simp]: "handled_calls (xs @ ys) = handled_calls xs @ handled_calls ys"
  by (induction xs rule: handled_calls.induct) simp_all

lemma deliver_handled: "deliver en n ev w = (x, n', ev', w') \<Longrightarrow> handled_calls (w_calls w') = handled_calls (w_calls w)"
proof (induction en n ev w arbitrary: x n' ev' w' rule: deliver.induct)
  case (1 en n ev w)
  then show ?case
    by (cases "n \<le> en")
      (auto simp: deliver.simps [of en n] Let_def split: prod.splits option.splits if_splits)
qed

lemma try_batch_throws:
  assumes "throws_at k ex (eventHandler (w_proc w))" and "0 \<le> batchLimitOffset (w_proc w)" and "n \<le> k"
    and "k \<le> min (n + batchLimitOffset (w_proc w)) av"
  shows "\<exists>e w'. try_batch (Inr av) n ev w = (Some ex, k, Some e, w') \<and> w_proc w' = w_proc w \<and>
    w_store w' = w_store w \<and> w_barrier w' = w_barrier w \<and>
    event_calls (w_calls w') = event_calls (w_calls w) @ [n..k] \<and>
    handled_calls (w_calls w') = handled_calls (w_calls w)"
proof -
  define en where "en = min (n + batchLimitOffset (w_proc w)) av"
  have en: "n \<le> en" "k \<le> en" "n \<le> av" using assms(3,4) by (simp_all add: en_def)
  obtain w1 where w1: "call_user (OnBatchStart (en - n + 1) (av - n + 1))
        (onBatchStart (eventHandler (w_proc w)) (en - n + 1) (av - n + 1)) w = (None, w1)"
      "w_proc w1 = w_proc w" "w_store w1 = w_store w" "w_barrier w1 = w_barrier w"
      "event_calls (w_calls w1) = event_calls (w_calls w)"
    using call_batchStart [of "eventHandler (w_proc w)" "en - n + 1" "av - n + 1" "w_user w" w] assms(1)
    by (auto simp: throws_at_def)
  have h1: "handled_calls (w_calls w1) = handled_calls (w_calls w)"
    using call_user_simps(5) [of "OnBatchStart (en - n + 1) (av - n + 1)"
        "onBatchStart (eventHandler (w_proc w)) (en - n + 1) (av - n + 1)" w] w1(1) by simp
  obtain x n' ev' w2 where d: "deliver en n ev w1 = (x, n', ev', w2)" by (metis prod_cases4)
  have th: "\<forall>e q b u. q \<le> en \<longrightarrow>
      fst (onEvent (eventHandler (w_proc w1)) e q b u) = (if q = k then Some ex else None)"
    using assms(1) w1(2) by (simp add: throws_at_def)
  have r: "x = Some ex" "n' = k" "w_proc w2 = w_proc w" "w_store w2 = w_store w"
      "w_barrier w2 = w_barrier w" "event_calls (w_calls w2) = event_calls (w_calls w) @ [n..k]" "ev' \<noteq> None"
    using deliver_spec [OF th d] en assms(3) w1 by auto
  then obtain e where "ev' = Some e" by blast
  moreover have "handled_calls (w_calls w2) = handled_calls (w_calls w)"
    using deliver_handled [OF d] h1 by simp
  ultimately show ?thesis
    using en d w1(1) r by (simp add: try_batch_def en_def [symmetric] Let_def)
qed

lemma handleEventException_facts:
  "w_store (handleEventException ex q ev w) = w_store w"
  "p_sequence (w_proc (handleEventException ex q ev w)) = p_sequence (w_proc w)"
  "w_calls (handleEventException ex q ev w) = w_calls w @ [HandleEventException ex q ev]"
  "fst (eh_handleEventException (getExceptionHandler (w_proc w)) ex q ev (w_user w)) = None \<Longrightarrow>
     w_proc (handleEventException ex q ev w) = w_proc w \<and> w_barrier (handleEventException ex q ev w) = w_barrier w"
  "fst (eh_handleEventException (getExceptionHandler (w_proc w)) ex q ev (w_user w)) \<noteq> None \<Longrightarrow>
     running (w_proc (handleEventException ex q ev w)) = HALTED \<and>
     isAlerted (w_barrier (handleEventException ex q ev w))"
  by (cases "eh_handleEventException (getExceptionHandler (w_proc w)) ex q ev (w_user w)";
      auto simp: handleEventException_def call_user_def split: option.splits)+

definition plain_exception :: "exn \<Rightarrow> bool" where
  "plain_exception ex \<longleftrightarrow>
     is_std_exception ex \<and> ex \<noteq> TimeoutExn \<and> ex \<noteq> AlertExn \<and> (\<forall>m. ex \<noteq> RewindableExn m)"

lemma catch_outer_std:
  assumes "is_std_exception ex" and "ex \<noteq> TimeoutExn" and "ex \<noteq> AlertExn"
  shows "catch_outer ex n ev w = (Continue, n + 1, p_set n (handleEventException ex n ev w))"
  using assms by (simp add: catch_outer_def)

text \<open>An event whose handler throws is reported and skipped; the processor goes on behind it.\<close>

lemma process_once_throws:
  assumes "throws_at k ex (eventHandler (w_proc w))" and "0 \<le> batchLimitOffset (w_proc w)" and "n \<le> k"
    and "k \<le> min (n + batchLimitOffset (w_proc w)) av" and "plain_exception ex"
  shows "\<exists>e w1 w'. process_once (Inr av) n ev w = (Continue, k + 1, Some e, w') \<and>
    w' = p_set k (handleEventException ex k (Some e) w1) \<and> w_proc w1 = w_proc w \<and>
    w_barrier w1 = w_barrier w \<and> p_get w' = k \<and>
    event_calls (w_calls w') = event_calls (w_calls w) @ [n..k] \<and>
    handled_calls (w_calls w') = handled_calls (w_calls w) @ [k]"
proof -
  obtain e w1 where t: "try_batch (Inr av) n ev w = (Some ex, k, Some e, w1)" "w_proc w1 = w_proc w"
      "w_barrier w1 = w_barrier w" "event_calls (w_calls w1) = event_calls (w_calls w) @ [n..k]"
      "handled_calls (w_calls w1) = handled_calls (w_calls w)"
    using try_batch_throws [OF assms(1-4)] by blast
  have c: "catch_outer ex k (Some e) w1 = (Continue, k + 1, p_set k (handleEventException ex k (Some e) w1))"
    using assms(5) by (intro catch_outer_std) (simp_all add: plain_exception_def)
  have "process_once (Inr av) n ev w = (Continue, k + 1, Some e, p_set k (handleEventException ex k (Some e) w1))"
    using assms(5) c by (cases ex) (simp_all add: process_once_def t(1) plain_exception_def)
  then show ?thesis using t by (auto simp: handleEventException_facts(3))
qed

lemma rewind_once:
  assumes "throws_at k (RewindableExn m) (eventHandler (w_proc w))" and "0 \<le> batchLimitOffset (w_proc w)"
    and "n \<le> k" and "k \<le> min (n + batchLimitOffset (w_proc w)) av"
    and "rewindHandler (w_proc w) = TryRewindHandler (Some (EventuallyGiveUpBatchRewindStrategy maxAttempts))"
    and "retriesAttempted (w_proc w) + 1 \<noteq> maxAttempts"
  shows "\<exists>ev' w'. process_once (Inr av) n ev w = (Continue, n, ev', w') \<and> p_get w' = p_get w \<and>
    w_proc w' = (w_proc w)\<lparr>retriesAttempted := retriesAttempted (w_proc w) + 1\<rparr> \<and>
    event_calls (w_calls w') = event_calls (w_calls w) @ [n..k] \<and>
    handled_calls (w_calls w') = handled_calls (w_calls w)"
proof -
  obtain e w1 where t: "try_batch (Inr av) n ev w = (Some (RewindableExn m), k, Some e, w1)"
      "w_proc w1 = w_proc w" "w_store w1 = w_store w"
      "event_calls (w_calls w1) = event_calls (w_calls w) @ [n..k]"
      "handled_calls (w_calls w1) = handled_calls (w_calls w)"
    using try_batch_throws [OF assms(1-4)] by blast
  then show ?thesis
    using assms(5,6)
    by (simp add: process_once_def attemptRewind_def EventuallyGiveUpBatchRewindStrategy_def Let_def p_get_def)
qed

lemma rewind_gives_up:
  assumes "throws_at k (RewindableExn m) (eventHandler (w_proc w))" and "0 \<le> batchLimitOffset (w_proc w)"
    and "n \<le> k" and "k \<le> min (n + batchLimitOffset (w_proc w)) av"
    and "rewindHandler (w_proc w) = TryRewindHandler (Some (EventuallyGiveUpBatchRewindStrategy maxAttempts))"
    and "retriesAttempted (w_proc w) + 1 = maxAttempts"
    and "\<forall>ex q ev u. fst (eh_handleEventException (getExceptionHandler (w_proc w)) ex q ev u) = None"
  shows "\<exists>ev' w'. process_once (Inr av) n ev w = (Continue, k + 1, ev', w') \<and> p_get w' = k \<and>
    w_proc w' = (w_proc w)\<lparr>retriesAttempted := 0\<rparr> \<and>
    event_calls (w_calls w') = event_calls (w_calls w) @ [n..k] \<and>
    handled_calls (w_calls w') = handled_calls (w_calls w) @ [k]"
proof -
  obtain e w1 where t: "try_batch (Inr av) n ev w = (Some (RewindableExn m), k, Some e, w1)"
      "w_proc w1 = w_proc w" "event_calls (w_calls w1) = event_calls (w_calls w) @ [n..k]"
      "handled_calls (w_calls w1) = handled_calls (w_calls w)"
    using try_batch_throws [OF assms(1-4)] by blast
  define w2 where "w2 = w1\<lparr>w_proc := (w_proc w)\<lparr>retriesAttempted := 0\<rparr>\<rparr>"
  have "attemptRewind (RewindableExn m) n w1 = (Inl (RewindableExn m), w2)"
    using assms(5,6) t(2) by (simp add: attemptRewind_def EventuallyGiveUpBatchRewindStrategy_def Let_def w2_def)
  moreover have "catch_outer (RewindableExn m) k (Some e) w2 =
      (Continue, k + 1, p_set k (handleEventException (RewindableExn m) k (Some e) w2))"
    by (rule catch_outer_std) (simp_all add: is_std_exception_def)
  ultimately have once: "process_once (Inr av) n ev w =
      (Continue, k + 1, Some e, p_set k (handleEventException (RewindableExn m) k (Some e) w2))"
    by (simp add: process_once_def t(1))
  have "getExceptionHandler (w_proc w2) = getExceptionHandler (w_proc w)"
    by (simp add: w2_def getExceptionHandler_def)
  then have "w_proc (handleEventException (RewindableExn m) k (Some e) w2) = w_proc w2"
    using handleEventException_facts(4) [of w2 "RewindableExn m" k "Some e"] assms(7) by simp
  then show ?thesis using once t by (auto simp: handleEventException_facts(3) w2_def)
qed

lemma rewind_until_give_up:
  assumes "throws_at k (RewindableExn m) (eventHandler (w_proc w))" and "0 \<le> batchLimitOffset (w_proc w)"
    and "n \<le> k" and "k \<le> min (n + batchLimitOffset (w_proc w)) av"
    and "rewindHandler (w_proc w) = TryRewindHandler (Some (EventuallyGiveUpBatchRewindStrategy maxAttempts))"
    and "retriesAttempted (w_proc w) + 1 + int j = maxAttempts"
    and "\<forall>ex q ev u. fst (eh_handleEventException (getExceptionHandler (w_proc w)) ex q ev u) = None"
  shows "\<exists>ev' w'. process_loop (replicate (Suc j) (\<lambda>w. w, Inr av) @ rest) n ev w = process_loop rest (k + 1) ev' w' \<and>
    p_get w' = k \<and> retriesAttempted (w_proc w') = 0 \<and>
    event_calls (w_calls w') = event_calls (w_calls w) @ concat (replicate (Suc j) [n..k]) \<and>
    handled_calls (w_calls w') = handled_calls (w_calls w) @ [k]"
  using assms
proof (induction j arbitrary: w ev)
  case 0
  then have last: "retriesAttempted (w_proc w) + 1 = maxAttempts" by simp
  from rewind_gives_up [OF "0.prems"(1-5) last "0.prems"(7), of ev] obtain ev1 w1 where
    "process_once (Inr av) n ev w = (Continue, k + 1, ev1, w1)" "p_get w1 = k"
    "w_proc w1 = (w_proc w)\<lparr>retriesAttempted := 0\<rparr>"
    "event_calls (w_calls w1) = event_calls (w_calls w) @ [n..k]"
    "handled_calls (w_calls w1) = handled_calls (w_calls w) @ [k]" by blast
  then show ?case by (intro exI [of _ ev1] exI [of _ w1]) simp
next
  case (Suc j)
  have ne: "retriesAttempted (w_proc w) + 1 \<noteq> maxAttempts" using Suc.prems(6) by simp
  obtain ev1 w1 where once: "process_once (Inr av) n ev w = (Continue, n, ev1, w1)"
      "w_proc w1 = (w_proc w)\<lparr>retriesAttempted := retriesAttempted (w_proc w) + 1\<rparr>"
      "event_calls (w_calls w1) = event_calls (w_calls w) @ [n..k]"
      "handled_calls (w_calls w1) = handled_calls (w_calls w)"
    using rewind_once [OF Suc.prems(1-5) ne, of ev] by blast
  have "\<exists>ev' w'. process_loop (replicate (Suc j) (\<lambda>w. w, Inr av) @ rest) n ev1 w1 = process_loop rest (k + 1) ev' w' \<and>
    p_get w' = k \<and> retriesAttempted (w_proc w') = 0 \<and>
    event_calls (w_calls w') = event_calls (w_calls w1) @ concat (replicate (Suc j) [n..k]) \<and>
    handled_calls (w_calls w') = handled_calls (w_calls w1) @ [k]"
    by (rule Suc.IH) (use Suc.prems once(2) in \<open>simp_all add: getExceptionHandler_def\<close>)
  then show ?case using once by simp
qed

section \<open>Runs\<close>

text \<open>What happens in between: more calls, but neither \<open>onStart\<close> nor \<open>onShutdown\<close>.\<close>

definition extends :: "('e, 'h) pworld \<Rightarrow> ('e, 'h) pworld \<Rightarrow> bool" where
  "extends w w' \<longleftrightarrow>
     eventHandler (w_proc w') = eventHandler (w_proc w) \<and>
     (\<exists>mid. w_calls w' = w_calls w @ mid \<and> OnStart \<notin> set mid \<and> OnShutdown \<notin> set mid)"

lemma extends_refl [simp]: "extends w w"
  by (simp add: extends_def)

lemma extends_trans: "extends w1 w2 \<Longrightarrow> extends w2 w3 \<Longrightarrow> extends w1 w3"
  by (fastforce simp: extends_def)

lemma extends_same:
  "w_calls w' = w_calls w \<Longrightarrow> eventHandler (w_proc w') = eventHandler (w_proc w) \<Longrightarrow> extends w w'"
  by (simp add: extends_def)

lemma extends_call_user: "c \<noteq> OnStart \<Longrightarrow> c \<noteq> OnShutdown \<Longrightarrow> extends w (snd (call_user c f w))"
  by (simp add: extends_def)

lemma extends_handle: "extends w (handleEventException ex q ev w)"
proof -
  have "eventHandler (w_proc (handleEventException ex q ev w)) = eventHandler (w_proc w)"
    by (auto simp: handleEventException_def call_user_def split: prod.splits option.splits)
  then show ?thesis by (simp add: extends_def handleEventException_facts(3))
qed

lemma extends_deliver: "deliver en n ev w = (x, n', ev', w') \<Longrightarrow> extends w w'"
proof (induction en n ev w arbitrary: x n' ev' w' rule: deliver.induct)
  case (1 en n ev w)
  show ?case
  proof (cases "n \<le> en")
    case False
    then show ?thesis using "1.prems" by (simp add: deliver.simps [of en n])
  next
    case True
    obtain y e2 h where y: "onEvent (eventHandler (w_proc w)) (w_data w n) n (n = en) (w_user w) = (y, e2, h)"
      by (metis prod_cases3)
    define w1 where "w1 = w\<lparr>w_data := (w_data w)(n := e2), w_user := h,
        w_calls := w_calls w @ [OnEvent (w_data w n) n (n = en)]\<rparr>"
    have w1: "extends w w1" by (simp add: w1_def extends_def)
    have unfold: "deliver en n ev w =
        (case y of Some e \<Rightarrow> (Some e, n, Some e2, w1) | None \<Rightarrow> deliver en (n + 1) (Some e2) w1)"
      using True y unfolding w1_def by (simp add: deliver.simps [of en n] Let_def)
    show ?thesis
    proof (cases y)
      case None
      then have "deliver en (n + 1) (Some e2) w1 = (x, n', ev', w')" using unfold "1.prems" by simp
      from "1.IH" [OF True refl y [symmetric] refl refl w1_def None this] w1
      show ?thesis by (rule extends_trans [rotated])
    next
      case (Some e)
      then show ?thesis using unfold "1.prems" w1 by simp
    qed
  qed
qed

lemma extends_try_batch: "try_batch waited n ev w = (x, n', ev', w') \<Longrightarrow> extends w w'"
proof (cases waited)
  case (Inl e)
  then show "try_batch waited n ev w = (x, n', ev', w') \<Longrightarrow> extends w w'" by (simp add: try_batch_def)
next
  case (Inr av)
  assume t: "try_batch waited n ev w = (x, n', ev', w')"
  define en where "en = min (n + batchLimitOffset (w_proc w)) av"
  define c where "c = (if n \<le> en
      then call_user (OnBatchStart (en - n + 1) (av - n + 1))
             (onBatchStart (eventHandler (w_proc w)) (en - n + 1) (av - n + 1)) w
      else (None, w))"
  have c: "extends w (snd c)" by (simp add: c_def extends_call_user)
  obtain y w1 where yw: "c = (y, w1)" by (cases c)
  obtain x2 n2 ev2 w2 where d: "deliver en n ev w1 = (x2, n2, ev2, w2)" by (metis prod_cases4)
  have w2: "extends w w2" using c yw extends_deliver [OF d] extends_trans by (metis snd_conv)
  have p: "extends w2 (p_set en (w2\<lparr>w_proc := (w_proc w2)\<lparr>retriesAttempted := 0\<rparr>\<rparr>))"
    by (rule extends_same) simp_all
  from t have "w' = w \<or> w' = w1 \<or> w' = w2 \<or> w' = p_set en (w2\<lparr>w_proc := (w_proc w2)\<lparr>retriesAttempted := 0\<rparr>\<rparr>)"
    unfolding try_batch_def Inr sum.case en_def [symmetric] c_def [symmetric] Let_def yw
    by (auto simp: d split: if_splits option.splits)
  then show "extends w w'" using c yw w2 extends_trans [OF w2 p] by auto
qed

lemma extends_rewind: "attemptRewind e n w = (r, w') \<Longrightarrow> extends w w'"
  by (auto simp: attemptRewind_def extends_def Let_def
      split: rewind_handler.splits option.splits prod.splits rewind_action.splits)

lemma extends_catch: "catch_outer ex n ev w = (f, n', w') \<Longrightarrow> extends w w'"
proof -
  assume c: "catch_outer ex n ev w = (f, n', w')"
  have timeout: "extends w (snd (notifyTimeout q w))" for q
    using extends_call_user [of "OnTimeout q" w "onTimeout (eventHandler (w_proc w)) q"]
    by (auto simp: notifyTimeout_def split: prod.splits option.splits
        intro: extends_trans [OF _ extends_handle])
  have "extends w (p_set n (handleEventException ex n ev w))"
    by (rule extends_trans [OF extends_handle extends_same]) simp_all
  then show ?thesis
    using c timeout [of "p_get w"] by (auto simp: catch_outer_def split: if_splits prod.splits option.splits)
qed

lemma extends_process_once: "process_once waited n ev w = (f, n', ev', w') \<Longrightarrow> extends w w'"
proof -
  assume o: "process_once waited n ev w = (f, n', ev', w')"
  obtain x n1 ev1 w1 where t: "try_batch waited n ev w = (x, n1, ev1, w1)" by (metis prod_cases4)
  note t1 = extends_try_batch [OF t]
  show ?thesis
  proof (cases x)
    case None
    then show ?thesis using o t t1 by (simp add: process_once_def)
  next
    case (Some ex)
    show ?thesis
    proof (cases "\<exists>m. ex = RewindableExn m")
      case True
      obtain r w2 where r: "attemptRewind ex n w1 = (r, w2)" by (cases "attemptRewind ex n w1")
      have w2: "extends w w2" using extends_trans [OF t1 extends_rewind [OF r]] .
      show ?thesis
      proof (cases r)
        case (Inl e2)
        obtain f3 n3 w3 where c: "catch_outer e2 n1 ev1 w2 = (f3, n3, w3)" by (metis prod_cases3)
        then have "w' = w3" using o t Some True r Inl by (auto simp: process_once_def)
        then show ?thesis using extends_trans [OF w2 extends_catch [OF c]] by simp
      next
        case (Inr n2)
        then show ?thesis using o t Some True r w2 by (auto simp: process_once_def)
      qed
    next
      case False
      obtain f3 n3 w3 where c: "catch_outer ex n1 ev1 w1 = (f3, n3, w3)" by (metis prod_cases3)
      then have "w' = w3" using o t Some False by (cases ex) (auto simp: process_once_def)
      then show ?thesis using extends_trans [OF t1 extends_catch [OF c]] by simp
    qed
  qed
qed

lemma extends_env: "env_ok env \<Longrightarrow> extends w (env w)"
  by (rule extends_same) (simp_all add: env_ok_D)

lemma extends_loop:
  assumes "\<forall>(env, waited)\<in>set script. env_ok env" and "process_loop script n ev w = Some (r, w')"
  shows "extends w w'"
  using assms
proof (induction script arbitrary: n ev w)
  case (Cons a script)
  obtain env waited where a: "a = (env, waited)" by (cases a)
  obtain f n1 ev1 w1 where once: "process_once waited n ev (env w) = (f, n1, ev1, w1)"
    by (metis prod_cases4)
  have w1: "extends w w1"
    using extends_trans [OF extends_env [of env w] extends_process_once [OF once]] Cons.prems(1)
    by (simp add: a)
  show ?case
  proof (cases f)
    case Continue
    then have "process_loop script n1 ev1 w1 = Some (r, w')" using Cons.prems(2) once by (simp add: a)
    from Cons.IH [OF _ this] Cons.prems(1) show ?thesis using extends_trans [OF w1] by simp
  qed (use Cons.prems(2) once w1 in \<open>auto simp: a\<close>)
qed simp

section \<open>Properties\<close>

text \<open>A processor whose handler accepts everything, and the run it makes in the examples.\<close>

definition demo_processor :: "(int, unit) processor" where
  "demo_processor =
     \<lparr>running = RUNNING, exceptionHandler = Some IgnoreExceptionHandler,
      eventHandler = EventHandlerBase (\<lambda>e q b u. (None, e, u)), batchLimitOffset = 1,
      p_sequence = 0, rewindHandler = NoRewindHandler, retriesAttempted = 0\<rparr>"

definition demo_world :: "(int, unit) processor \<Rightarrow> (int, unit) pworld" where
  "demo_world p =
     \<lparr>w_store = (\<lambda>_. - 1), w_data = (\<lambda>q. 10 * q), w_barrier = new_barrier 1 [], w_proc = p,
      w_user = (), w_calls = []\<rparr>"

definition demo_script :: "(int, unit) pscript" where
  "demo_script = [(\<lambda>w. w, Inr 2), (\<lambda>w. w, Inl TimeoutExn), (\<lambda>w. w, Inr 2), (halt, Inl AlertExn)]"

lemma env_ok_id: "env_ok (\<lambda>w. w)"
  by (simp add: env_ok_def)

lemma env_ok_halt: "env_ok halt"
  by (simp add: env_ok_def halt_def set_running_def)

text \<open>C7: A handler that does not throw sees every event exactly once and in order: whatever the
  other threads do, the loop of \<open>processEvents\<close> calls \<open>onEvent\<close> for the sequences from the one
  behind the processor's to its final one, never beyond what the barrier reported, and it
  ends only after the processor was halted.\<close>

theorem processEvents_in_order:
  assumes "quiet (eventHandler (w_proc w))" and "0 \<le> batchLimitOffset (w_proc w)"
    and "\<forall>(env, waited)\<in>set script. env_ok env \<and>
      (\<forall>e. waited = Inl e \<longrightarrow> e = AlertExn \<or> e = TimeoutExn)"
    and "processEvents script w = Some (r, w')"
  shows "r = None \<and> p_get w \<le> p_get w' \<and> running (w_proc w') \<noteq> RUNNING \<and>
    event_calls (w_calls w') = event_calls (w_calls w) @ [p_get w + 1..p_get w'] \<and>
    (p_get w' = p_get w \<or> (\<exists>env av. (env, Inr av) \<in> set script \<and> p_get w' \<le> av))"
  using process_loop_quiet [OF assms(1,2) refl assms(3) assms(4) [unfolded processEvents_def]] by blast

lemma processEvents_in_order_witness:
  "\<exists>w'. processEvents demo_script (demo_world demo_processor) = Some (None, w') \<and>
     event_calls (w_calls w') = [0..2]"
proof -
  let ?w = "demo_world demo_processor"
  have "map_option (\<lambda>(r, w'). p_get w') (processEvents demo_script ?w) = Some 2"
    by code_simp
  then obtain r w' where e: "processEvents demo_script ?w = Some (r, w')" and p: "p_get w' = 2" by auto
  have "\<forall>(env, waited)\<in>set demo_script. env_ok env \<and>
      (\<forall>e. waited = Inl e \<longrightarrow> e = AlertExn \<or> e = TimeoutExn)"
    by (simp add: demo_script_def env_ok_id env_ok_halt)
  moreover have "quiet (eventHandler (w_proc ?w))" "0 \<le> batchLimitOffset (w_proc ?w)"
    by (simp_all add: quiet_def demo_world_def demo_processor_def EventHandlerBase_def)
  ultimately have "r = None \<and> event_calls (w_calls w') = event_calls (w_calls ?w) @ [p_get ?w + 1..p_get w']"
    using processEvents_in_order [OF _ _ _ e] by blast
  moreover have "event_calls (w_calls ?w) = []" "p_get ?w + 1 = 0"
    by (simp_all add: demo_world_def p_get_def seq_get_def)
  ultimately show ?thesis using e p by simp
qed

text \<open>C8: An event whose handler throws an ordinary exception is delivered, reported once to the
  exception handler and skipped: the processor's sequence moves to it and processing goes on
  behind it.  When the exception handler itself throws (as the default one does), the processor
  is halted and the barrier alerted, but its sequence still moves past the failed event.\<close>

theorem failing_event_skipped:
  assumes "throws_at k ex (eventHandler (w_proc w))" and "0 \<le> batchLimitOffset (w_proc w)" and "n \<le> k"
    and "k \<le> min (n + batchLimitOffset (w_proc w)) av" and "plain_exception ex"
    and "\<forall>ex q ev u. (fst (eh_handleEventException (getExceptionHandler (w_proc w)) ex q ev u) = None) = accepts"
  shows "\<exists>ev' w'. process_once (Inr av) n ev w = (Continue, k + 1, ev', w') \<and> p_get w' = k \<and>
    event_calls (w_calls w') = event_calls (w_calls w) @ [n..k] \<and>
    handled_calls (w_calls w') = handled_calls (w_calls w) @ [k] \<and>
    (if accepts then w_proc w' = w_proc w \<and> w_barrier w' = w_barrier w
     else running (w_proc w') = HALTED \<and> isAlerted (w_barrier w'))"
proof -
  obtain e w1 w' where o: "process_once (Inr av) n ev w = (Continue, k + 1, Some e, w')"
      "w' = p_set k (handleEventException ex k (Some e) w1)" "w_proc w1 = w_proc w"
      "w_barrier w1 = w_barrier w" "p_get w' = k"
      "event_calls (w_calls w') = event_calls (w_calls w) @ [n..k]"
      "handled_calls (w_calls w') = handled_calls (w_calls w) @ [k]"
    using process_once_throws [OF assms(1-5)] by blast
  have "if accepts then w_proc w' = w_proc w \<and> w_barrier w' = w_barrier w
     else running (w_proc w') = HALTED \<and> isAlerted (w_barrier w')"
    using handleEventException_facts(4,5) [of w1 ex k "Some e"] assms(6) o(2,3,4) by simp
  with o show ?thesis by blast
qed

definition failing_processor :: "(int, unit) processor" where
  "failing_processor = demo_processor\<lparr>exceptionHandler := None,
     eventHandler := EventHandlerBase (\<lambda>e q b u. (if q = 1 then Some (StdExn ''bad'') else None, e, u))\<rparr>"

lemma failing_event_skipped_witness:
  "\<exists>ev' w'. process_once (Inr 5) 0 None (demo_world failing_processor) = (Continue, 2, ev', w') \<and>
     p_get w' = 1 \<and> running (w_proc w') = HALTED"
  using failing_event_skipped [of 1 "StdExn ''bad''" "demo_world failing_processor" 0 5 False None]
  by (auto simp: throws_at_def demo_world_def failing_processor_def demo_processor_def EventHandlerBase_def
      plain_exception_def is_std_exception_def getExceptionHandler_def defaultHandler_def
      FatalExceptionHandler_def)


definition rewinding_processor :: "(int, unit) processor" where
  "rewinding_processor = demo_processor\<lparr>
     eventHandler := (EventHandlerBase (\<lambda>e q b u. (if q = 1 then Some (RewindableExn ''again'') else None, e, u)))
       \<lparr>isRewindable := True\<rparr>,
     rewindHandler := TryRewindHandler (Some (EventuallyGiveUpBatchRewindStrategy 3))\<rparr>"


text \<open>C10: A run of an idle processor whose \<open>onStart\<close> and \<open>onShutdown\<close> do not throw calls
  \<open>onStart\<close> once before anything else and \<open>onShutdown\<close> once after everything else, however
  processing ends (halted, or by an exception that escapes), and leaves the processor idle; a
  second \<open>run\<close> in the meantime is refused without effect, and a processor halted before it was
  started only calls the two.\<close>

theorem run_lifecycle:
  assumes "\<forall>u. fst (onStart (eventHandler (w_proc w)) u) = None"
    and "\<forall>u. fst (onShutdown (eventHandler (w_proc w)) u) = None"
    and "env_ok gap" and "\<forall>(env, waited)\<in>set script. env_ok env"
    and "p_run gap script w = Some (r, w')"
  shows "(running (w_proc w) = IDLE \<longrightarrow> running (w_proc w') = IDLE \<and>
      (\<exists>mid. w_calls w' = w_calls w @ [OnStart] @ mid @ [OnShutdown] \<and>
         OnStart \<notin> set mid \<and> OnShutdown \<notin> set mid)) \<and>
    (running (w_proc w) = RUNNING \<longrightarrow> r = Some (RuntimeErr ''Thread is already running'') \<and> w' = w) \<and>
    (running (w_proc w) = HALTED \<longrightarrow> r = None \<and> w_calls w' = w_calls w @ [OnStart, OnShutdown] \<and>
      w_proc w' = w_proc w)"
proof -
  have start: "\<exists>v1. notifyStart v = (None, v1) \<and> w_proc v1 = w_proc v \<and> w_calls v1 = w_calls v @ [OnStart]"
    if "eventHandler (w_proc v) = eventHandler (w_proc w)" for v
    using assms(1) that
    by (cases "onStart (eventHandler (w_proc v)) (w_user v)")
      (auto simp: notifyStart_def call_user_def dest: spec [of _ "w_user v"])
  have stop: "\<exists>v1. notifyShutdown v = (None, v1) \<and> w_proc v1 = w_proc v \<and> w_calls v1 = w_calls v @ [OnShutdown]"
    if "eventHandler (w_proc v) = eventHandler (w_proc w)" for v
    using assms(2) that
    by (cases "onShutdown (eventHandler (w_proc v)) (w_user v)")
      (auto simp: notifyShutdown_def call_user_def dest: spec [of _ "w_user v"])
  show ?thesis
  proof (cases "running (w_proc w)")
    case RUNNING
    then show ?thesis using assms(5) by (simp add: p_run_def)
  next
    case HALTED
    obtain v1 where v1: "notifyStart w = (None, v1)" "w_proc v1 = w_proc w" "w_calls v1 = w_calls w @ [OnStart]"
      using start [of w] by blast
    obtain v2 where v2: "notifyShutdown v1 = (None, v2)" "w_proc v2 = w_proc v1"
        "w_calls v2 = w_calls v1 @ [OnShutdown]"
      using stop [of v1] v1(2) by auto
    show ?thesis using assms(5) HALTED v1 v2 by (simp add: p_run_def earlyExit_def)
  next
    case IDLE
    define v where "v = (set_running RUNNING w)\<lparr>w_barrier := clearAlert (w_barrier (set_running RUNNING w))\<rparr>"
    have v: "eventHandler (w_proc v) = eventHandler (w_proc w)" "w_calls v = w_calls w"
      by (simp_all add: v_def set_running_def)
    obtain v3 where v3: "notifyStart v = (None, v3)" "w_proc v3 = w_proc v" "w_calls v3 = w_calls v @ [OnStart]"
      using start [OF v(1)] by blast
    have "extends v3 (gap v3)" using assms(3) by (rule extends_env)
    moreover have "\<exists>v5 r5. extends (gap v3) v5 \<and> (r, w') = finish_run r5 v5"
    proof (cases "running (w_proc (gap v3)) = RUNNING")
      case True
      then obtain r5 v5 where p: "processEvents script (gap v3) = Some (r5, v5)" "(r, w') = finish_run r5 v5"
        using assms(5) IDLE v3(1) by (auto simp: p_run_def Let_def v_def [symmetric] split: option.splits)
      then have "extends (gap v3) v5" using extends_loop [OF assms(4)] by (simp add: processEvents_def)
      then show ?thesis using p(2) by blast
    next
      case False
      then have "(r, w') = finish_run None (gap v3)"
        using assms(5) IDLE v3(1) by (auto simp: p_run_def Let_def v_def [symmetric])
      then show ?thesis using extends_refl by blast
    qed
    ultimately obtain v5 r5 where ext: "extends v3 v5" and fin: "(r, w') = finish_run r5 v5"
      using extends_trans by blast
    then obtain mid where mid: "w_calls v5 = w_calls v3 @ mid" "OnStart \<notin> set mid" "OnShutdown \<notin> set mid"
        "eventHandler (w_proc v5) = eventHandler (w_proc w)"
      using v v3(2) by (auto simp: extends_def)
    obtain v6 where v6: "notifyShutdown v5 = (None, v6)" "w_calls v6 = w_calls v5 @ [OnShutdown]"
      using stop [OF mid(4)] by blast
    have "w' = set_running IDLE v6" using fin v6(1) by (simp add: finish_run_def)
    then have "running (w_proc w') = IDLE" "w_calls w' = w_calls w @ [OnStart] @ mid @ [OnShutdown]"
      using v6(2) mid(1) v3(3) v(2) by (simp_all add: set_running_def)
    then show ?thesis using IDLE mid(2,3) by auto
  qed
qed

lemma run_lifecycle_witness:
  "\<exists>w'. p_run (\<lambda>w. w) demo_script (demo_world (demo_processor\<lparr>running := IDLE\<rparr>)) = Some (None, w') \<and>
     running (w_proc w') = IDLE \<and> hd (w_calls w') = OnStart \<and> last (w_calls w') = OnShutdown"
proof -
  let ?w = "demo_world (demo_processor\<lparr>running := IDLE\<rparr>)"
  have "map_option fst (p_run (\<lambda>w. w) demo_script ?w) = Some None" by code_simp
  then obtain w' where e: "p_run (\<lambda>w. w) demo_script ?w = Some (None, w')" by auto
  have h: "\<forall>u. fst (onStart (eventHandler (w_proc ?w)) u) = None"
    "\<forall>u. fst (onShutdown (eventHandler (w_proc ?w)) u) = None"
    "\<forall>(env, waited)\<in>set demo_script. env_ok env"
    by (simp_all add: demo_world_def demo_processor_def EventHandlerBase_def demo_script_def env_ok_id env_ok_halt)
  have "running (w_proc ?w) = IDLE" "w_calls ?w = []" by (simp_all add: demo_world_def demo_processor_def)
  then show ?thesis using run_lifecycle [OF h(1,2) env_ok_id h(3) e] e by auto
qed

end
