(* ===== verification/Event_Poller.thy ===== *)
theory Event_Poller
  imports Ring_Buffer Batch_Processor
begin

text \<open>
  The other ways to consume a ring buffer: \<open>EventPoller\<close> (\<open>include/disruptor/EventPoller.h\<close>),
  \<open>NoOpEventProcessor\<close> (\<open>NoOpEventProcessor.h\<close>) and \<open>AggregateEventHandler\<close>
  (\<open>AggregateEventHandler.h\<close>).

  The poller reads its own sequence, the gating sequence and the cursor one after the other.
  \<open>gap\<close> is what the other threads do after it has determined how far it may read.
\<close>

section \<open>The poller\<close>

datatype poll_state = PROCESSING | GATING | IDLE_POLL

text \<open>The gating sequence is the sequence of the caller, or a \<open>FixedSequenceGroup\<close> it owns.\<close>

datatype poller_gate = GateSequence sid | GateGroup seqs

record poller =
  po_sequence :: sid
  po_gate :: poller_gate

type_synonym ('e, 'h) poll_handler = "'e \<Rightarrow> int \<Rightarrow> bool \<Rightarrow> 'h \<Rightarrow> (exn + bool) \<times> 'e \<times> 'h"

text \<open>A null pointer as the only gating sequence is dereferenced.\<close>

definition newInstance :: "sid \<Rightarrow> sid \<Rightarrow> seqs \<Rightarrow> exn + poller" where
  "newInstance sequence cursorId gatingSequenceArray =
     (case gatingSequenceArray of
        [] \<Rightarrow> Inr \<lparr>po_sequence = sequence, po_gate = GateSequence cursorId\<rparr>
      | [Some g] \<Rightarrow> Inr \<lparr>po_sequence = sequence, po_gate = GateSequence g\<rparr>
      | [None] \<Rightarrow> Inl UseAfterFree
      | _ \<Rightarrow> Inr \<lparr>po_sequence = sequence, po_gate = GateGroup gatingSequenceArray\<rparr>)"

definition po_getSequence :: "poller \<Rightarrow> sid" where
  "po_getSequence po = po_sequence po"

text \<open>
  \<open>newBarrier\<close> of the sequencers and of the ring buffer, and \<open>newPoller\<close>, whose sequence is a new
  one at the given address.
\<close>

definition newBarrier :: "'s seq_ops \<Rightarrow> 's \<Rightarrow> seqs \<Rightarrow> barrier" where
  "newBarrier ops s sequencesToTrack = new_barrier (op_cursor ops s) sequencesToTrack"

definition rb_newBarrier :: "'s seq_ops \<Rightarrow> ('e, 's) ring_buffer \<Rightarrow> seqs \<Rightarrow> barrier" where
  "rb_newBarrier ops rb sequencesToTrack = newBarrier ops (rb_sequencer rb) sequencesToTrack"

definition rb_newPoller ::
  "'s seq_ops \<Rightarrow> sid \<Rightarrow> seqs \<Rightarrow> store \<times> ('e, 's) ring_buffer \<Rightarrow> (exn + poller) \<times> store" where
  "rb_newPoller ops sequenceId gatingSequenceArray w =
     (let (\<sigma>, rb) = w in
      (newInstance sequenceId (op_cursor ops (rb_sequencer rb)) gatingSequenceArray,
       seq_new_default sequenceId \<sigma>))"

fun gate_get :: "store \<Rightarrow> poller_gate \<Rightarrow> int" where
  "gate_get \<sigma> (GateSequence s) = seq_get \<sigma> s"
| "gate_get \<sigma> (GateGroup ss) = getMinimumSequence_max \<sigma> ss"

record ('e, 's, 'h) poll_world =
  pw_store :: store
  pw_ring :: "('e, 's) ring_buffer"
  pw_user :: 'h
  pw_calls :: "(int \<times> bool) list"

text \<open>The \<open>do\<close> loop: the result, the last sequence processed, and the world.\<close>

function po_loop ::
  "('e, 'h) poll_handler \<Rightarrow> int \<Rightarrow> int \<Rightarrow> int \<Rightarrow> ('e, 's, 'h) poll_world
     \<Rightarrow> exn option \<times> int \<times> ('e, 's, 'h) poll_world" where
  "po_loop handler availableSequence nextSequence processedSequence w =
     (let ev = rb_get (pw_ring w) nextSequence;
          (r, ev', h) = handler ev nextSequence (nextSequence = availableSequence) (pw_user w);
          w1 = w\<lparr>pw_ring := rb_put nextSequence ev' (pw_ring w), pw_user := h,
                 pw_calls := pw_calls w @ [(nextSequence, nextSequence = availableSequence)]\<rparr>
      in case r of
           Inl e \<Rightarrow> (Some e, processedSequence, w1)
         | Inr processNextEvent \<Rightarrow>
             if nextSequence + 1 \<le> availableSequence \<and> processNextEvent
             then po_loop handler availableSequence (nextSequence + 1) nextSequence w1
             else (None, nextSequence, w1))"
  by pat_completeness auto
termination
  by (relation "measure (\<lambda>(h, av, n, p, w). nat (av - n))") auto

declare po_loop.simps [simp del]

definition po_set :: "poller \<Rightarrow> int \<Rightarrow> ('e, 's, 'h) poll_world \<Rightarrow> ('e, 's, 'h) poll_world" where
  "po_set po v w = w\<lparr>pw_store := seq_set (po_sequence po) v (pw_store w)\<rparr>"

definition poll_available :: "'s seq_ops \<Rightarrow> poller \<Rightarrow> ('e, 's, 'h) poll_world \<Rightarrow> int" where
  "poll_available ops po w =
     op_highestPublished ops (seq_get (pw_store w) (po_sequence po) + 1)
       (gate_get (pw_store w) (po_gate po)) (pw_store w, rb_sequencer (pw_ring w))"

definition poll ::
  "'s seq_ops \<Rightarrow> (('e, 's, 'h) poll_world \<Rightarrow> ('e, 's, 'h) poll_world) \<Rightarrow> ('e, 'h) poll_handler \<Rightarrow> poller
     \<Rightarrow> ('e, 's, 'h) poll_world \<Rightarrow> (exn + poll_state) \<times> ('e, 's, 'h) poll_world" where
  "poll ops gap handler po w =
     (let currentSequence = seq_get (pw_store w) (po_sequence po);
          nextSequence = currentSequence + 1;
          availableSequence = poll_available ops po w;
          w0 = gap w
      in if nextSequence \<le> availableSequence
         then (case po_loop handler availableSequence nextSequence currentSequence w0 of
                 (Some e, processedSequence, w1) \<Rightarrow>
                   (Inl e, if is_thrown e then po_set po processedSequence w1 else w1)
               | (None, processedSequence, w1) \<Rightarrow> (Inr PROCESSING, po_set po processedSequence w1))
         else if rb_getCursor ops (pw_store w0) (pw_ring w0) \<ge> nextSequence then (Inr GATING, w0)
         else (Inr IDLE_POLL, w0))"

text \<open>
  The loop hands over the sequences from the first one on, without gaps; it stops at the last
  available one, at the first one after which the handler asks to stop, or at an exception,
  and then the throwing event does not count as processed.
\<close>

lemma po_loop_spec:
  assumes "po_loop h av n p w = (x, p', w')" and "n \<le> av" and "p = n - 1"
  shows "pw_store w' = pw_store w \<and> rb_sequencer (pw_ring w') = rb_sequencer (pw_ring w) \<and>
    (case x of
       None \<Rightarrow> n \<le> p' \<and> p' \<le> av \<and> map fst (pw_calls w') = map fst (pw_calls w) @ [n..p']
     | Some e \<Rightarrow> p \<le> p' \<and> p' < av \<and> map fst (pw_calls w') = map fst (pw_calls w) @ [n..p' + 1] \<and>
         (\<exists>ev q b u. fst (h ev q b u) = Inl e))"
  using assms
proof (induction h av n p w arbitrary: x p' w' rule: po_loop.induct)
  case (1 h av n p w)
  obtain r ev' u where r: "h (rb_get (pw_ring w) n) n (n = av) (pw_user w) = (r, ev', u)"
    by (metis prod_cases3)
  define w1 where "w1 = w\<lparr>pw_ring := rb_put n ev' (pw_ring w), pw_user := u,
      pw_calls := pw_calls w @ [(n, n = av)]\<rparr>"
  have w1: "pw_store w1 = pw_store w" "rb_sequencer (pw_ring w1) = rb_sequencer (pw_ring w)"
      "map fst (pw_calls w1) = map fst (pw_calls w) @ [n]"
    by (simp_all add: w1_def rb_put_def)
  have step: "po_loop h av n p w =
      (case r of Inl e \<Rightarrow> (Some e, p, w1)
       | Inr go \<Rightarrow> if n + 1 \<le> av \<and> go then po_loop h av (n + 1) n w1 else (None, n, w1))"
    unfolding po_loop.simps [of h av n p w] w1_def by (simp add: r Let_def)
  show ?case
  proof (cases r)
    case (Inl e)
    then have "x = Some e" "p' = p" "w' = w1" using "1.prems"(1) step by simp_all
    moreover have "\<exists>ev q b u. fst (h ev q b u) = Inl e" using r Inl by (metis fst_conv)
    ultimately show ?thesis using w1 "1.prems"(2,3) by simp
  next
    case (Inr go)
    show ?thesis
    proof (cases "n + 1 \<le> av \<and> go")
      case False
      then have "x = None" "p' = n" "w' = w1"
        using "1.prems"(1) unfolding step Inr by (auto split: if_splits)
      then show ?thesis using w1 "1.prems"(2) by simp
    next
      case True
      then have rest: "po_loop h av (n + 1) n w1 = (x, p', w')"
        using "1.prems"(1) unfolding step Inr by simp
      have "pw_store w' = pw_store w1 \<and> rb_sequencer (pw_ring w') = rb_sequencer (pw_ring w1) \<and>
        (case x of
           None \<Rightarrow> n + 1 \<le> p' \<and> p' \<le> av \<and> map fst (pw_calls w') = map fst (pw_calls w1) @ [n + 1..p']
         | Some e \<Rightarrow> n \<le> p' \<and> p' < av \<and> map fst (pw_calls w') = map fst (pw_calls w1) @ [n + 1..p' + 1] \<and>
             (\<exists>ev q b u. fst (h ev q b u) = Inl e))"
        by (rule "1.IH" [OF refl r [symmetric] refl refl w1_def Inr True rest]) (use True in auto)
      moreover have "[n..m] = n # [n + 1..m]" if "n \<le> m" for m using that by (simp add: upto.simps)
      ultimately show ?thesis using w1 "1.prems"(3) by (auto split: option.splits)
    qed
  qed
qed

text \<open>The other threads do not write the sequence of the poller and do not call its handler.\<close>

definition gap_ok :: "poller \<Rightarrow> (('e, 's, 'h) poll_world \<Rightarrow> ('e, 's, 'h) poll_world) \<Rightarrow> bool" where
  "gap_ok po gap \<longleftrightarrow>
     (\<forall>w. pw_calls (gap w) = pw_calls w \<and>
        pw_store (gap w) (po_sequence po) = pw_store w (po_sequence po))"

lemma poll_cases:
  assumes "poll ops gap h po w = (r, w')" and "gap_ok po gap"
    and "\<forall>e q b u. case fst (h e q b u) of Inl x \<Rightarrow> is_thrown x | Inr _ \<Rightarrow> True"
  defines "cur \<equiv> pw_store w (po_sequence po)" and "new \<equiv> pw_store w' (po_sequence po)"
    and "av \<equiv> poll_available ops po w"
  shows "if cur < av
    then cur \<le> new \<and> new \<le> av \<and>
      (case r of Inr s \<Rightarrow> s = PROCESSING \<and> cur < new \<and> map fst (pw_calls w') = map fst (pw_calls w) @ [cur + 1..new]
       | Inl e \<Rightarrow> new < av \<and> map fst (pw_calls w') = map fst (pw_calls w) @ [cur + 1..new + 1])
    else new = cur \<and> pw_calls w' = pw_calls w \<and>
      (r = Inr GATING \<or> r = Inr IDLE_POLL)"
proof (cases "cur < av")
  case False
  then show ?thesis using assms(1,2)
    by (auto simp: poll_def Let_def cur_def new_def av_def seq_get_def gap_ok_def split: if_splits)
next
  case True
  obtain x p w1 where loop: "po_loop h av (cur + 1) cur (gap w) = (x, p, w1)" by (metis prod_cases3)
  have calls: "pw_calls (gap w) = pw_calls w" using assms(2) by (simp add: gap_ok_def)
  note spec = po_loop_spec [OF loop]
  have thrown: "is_thrown e" if e: "x = Some e" for e
  proof -
    obtain ev q b u where "fst (h ev q b u) = Inl e" using spec True e by auto
    with assms(3) show ?thesis by (metis sum.simps(5))
  qed
  have unfolded: "poll ops gap h po w =
      (case x of Some e \<Rightarrow> (Inl e, if is_thrown e then po_set po p w1 else w1)
       | None \<Rightarrow> (Inr PROCESSING, po_set po p w1))"
    using True loop by (simp add: poll_def Let_def cur_def av_def seq_get_def split: option.split)
  show ?thesis
  proof (cases x)
    case None
    then have "r = Inr PROCESSING" "w' = po_set po p w1" using assms(1) unfolded by simp_all
    then show ?thesis using spec True None by (simp add: new_def po_set_def calls)
  next
    case (Some e)
    then have "r = Inl e" "w' = po_set po p w1" using assms(1) unfolded thrown by simp_all
    then show ?thesis using spec True Some by (simp add: new_def po_set_def calls)
  qed
qed

text \<open>
  GATING and IDLE tell the two reasons of an empty poll apart: the cursor, read last, has or has
  not reached the next sequence.
\<close>

lemma poll_empty:
  assumes "poll_available ops po w \<le> pw_store w (po_sequence po)"
  shows "poll ops gap h po w =
    (Inr (if pw_store w (po_sequence po) < rb_getCursor ops (pw_store (gap w)) (pw_ring (gap w))
          then GATING else IDLE_POLL), gap w)"
  using assms by (simp add: poll_def Let_def seq_get_def)

context sequencer
begin

text \<open>Every sequence up to the available one is published.\<close>

lemma poll_available_published:
  assumes "wf s" and "s = rb_sequencer (pw_ring w)"
    and "pw_store w (po_sequence po) \<le> gate_get (pw_store w) (po_gate po)"
    and "gate_get (pw_store w) (po_gate po) \<le> pw_store w (op_cursor ops s)"
    and "pw_store w (op_cursor ops s) - op_bufferSize ops s \<le> pw_store w (po_sequence po)"
  shows "poll_available ops po w \<le> gate_get (pw_store w) (po_gate po) \<and>
    (\<forall>l. pw_store w (po_sequence po) < l \<and> l \<le> poll_available ops po w \<longrightarrow>
       op_isAvailable ops l (pw_store w, s))"
  using highestPublished [OF assms(1), of "pw_store w (po_sequence po) + 1"
      "gate_get (pw_store w) (po_gate po)" "pw_store w"] assms(3-5)
  by (simp add: poll_available_def seq_get_def assms(2) [symmetric])

end

text \<open>What the gating sequence bounds: every sequence of the group.\<close>

lemma gate_get_le:
  "gate_get \<sigma> (GateSequence s) = \<sigma> s" "Some c \<in> set ss \<Longrightarrow> gate_get \<sigma> (GateGroup ss) \<le> \<sigma> c"
  by (simp_all add: seq_get_def getMinimumSequence_max_def getMinimumSequence_le_member ptrs_def)

section \<open>The processor that does nothing\<close>

text \<open>Its sequence is a \<open>SequencerFollowingSequence\<close>, whose \<open>get\<close> reads the cursor.\<close>

record noop_processor =
  no_sequence :: seq_obj
  no_running :: bool

definition new_NoOpEventProcessor :: "sid \<Rightarrow> noop_processor" where
  "new_NoOpEventProcessor cursorId = \<lparr>no_sequence = CursorFollower cursorId, no_running = False\<rparr>"

definition no_getSequence :: "noop_processor \<Rightarrow> seq_obj" where
  "no_getSequence p = no_sequence p"

definition no_halt :: "noop_processor \<Rightarrow> noop_processor" where
  "no_halt p = p\<lparr>no_running := False\<rparr>"

definition no_isRunning :: "noop_processor \<Rightarrow> bool" where
  "no_isRunning p = no_running p"

definition no_run :: "noop_processor \<Rightarrow> (exn + unit) \<times> noop_processor" where
  "no_run p =
     (if no_running p then (Inl (RuntimeErr ''Thread is already running''), p)
      else (Inr (), p\<lparr>no_running := True\<rparr>))"

text \<open>Placed at any address of a memory, the sequence reads as the cursor and ignores \<open>set\<close>.\<close>

lemma noop_sequence_follows:
  assumes "h s = no_getSequence (new_NoOpEventProcessor c)" and "vget n h c = Some v"
  shows "vget (Suc n) h s = Some v" and "vset (Suc n) x h s = Some (Inr h)"
  using assms by (simp_all add: no_getSequence_def new_NoOpEventProcessor_def)

section \<open>The aggregate handler\<close>

fun aggregate_call ::
  "(('e, 'h) event_handler \<Rightarrow> 'h \<Rightarrow> exn option \<times> 'h) \<Rightarrow> ('e, 'h) event_handler option list \<Rightarrow> 'h
     \<Rightarrow> exn option \<times> 'h" where
  "aggregate_call f [] u = (None, u)"
| "aggregate_call f (None # hs) u = aggregate_call f hs u"
| "aggregate_call f (Some h # hs) u =
     (case f h u of (Some e, u') \<Rightarrow> (Some e, u') | (None, u') \<Rightarrow> aggregate_call f hs u')"

fun aggregate_onEvent ::
  "('e, 'h) event_handler option list \<Rightarrow> 'e \<Rightarrow> int \<Rightarrow> bool \<Rightarrow> 'h \<Rightarrow> exn option \<times> 'e \<times> 'h" where
  "aggregate_onEvent [] ev q b u = (None, ev, u)"
| "aggregate_onEvent (None # hs) ev q b u = aggregate_onEvent hs ev q b u"
| "aggregate_onEvent (Some h # hs) ev q b u =
     (case onEvent h ev q b u of
        (Some e, ev', u') \<Rightarrow> (Some e, ev', u')
      | (None, ev', u') \<Rightarrow> aggregate_onEvent hs ev' q b u')"

definition AggregateEventHandler :: "('e, 'h) event_handler option list \<Rightarrow> ('e, 'h) event_handler" where
  "AggregateEventHandler hs =
     (EventHandlerBase (aggregate_onEvent hs))
       \<lparr>onStart := aggregate_call onStart hs, onShutdown := aggregate_call onShutdown hs\<rparr>"

lemma aggregate_call_None:
  "\<forall>h. Some h \<in> set hs \<longrightarrow> (\<forall>u. fst (f h u) = None) \<Longrightarrow> fst (aggregate_call f hs u) = None"
proof (induction f hs u rule: aggregate_call.induct)
  case (3 f h hs u)
  then have "fst (f h u) = None" by simp
  then obtain u' where "f h u = (None, u')" by (cases "f h u") simp
  then show ?case using "3.IH" "3.prems" by simp
qed simp_all

lemma aggregate_onEvent_None:
  "\<forall>h. Some h \<in> set hs \<longrightarrow> (\<forall>e u. fst (onEvent h e q b u) = None) \<Longrightarrow>
     fst (aggregate_onEvent hs ev q b u) = None"
proof (induction hs ev q b u rule: aggregate_onEvent.induct)
  case (3 h hs ev q b u)
  then have "fst (onEvent h ev q b u) = None" by simp
  then obtain ev' u' where "onEvent h ev q b u = (None, ev', u')" by (cases "onEvent h ev q b u") simp
  then show ?case using "3.IH" "3.prems" by simp
qed simp_all

text \<open>Aggregating handlers that do not throw gives one that does not throw.\<close>

lemma aggregate_quiet:
  "(\<And>h. Some h \<in> set hs \<Longrightarrow> quiet h) \<Longrightarrow> quiet (AggregateEventHandler hs)"
  unfolding quiet_def AggregateEventHandler_def
  by (simp add: EventHandlerBase_def aggregate_call_None aggregate_onEvent_None)

text \<open>An aggregate of two is one after the other, and nesting aggregates changes nothing.\<close>

lemma aggregate_onEvent_append:
  "aggregate_onEvent (hs @ hs') ev q b u =
     (case aggregate_onEvent hs ev q b u of
        (Some e, r) \<Rightarrow> (Some e, r)
      | (None, ev', u') \<Rightarrow> aggregate_onEvent hs' ev' q b u')"
  by (induction hs ev q b u rule: aggregate_onEvent.induct) (auto split: prod.splits option.splits)

lemma aggregate_nested:
  "aggregate_onEvent [Some (AggregateEventHandler hs), Some (AggregateEventHandler hs')] ev q b u =
     aggregate_onEvent (hs @ hs') ev q b u"
  unfolding aggregate_onEvent_append
  by (auto simp: AggregateEventHandler_def EventHandlerBase_def split: prod.splits option.splits)

section \<open>Property\<close>

text \<open>C29: One poll hands the events after the poller's sequence to the handler, in order and without gaps;
  all of them were published and none lies beyond what the gating sequences had reached. The poller's
  sequence then stands at the last event handed over, or just before it when the handler threw, so that
  event is handed over again; and a poll reports PROCESSING exactly when it handed over something.\<close>

theorem poll_delivers:
  assumes "mp_wf (rb_sequencer (pw_ring w))" and "gap_ok po gap"
    and "\<forall>e q b u. case fst (h e q b u) of Inl x \<Rightarrow> is_thrown x | Inr _ \<Rightarrow> True"
    and "pw_store w (po_sequence po) \<le> gate_get (pw_store w) (po_gate po)"
    and "gate_get (pw_store w) (po_gate po) \<le> pw_store w (cursor (rb_sequencer (pw_ring w)))"
    and "pw_store w (cursor (rb_sequencer (pw_ring w))) - bufferSize (rb_sequencer (pw_ring w))
      \<le> pw_store w (po_sequence po)"
    and "poll mp_ops gap h po w = (r, w')"
  shows "\<exists>q. map fst (pw_calls w') = map fst (pw_calls w) @ [pw_store w (po_sequence po) + 1..q] \<and>
    q \<le> gate_get (pw_store w) (po_gate po) \<and>
    (\<forall>l. pw_store w (po_sequence po) < l \<and> l \<le> q \<longrightarrow> mp_isAvailable l (rb_sequencer (pw_ring w))) \<and>
    (case r of
       Inl _ \<Rightarrow> pw_store w (po_sequence po) < q \<and> pw_store w' (po_sequence po) = q - 1
     | Inr st \<Rightarrow> pw_store w' (po_sequence po) = q \<and> (st = PROCESSING \<longleftrightarrow> pw_store w (po_sequence po) < q))"
proof -
  let ?cur = "pw_store w (po_sequence po)" and ?av = "poll_available mp_ops po w"
  have ops: "op_cursor mp_ops s = cursor s" "op_bufferSize mp_ops s = bufferSize s"
      "op_isAvailable mp_ops l (\<sigma>, s) = mp_isAvailable l s" for s l and \<sigma> :: store
    by (simp_all add: mp_ops_def cursorSequence_def getBufferSize_def)
  note av = mp_seq.poll_available_published [OF assms(1) refl assms(4), unfolded ops, OF assms(5,6)]
  note cases = poll_cases [OF assms(7,2,3)]
  show ?thesis
  proof (cases "?cur < ?av")
    case False
    then show ?thesis using cases assms(4) by (intro exI [of _ ?cur]) auto
  next
    case True
    show ?thesis
    proof (cases r)
      case (Inl e)
      then show ?thesis using cases True av by (intro exI [of _ "pw_store w' (po_sequence po) + 1"]) auto
    next
      case (Inr st)
      then show ?thesis using cases True av by (intro exI [of _ "pw_store w' (po_sequence po)"]) auto
    qed
  qed
qed

lemma poll_delivers_witness:
  "\<exists>w'. poll mp_ops id (\<lambda>e q b u. (Inr True, e, u)) \<lparr>po_sequence = 5, po_gate = GateSequence 0\<rparr>
      \<lparr>pw_store = (\<lambda>_. - 1)(0 := 0), pw_ring = demo_ring_buffer\<lparr>rb_sequencer := setAvailable 0 demo_sequencer\<rparr>,
       pw_user = (), pw_calls = []\<rparr> = (Inr PROCESSING, w') \<and> map fst (pw_calls w') = [0]"
proof -
  let ?po = "\<lparr>po_sequence = 5, po_gate = GateSequence 0\<rparr>" and ?h = "\<lambda>e q b u. (Inr True, e, u)"
  let ?s = "setAvailable 0 demo_sequencer"
  let ?w = "\<lparr>pw_store = (\<lambda>_. - 1)(0 := 0), pw_ring = demo_ring_buffer\<lparr>rb_sequencer := ?s\<rparr>,
       pw_user = (), pw_calls = []\<rparr>"
  have wf: "mp_wf ?s" by (simp add: demo_sequencer_ok)
  have s: "cursor ?s = 0" "bufferSize ?s = 1" by simp_all
  have "\<exists>w'. poll mp_ops id ?h ?po ?w = (Inr PROCESSING, w')"
    by (simp add: poll_def po_loop.simps poll_available_def mp_ops_def cursorSequence_def getBufferSize_def
       mp_getHighestPublishedSequence_def seq_get_def Let_def s mp_scan.simps setAvailable_def setAvailableBufferValue_def
       mp_isAvailable_def calculateIndex_def calculateAvailabilityFlag_def demo_ring_buffer_ok)
  then obtain w' where run: "poll mp_ops id ?h ?po ?w = (Inr PROCESSING, w')" by blast
  have "map fst (pw_calls w') = [0..pw_store w' 5] \<and> - 1 < pw_store w' 5 \<and> pw_store w' 5 \<le> 0"
    using poll_delivers [of ?w ?po id ?h "Inr PROCESSING" w'] wf s run by (auto simp: gap_ok_def seq_get_def)
  moreover from this have "pw_store w' 5 = 0" by linarith
  ultimately show ?thesis using run by auto
qed

end
