(* ===== verification/Example_Clients.thy ===== *)
theory Example_Clients
  imports Event_Poller
begin

text \<open>
  Clients of the library with logic of their own, from \<open>examples/disruptor_examples\<close>: the poller of
  \<open>PullWithBatchedPoller.cpp\<close>, which moves events from the ring into a private batch and hands them
  out one by one, the one-at-a-time poller of \<open>PullWithPoller.cpp\<close>, the handler of
  \<open>KeyedBatching.cpp\<close>, which groups consecutive events of one key, and the handler of
  \<open>EarlyReleaseHandler.cpp\<close>, which gives slots back before its batch ends, and the parallel and joining
  handlers of \<open>Pipeliner.cpp\<close>.
\<close>

section \<open>A poller with a private batch\<close>

record 'd batched_data =
  bd_capacity :: int
  bd_items :: "'d list"
  bd_cursor :: nat

definition new_BatchedData :: "int \<Rightarrow> 'd batched_data" where
  "new_BatchedData capacity = \<lparr>bd_capacity = capacity, bd_items = [], bd_cursor = 0\<rparr>"

definition msgCount :: "'d batched_data \<Rightarrow> int" where
  "msgCount b = int (length (bd_items b)) - int (bd_cursor b)"

definition addDataItem :: "'d \<Rightarrow> 'd batched_data \<Rightarrow> (exn + bool) \<times> 'd batched_data" where
  "addDataItem item b =
     (if int (length (bd_items b)) \<ge> bd_capacity b
      then (Inl (StdExn ''Attempting to add item to full batch''), b)
      else let items = bd_items b @ [item]
           in (Inr (int (length items) < bd_capacity b), b\<lparr>bd_items := items\<rparr>))"

definition clearCount :: "'d batched_data \<Rightarrow> 'd batched_data" where
  "clearCount b = b\<lparr>bd_items := [], bd_cursor := 0\<rparr>"

text \<open>\<open>dflt\<close> is the default-constructed item.\<close>

definition pollMessage :: "'d \<Rightarrow> 'd batched_data \<Rightarrow> 'd \<times> 'd batched_data" where
  "pollMessage dflt b =
     (let (rt, b1) = (if bd_cursor b < length (bd_items b)
                      then (bd_items b ! bd_cursor b, b\<lparr>bd_cursor := Suc (bd_cursor b)\<rparr>)
                      else (dflt, b))
      in (rt, if 0 < bd_cursor b1 \<and> length (bd_items b1) \<le> bd_cursor b1 then clearCount b1 else b1))"

definition batch_onEvent :: "('d, 'd batched_data) poll_handler" where
  "batch_onEvent ev q b u = (case addDataItem ev u of (r, u') \<Rightarrow> (r, ev, u'))"

definition loadNextValues ::
  "'s seq_ops \<Rightarrow> (('d, 's, 'd batched_data) poll_world \<Rightarrow> ('d, 's, 'd batched_data) poll_world) \<Rightarrow> poller
     \<Rightarrow> ('d, 's, 'd batched_data) poll_world \<Rightarrow> exn option \<times> ('d, 's, 'd batched_data) poll_world" where
  "loadNextValues ops gap po w =
     (case poll ops gap batch_onEvent po w of
        (Inl e, w') \<Rightarrow> (Some e, w')
      | (Inr _, w') \<Rightarrow> (None, w'))"

definition bp_poll ::
  "'s seq_ops \<Rightarrow> (('d, 's, 'd batched_data) poll_world \<Rightarrow> ('d, 's, 'd batched_data) poll_world) \<Rightarrow> 'd \<Rightarrow> poller
     \<Rightarrow> ('d, 's, 'd batched_data) poll_world \<Rightarrow> (exn + 'd) \<times> ('d, 's, 'd batched_data) poll_world" where
  "bp_poll ops gap dflt po w =
     (if msgCount (pw_user w) > 0
      then (case pollMessage dflt (pw_user w) of (d, b) \<Rightarrow> (Inr d, w\<lparr>pw_user := b\<rparr>))
      else case loadNextValues ops gap po w of
             (Some e, w1) \<Rightarrow> (Inl e, w1)
           | (None, w1) \<Rightarrow>
               if msgCount (pw_user w1) > 0
               then (case pollMessage dflt (pw_user w1) of (d, b) \<Rightarrow> (Inr d, w1\<lparr>pw_user := b\<rparr>))
               else (Inr dflt, w1))"

text \<open>What the batch still has to hand out. It is empty exactly when the whole batch is.\<close>

definition batch_left :: "'d batched_data \<Rightarrow> 'd list" where
  "batch_left b = drop (bd_cursor b) (bd_items b)"

definition batch_ok :: "'d batched_data \<Rightarrow> bool" where
  "batch_ok b \<longleftrightarrow> 1 \<le> bd_capacity b \<and>
     (bd_cursor b < length (bd_items b) \<or> bd_items b = [] \<and> bd_cursor b = 0)"

lemma batch_ok_new: "1 \<le> capacity \<Longrightarrow> batch_ok (new_BatchedData capacity) \<and> batch_left (new_BatchedData capacity) = []"
  by (simp add: batch_ok_def new_BatchedData_def batch_left_def)

lemma msgCount_pos: "batch_ok b \<Longrightarrow> 0 < msgCount b \<longleftrightarrow> batch_left b \<noteq> []"
  by (auto simp: batch_ok_def msgCount_def batch_left_def)

lemma pollMessage_spec:
  assumes "batch_ok b" and "batch_left b = x # xs"
  shows "\<exists>b'. pollMessage dflt b = (x, b') \<and> batch_ok b' \<and> batch_left b' = xs"
proof -
  have lt: "bd_cursor b < length (bd_items b)" using assms by (auto simp: batch_ok_def batch_left_def)
  have "drop (bd_cursor b) (bd_items b) = bd_items b ! bd_cursor b # drop (Suc (bd_cursor b)) (bd_items b)"
    by (rule Cons_nth_drop_Suc [OF lt, symmetric])
  then have x: "bd_items b ! bd_cursor b = x" "drop (Suc (bd_cursor b)) (bd_items b) = xs"
    using assms(2) by (simp_all add: batch_left_def)
  show ?thesis
    using lt x assms(1) by (auto simp: pollMessage_def Let_def clearCount_def batch_ok_def batch_left_def)
qed

text \<open>
  The loop of the poller over an empty batch: it takes events until there are no more or the batch
  is full; the test in \<open>addDataItem\<close> never fails, and the ring is not changed.
\<close>

lemma batch_loop:
  assumes "po_loop batch_onEvent av n p w = (x, p', w')" and "n \<le> av" and "p = n - 1"
    and "int (length (bd_items (pw_user w))) < bd_capacity (pw_user w)"
  shows "x = None \<and> n \<le> p' \<and> p' \<le> av \<and> pw_ring w' = pw_ring w \<and> pw_store w' = pw_store w \<and>
    pw_user w' = (pw_user w)\<lparr>bd_items := bd_items (pw_user w) @ map (rb_get (pw_ring w)) [n..p']\<rparr> \<and>
    int (length (bd_items (pw_user w))) + (p' - n + 1) \<le> bd_capacity (pw_user w)"
  using assms
proof (induction "nat (av - n)" arbitrary: n p w rule: less_induct)
  case less
  let ?b = "(pw_user w)\<lparr>bd_items := bd_items (pw_user w) @ [rb_get (pw_ring w) n]\<rparr>"
  define w1 where "w1 = w\<lparr>pw_ring := rb_put n (rb_get (pw_ring w) n) (pw_ring w), pw_user := ?b,
      pw_calls := pw_calls w @ [(n, n = av)]\<rparr>"
  let ?go = "int (length (bd_items (pw_user w))) + 1 < bd_capacity (pw_user w)"
  have ring: "rb_put n (rb_get (pw_ring w) n) (pw_ring w) = pw_ring w"
    by (simp add: rb_put_def rb_get_def elementAt_def)
  have w1: "pw_ring w1 = pw_ring w" "pw_store w1 = pw_store w" "pw_user w1 = ?b" by (simp_all add: w1_def ring)
  have step: "po_loop batch_onEvent av n p w =
      (if n + 1 \<le> av \<and> ?go then po_loop batch_onEvent av (n + 1) n w1 else (None, n, w1))"
    using less.prems(4)
    by (subst po_loop.simps) (simp add: batch_onEvent_def addDataItem_def Let_def w1_def)
  show ?case
  proof (cases "n + 1 \<le> av \<and> ?go")
    case False
    then have "(x, p', w') = (None, n, w1)" using less.prems(1) unfolding step by auto
    then show ?thesis using w1 less.prems(2,4) by simp
  next
    case True
    then have run: "po_loop batch_onEvent av (n + 1) n w1 = (x, p', w')" using less.prems(1) unfolding step by simp
    have "x = None \<and> n + 1 \<le> p' \<and> p' \<le> av \<and> pw_ring w' = pw_ring w1 \<and> pw_store w' = pw_store w1 \<and>
      pw_user w' = (pw_user w1)\<lparr>bd_items := bd_items (pw_user w1) @ map (rb_get (pw_ring w1)) [n + 1..p']\<rparr> \<and>
      int (length (bd_items (pw_user w1))) + (p' - (n + 1) + 1) \<le> bd_capacity (pw_user w1)"
      by (rule less.hyps [OF _ run]) (use True w1 in auto)
    moreover from this have "[n..p'] = n # [n + 1..p']" by (simp add: upto.simps)
    ultimately show ?thesis using w1 by simp
  qed
qed

text \<open>The other threads neither touch the poller's sequence nor its batch, nor the slots it is about to
  read, which gate the producers.\<close>

definition bp_gap_ok ::
  "'s seq_ops \<Rightarrow> poller \<Rightarrow> ('d, 's, 'd batched_data) poll_world
     \<Rightarrow> (('d, 's, 'd batched_data) poll_world \<Rightarrow> ('d, 's, 'd batched_data) poll_world) \<Rightarrow> bool" where
  "bp_gap_ok ops po w gap \<longleftrightarrow>
     pw_user (gap w) = pw_user w \<and> pw_store (gap w) (po_sequence po) = pw_store w (po_sequence po) \<and>
     (\<forall>q. pw_store w (po_sequence po) < q \<and> q \<le> poll_available ops po w \<longrightarrow>
        rb_get (pw_ring (gap w)) q = rb_get (pw_ring w) q)"

section \<open>One event at a time\<close>

definition one_onEvent :: "('d, 'd) poll_handler" where
  "one_onEvent ev q b u = (Inr False, ev, ev)"

definition getNextValue ::
  "'s seq_ops \<Rightarrow> (('d, 's, 'd) poll_world \<Rightarrow> ('d, 's, 'd) poll_world) \<Rightarrow> 'd \<Rightarrow> poller
     \<Rightarrow> ('d, 's, 'd) poll_world \<Rightarrow> (exn + 'd) \<times> ('d, 's, 'd) poll_world" where
  "getNextValue ops gap dflt po w =
     (case poll ops gap one_onEvent po (w\<lparr>pw_user := dflt\<rparr>) of
        (Inl e, w') \<Rightarrow> (Inl e, w')
      | (Inr _, w') \<Rightarrow> (Inr (pw_user w'), w'))"

text \<open>It hands out the event after the poller's sequence and moves the sequence by one, or leaves both alone.\<close>

lemma getNextValue_one:
  assumes "\<And>v. pw_user (gap v) = pw_user v \<and> pw_store (gap v) (po_sequence po) = pw_store v (po_sequence po)"
    and "getNextValue ops gap dflt po w = (r, w')"
  defines "cur \<equiv> pw_store w (po_sequence po)"
  shows "if cur < poll_available ops po (w\<lparr>pw_user := dflt\<rparr>)
    then r = Inr (rb_get (pw_ring (gap (w\<lparr>pw_user := dflt\<rparr>))) (cur + 1)) \<and> pw_store w' (po_sequence po) = cur + 1
    else r = Inr dflt \<and> pw_store w' (po_sequence po) = cur"
  using assms(2) assms(1) [of "w\<lparr>pw_user := dflt\<rparr>"]
  by (auto simp: getNextValue_def poll_def Let_def po_loop.simps one_onEvent_def po_set_def seq_get_def cur_def
      seq_set_def split: if_splits)

section \<open>Batches of one key\<close>

text \<open>\<open>kb_done\<close> records the batches that \<open>processBatch\<close> worked on; the example's work is a comment.\<close>

record keyed_batching =
  kb_batch :: "string list"
  kb_key :: int
  kb_done :: "(int \<times> string list) list"

definition MAX_BATCH_SIZE :: nat where
  "MAX_BATCH_SIZE = 100"

definition new_KeyedBatching :: keyed_batching where
  "new_KeyedBatching = \<lparr>kb_batch = [], kb_key = 0, kb_done = []\<rparr>"

definition processBatch :: "keyed_batching \<Rightarrow> keyed_batching" where
  "processBatch k = k\<lparr>kb_batch := [], kb_done := kb_done k @ [(kb_key k, kb_batch k)]\<rparr>"

definition keyed_onEvent :: "int \<times> string \<Rightarrow> bool \<Rightarrow> keyed_batching \<Rightarrow> keyed_batching" where
  "keyed_onEvent event endOfBatch k =
     (let k1 = (if kb_batch k \<noteq> [] \<and> fst event \<noteq> kb_key k then processBatch k else k);
          k2 = k1\<lparr>kb_batch := kb_batch k1 @ [snd event], kb_key := fst event\<rparr>
      in if endOfBatch \<or> length (kb_batch k2) \<ge> MAX_BATCH_SIZE then processBatch k2 else k2)"

definition keyed_run :: "((int \<times> string) \<times> bool) list \<Rightarrow> keyed_batching \<Rightarrow> keyed_batching" where
  "keyed_run evs k = fold (\<lambda>(ev, eob) k. keyed_onEvent ev eob k) evs k"

text \<open>The events behind the batches, the open one included.\<close>

definition keyed_events :: "keyed_batching \<Rightarrow> (int \<times> string) list" where
  "keyed_events k = concat (map (\<lambda>(key, ds). map (Pair key) ds) (kb_done k @ [(kb_key k, kb_batch k)]))"

definition keyed_ok :: "keyed_batching \<Rightarrow> bool" where
  "keyed_ok k \<longleftrightarrow> length (kb_batch k) < MAX_BATCH_SIZE \<and>
     (\<forall>(key, ds)\<in>set (kb_done k). ds \<noteq> [] \<and> length ds \<le> MAX_BATCH_SIZE)"

lemma keyed_step:
  assumes "keyed_ok k"
  shows "keyed_ok (keyed_onEvent ev eob k)" and "keyed_events (keyed_onEvent ev eob k) = keyed_events k @ [ev]"
    and "eob \<Longrightarrow> kb_batch (keyed_onEvent ev eob k) = []"
  using assms
  by (auto simp: keyed_onEvent_def Let_def processBatch_def keyed_ok_def keyed_events_def MAX_BATCH_SIZE_def
      split: prod.splits)

lemma keyed_run_spec:
  "keyed_ok k \<Longrightarrow> keyed_ok (keyed_run evs k) \<and> keyed_events (keyed_run evs k) = keyed_events k @ map fst evs"
  by (induction evs arbitrary: k) (auto simp: keyed_run_def keyed_step split: prod.splits)

section \<open>Early release\<close>

text \<open>The handler writes the processor's sequence through the callback: the result is the value written.\<close>

definition early_onEvent :: "bool \<Rightarrow> int \<Rightarrow> bool \<Rightarrow> int \<Rightarrow> int option \<times> int" where
  "early_onEvent hasCallback sequence endOfBatch batchRemaining =
     (let remaining = batchRemaining - 1; complete = (remaining = - 1)
      in (if complete \<and> hasCallback then Some sequence else None,
          if complete \<or> endOfBatch then 20 else remaining))"

text \<open>Inside a batch every 21st event is released, itself included, never one that was not handled yet.\<close>

lemma early_counts:
  assumes "0 \<le> r" and "r \<le> 20"
  shows "case early_onEvent True q eob r of
    (release, r') \<Rightarrow> 0 \<le> r' \<and> r' \<le> 20 \<and> (release = (if r = 0 then Some q else None)) \<and>
      (r' = (if r = 0 \<or> eob then 20 else r - 1))"
  using assms by (simp add: early_onEvent_def Let_def)

section \<open>A diamond of handlers\<close>

record pipeliner_event =
  pe_input :: int
  pe_result :: "string option"

definition digit :: "nat \<Rightarrow> char" where
  "digit n = char_of (48 + n)"

function nat_to_string :: "nat \<Rightarrow> string" where
  "nat_to_string n = (if n < 10 then [digit n] else nat_to_string (n div 10) @ [digit (n mod 10)])"
  by pat_completeness auto
termination
  by (relation "measure id") auto

declare nat_to_string.simps [simp del]

definition int_to_string :: "int \<Rightarrow> string" where
  "int_to_string i = (if i < 0 then CHR ''-'' # nat_to_string (nat (- i)) else nat_to_string (nat i))"

definition parallel_onEvent :: "int \<Rightarrow> int \<Rightarrow> int \<Rightarrow> pipeliner_event \<Rightarrow> pipeliner_event" where
  "parallel_onEvent ordinal totalHandlers sequence event =
     (if c_mod sequence totalHandlers = ordinal
      then event\<lparr>pe_result := Some (int_to_string (pe_input event))\<rparr> else event)"

record joining_handler =
  jh_lastEvent :: int
  jh_errors :: int

definition new_JoiningHandler :: joining_handler where
  "new_JoiningHandler = \<lparr>jh_lastEvent = - 1, jh_errors = 0\<rparr>"

definition joining_onEvent :: "pipeliner_event \<Rightarrow> joining_handler \<Rightarrow> pipeliner_event \<times> joining_handler" where
  "joining_onEvent event j =
     (event\<lparr>pe_result := None\<rparr>,
      j\<lparr>jh_errors := (if pe_input event \<noteq> jh_lastEvent j + 1 \<or> pe_result event = None
                        then jh_errors j + 1 else jh_errors j),
        jh_lastEvent := pe_input event\<rparr>)"

text \<open>
  One event through the diamond: the parallel handlers in any order, then the joining one, as the
  dependencies of \<open>handleEventsWith(h0, h1, h2).then(join)\<close> allow. The event of sequence \<open>q\<close> has input
  \<open>q\<close>.
\<close>

definition diamond :: "int list \<Rightarrow> int \<Rightarrow> joining_handler \<Rightarrow> joining_handler" where
  "diamond order q j =
     snd (joining_onEvent (fold (\<lambda>i ev. parallel_onEvent i 3 q ev) order \<lparr>pe_input = q, pe_result = None\<rparr>) j)"

lemma parallel_fold:
  "pe_input (fold (\<lambda>i ev. parallel_onEvent i n q ev) order ev) = pe_input ev \<and>
   (pe_result (fold (\<lambda>i ev. parallel_onEvent i n q ev) order ev) \<noteq> None \<longleftrightarrow>
      pe_result ev \<noteq> None \<or> c_mod q n \<in> set order)"
  by (induction order arbitrary: ev) (auto simp: parallel_onEvent_def)

lemma diamond_step:
  assumes "{0, 1, 2} \<subseteq> set order" and "0 \<le> q" and "jh_lastEvent j = q - 1"
  shows "jh_errors (diamond order q j) = jh_errors j" and "jh_lastEvent (diamond order q j) = q"
proof -
  have "c_mod q 3 = q mod 3"
    using assms(2) by (cases "q = 0") (simp_all add: c_mod_def c_div_def minus_div_mult_eq_mod)
  then have "c_mod q 3 = 0 \<or> c_mod q 3 = 1 \<or> c_mod q 3 = 2" by presburger
  then have "c_mod q 3 \<in> set order" using assms(1) by auto
  then show "jh_errors (diamond order q j) = jh_errors j" "jh_lastEvent (diamond order q j) = q"
    using parallel_fold [of 3 q order "\<lparr>pe_input = q, pe_result = None\<rparr>"] assms(3)
    by (auto simp: diamond_def joining_onEvent_def)
qed

text \<open>Whatever the order in which the parallel handlers take each event, the joining handler finds every
  event completed and none out of order.\<close>

lemma pipeline_no_errors:
  assumes "\<And>q. {0, 1, 2} \<subseteq> set (order q)"
  shows "fold (\<lambda>q. diamond (order q) q) (map int [0..<n]) new_JoiningHandler =
    \<lparr>jh_lastEvent = int n - 1, jh_errors = 0\<rparr>"
proof (induction n)
  case (Suc n)
  let ?j = "\<lparr>jh_lastEvent = int n - 1, jh_errors = 0\<rparr>"
  have "diamond (order (int n)) (int n) ?j = \<lparr>jh_lastEvent = int n, jh_errors = 0\<rparr>"
    using diamond_step [OF assms, of "int n" ?j "int n"] by (simp add: joining_handler.equality)
  then show ?case using Suc by simp
qed (simp add: new_JoiningHandler_def)

section \<open>Properties\<close>

text \<open>C38: The batched poller refines a queue over the ring: with \<open>left\<close> what its batch still holds, a poll
  that finds an empty batch first loads consecutive available events, at most a batch of them, and
  moves the poller's sequence past exactly those; it then hands out the first event of what was left
  followed by what was loaded and keeps the rest, or the default item when there is none. It never
  overfills its batch, and no event is skipped or handed out twice.\<close>

theorem batched_poller_refines_queue:
  assumes "batch_ok (pw_user w)" and "bp_gap_ok ops po w gap" and "bp_poll ops gap dflt po w = (r, w')"
  shows "\<exists>q loaded. pw_store w (po_sequence po) \<le> q \<and> q \<le> max (pw_store w (po_sequence po)) (poll_available ops po w) \<and>
    loaded = map (rb_get (pw_ring w)) [pw_store w (po_sequence po) + 1..q] \<and>
    pw_store w' (po_sequence po) = q \<and> batch_ok (pw_user w') \<and>
    (loaded \<noteq> [] \<longleftrightarrow> batch_left (pw_user w) = [] \<and> pw_store w (po_sequence po) < poll_available ops po w) \<and>
    int (length loaded) \<le> bd_capacity (pw_user w) \<and>
    (case batch_left (pw_user w) @ loaded of
       [] \<Rightarrow> r = Inr dflt \<and> batch_left (pw_user w') = []
     | x # xs \<Rightarrow> r = Inr x \<and> batch_left (pw_user w') = xs)"
proof -
  let ?cur = "pw_store w (po_sequence po)" and ?av = "poll_available ops po w" and ?u = "pw_user w"
  show ?thesis
  proof (cases "batch_left ?u")
    case (Cons x xs)
    then have "0 < msgCount ?u" using msgCount_pos [OF assms(1)] by simp
    moreover obtain b' where "pollMessage dflt ?u = (x, b')" "batch_ok b'" "batch_left b' = xs"
      using pollMessage_spec [OF assms(1) Cons] by blast
    ultimately have "r = Inr x" "w' = w\<lparr>pw_user := b'\<rparr>" "batch_ok b'" "batch_left b' = xs"
      using assms(3) by (simp_all add: bp_poll_def)
    moreover have "1 \<le> bd_capacity ?u" using assms(1) by (simp add: batch_ok_def)
    ultimately show ?thesis using Cons by (intro exI [of _ ?cur] exI [of _ "[]"]) simp
  next
    case Nil
    then have no: "\<not> 0 < msgCount ?u" using msgCount_pos [OF assms(1)] by simp
    have u: "bd_items ?u = []" "bd_cursor ?u = 0" "1 \<le> bd_capacity ?u"
      using assms(1) Nil by (auto simp: batch_ok_def batch_left_def)
    have gap: "pw_user (gap w) = ?u" "pw_store (gap w) (po_sequence po) = ?cur"
        "\<And>q. ?cur < q \<Longrightarrow> q \<le> ?av \<Longrightarrow> rb_get (pw_ring (gap w)) q = rb_get (pw_ring w) q"
      using assms(2) by (simp_all add: bp_gap_ok_def)
    show ?thesis
    proof (cases "?cur < ?av")
      case False
      then have "loadNextValues ops gap po w = (None, gap w)"
        by (simp add: loadNextValues_def poll_def Let_def seq_get_def)
      then have "r = Inr dflt" "w' = gap w" using assms(3) no gap(1) by (simp_all add: bp_poll_def)
      then show ?thesis using Nil gap assms(1) u(3) False by (intro exI [of _ ?cur] exI [of _ "[]"]) simp
    next
      case True
      obtain x p w1 where loop: "po_loop batch_onEvent ?av (?cur + 1) ?cur (gap w) = (x, p, w1)" by (metis prod_cases3)
      have L: "x = None" "?cur + 1 \<le> p" "p \<le> ?av" "pw_store w1 = pw_store (gap w)"
          "pw_user w1 = ?u\<lparr>bd_items := map (rb_get (pw_ring (gap w))) [?cur + 1..p]\<rparr>"
          "int (length [?cur + 1..p]) \<le> bd_capacity ?u"
        using batch_loop [OF loop] True gap(1) u by simp_all
      have same: "map (rb_get (pw_ring (gap w))) [?cur + 1..p] = map (rb_get (pw_ring w)) [?cur + 1..p]"
        using gap(3) L(3) by simp
      let ?loaded = "map (rb_get (pw_ring w)) [?cur + 1..p]"
      let ?w1 = "po_set po p w1"
      have load: "loadNextValues ops gap po w = (None, ?w1)"
        using True loop L(1) by (simp add: loadNextValues_def poll_def Let_def seq_get_def)
      have u1: "pw_user ?w1 = ?u\<lparr>bd_items := ?loaded\<rparr>" using L(5) same by (simp add: po_set_def)
      have ok1: "batch_ok (pw_user ?w1)" and left1: "batch_left (pw_user ?w1) = ?loaded"
        using u L(2) by (simp_all add: u1 batch_ok_def batch_left_def)
      obtain y ys where y: "?loaded = y # ys" using L(2) by (cases ?loaded) auto
      have "int (length (y # ys)) \<le> bd_capacity ?u" unfolding y [symmetric] using L(6) by (simp only: length_map)
      then have len: "1 + int (length ys) \<le> bd_capacity ?u" by simp
      have pos: "0 < msgCount (pw_user ?w1)" using msgCount_pos [OF ok1] left1 y by simp
      obtain b' where b': "pollMessage dflt (pw_user ?w1) = (y, b')" "batch_ok b'" "batch_left b' = ys"
        using pollMessage_spec [OF ok1] left1 y by metis
      have "r = Inr y" "w' = ?w1\<lparr>pw_user := b'\<rparr>" using assms(3) no load pos b'(1) by (simp_all add: bp_poll_def)
      moreover have "pw_store ?w1 (po_sequence po) = p" by (simp add: po_set_def)
      ultimately show ?thesis using Nil b'(2,3) y L(2,3) len True by (intro exI [of _ p] exI [of _ ?loaded]) simp
    qed
  qed
qed

lemma batched_poller_refines_queue_witness:
  "\<exists>w'. bp_poll mp_ops id 9 \<lparr>po_sequence = 5, po_gate = GateSequence 0\<rparr>
      \<lparr>pw_store = (\<lambda>_. - 1)(0 := 0),
       pw_ring = rb_put 0 7 (demo_ring_buffer\<lparr>rb_sequencer := setAvailable 0 demo_sequencer\<rparr>),
       pw_user = (new_BatchedData 40 :: nat batched_data), pw_calls = []\<rparr> = (Inr 7, w') \<and> batch_left (pw_user w') = []"
proof -
  let ?po = "\<lparr>po_sequence = 5, po_gate = GateSequence 0\<rparr>" and ?s = "setAvailable 0 demo_sequencer"
  let ?rb = "demo_ring_buffer\<lparr>rb_sequencer := ?s\<rparr>"
  let ?w = "\<lparr>pw_store = (\<lambda>_. - 1)(0 := 0), pw_ring = rb_put 0 7 ?rb,
       pw_user = (new_BatchedData 40 :: nat batched_data), pw_calls = []\<rparr>"
  have av: "poll_available mp_ops ?po ?w = 0"
    by (simp add: poll_available_def mp_ops_def mp_getHighestPublishedSequence_def seq_get_def mp_scan.simps
        rb_put_def demo_sequencer_ok)
  have ok: "rb_ok mp_ops ?rb"
    using demo_ring_buffer_ok(1,2) by (simp add: rb_ok_sequencer_update mp_ops_def getBufferSize_def)
  have get: "rb_get (rb_put 0 7 ?rb) 0 = 7" using rb_get_put [OF ok] by simp
  obtain r w' where run: "bp_poll mp_ops id 9 ?po ?w = (r, w')" by (cases "bp_poll mp_ops id 9 ?po ?w")
  have batch: "batch_ok (pw_user ?w)" "batch_left (pw_user ?w) = []" by (simp_all add: batch_ok_new)
  have gap: "bp_gap_ok mp_ops ?po ?w id" by (simp add: bp_gap_ok_def)
  obtain q loaded where Q: "q \<le> max (pw_store ?w (po_sequence ?po)) (poll_available mp_ops ?po ?w)"
      "loaded = map (rb_get (pw_ring ?w)) [pw_store ?w (po_sequence ?po) + 1..q]"
      "loaded \<noteq> [] \<longleftrightarrow>
        batch_left (pw_user ?w) = [] \<and> pw_store ?w (po_sequence ?po) < poll_available mp_ops ?po ?w"
      "case batch_left (pw_user ?w) @ loaded of
         [] \<Rightarrow> r = Inr 9 \<and> batch_left (pw_user w') = []
       | x # xs \<Rightarrow> r = Inr x \<and> batch_left (pw_user w') = xs"
    using batched_poller_refines_queue [OF batch(1) gap run] by blast
  have "loaded \<noteq> []" using Q(3) av batch(2) by simp
  moreover have upto: "loaded = map (rb_get (rb_put 0 7 ?rb)) [0..q]" "q \<le> 0" using Q(1,2) av by simp_all
  ultimately have "q = 0" by (cases "0 \<le> q") simp_all
  then have "loaded = [7]" using upto(1) get by simp
  then show ?thesis using Q(4) batch(2) run by simp
qed

text \<open>C39: \<open>KeyedBatching\<close> loses and mixes nothing: after any events the processed batches and the open one
  contain exactly the events seen, in order, each batch with events of one key only, none empty and none
  over the maximum, and nothing stays open after the end of a ring batch.\<close>

theorem keyed_batching_groups:
  "concat (map (\<lambda>(key, ds). map (Pair key) ds)
      (kb_done (keyed_run evs new_KeyedBatching) @
        [(kb_key (keyed_run evs new_KeyedBatching), kb_batch (keyed_run evs new_KeyedBatching))])) = map fst evs \<and>
    (\<forall>(key, ds)\<in>set (kb_done (keyed_run evs new_KeyedBatching)). ds \<noteq> [] \<and> length ds \<le> MAX_BATCH_SIZE) \<and>
    length (kb_batch (keyed_run evs new_KeyedBatching)) < MAX_BATCH_SIZE \<and>
    (evs \<noteq> [] \<and> snd (last evs) \<longrightarrow> kb_batch (keyed_run evs new_KeyedBatching) = [])"
proof -
  have start: "keyed_ok new_KeyedBatching" "keyed_events new_KeyedBatching = []"
    by (simp_all add: keyed_ok_def new_KeyedBatching_def keyed_events_def MAX_BATCH_SIZE_def)
  have "kb_batch (keyed_run evs new_KeyedBatching) = []" if "evs \<noteq> []" "snd (last evs)"
  proof (cases evs rule: rev_cases)
    case (snoc es e)
    then have "keyed_run evs new_KeyedBatching = keyed_onEvent (fst e) True (keyed_run es new_KeyedBatching)"
      using that(2) by (simp add: keyed_run_def case_prod_unfold)
    then show ?thesis using keyed_step(3) keyed_run_spec [OF start(1)] by simp
  qed (use that in simp)
  then show ?thesis using keyed_run_spec [OF start(1), of evs] start(2) unfolding keyed_ok_def keyed_events_def by simp
qed

lemma keyed_batching_groups_witness:
  "kb_batch (keyed_run [((1, ''a''), False), ((2, ''b''), True)] new_KeyedBatching) = []"
  using keyed_batching_groups [of "[((1, ''a''), False), ((2, ''b''), True)]"] by simp

end
