(* ===== verification/Consumer_Repository.thy ===== *)
theory Consumer_Repository
  imports Event_Poller
begin

text \<open>
  The bookkeeping of the DSL: \<open>EventProcessorInfo\<close> (\<open>dsl/EventProcessorInfo.h\<close>) and
  \<open>ConsumerRepository\<close> (\<open>dsl/ConsumerRepository.h\<close>).

  Processors and barriers are objects known by address, here the index in the list of all of
  them.  An info object is shared between the vector \<open>consumerInfos_\<close> and the two maps; since
  every info is pushed to the vector exactly once, its index there is its address.  A processor
  built by the DSL is a \<open>BatchEventProcessor\<close>; any other is user code, a function that halts it
  and one that says whether it runs.
\<close>

section \<open>Processors\<close>

type_synonym pid = nat
type_synonym bid = nat
type_synonym hid = nat

text \<open>A reference to an exception handler: the wrapper the disruptor owns, or one of the user.\<close>

datatype eh_ref = Wrapper | External nat

record 'u event_processor =
  ep_sequence :: sid
  ep_running :: run_state
  ep_barrier :: bid
  ep_exceptionHandler :: "eh_ref option"
  ep_custom :: "(('u \<Rightarrow> 'u) \<times> ('u \<Rightarrow> bool)) option"

text \<open>
  \<open>m_bodies\<close> are the threads launched, each with whether it will count the startup latch down
  before it runs its processor; \<open>m_latch\<close> is how often \<open>start\<close> itself counted it down.
\<close>

record 'u machine =
  m_store :: store
  m_procs :: "'u event_processor list"
  m_barriers :: "barrier list"
  m_user :: 'u
  m_latch :: nat
  m_bodies :: "(pid \<times> bool) list"

definition proc_at :: "('u, 'z) machine_scheme \<Rightarrow> pid \<Rightarrow> 'u event_processor" where
  "proc_at m p = m_procs m ! p"

definition ep_halt :: "pid \<Rightarrow> ('u, 'z) machine_scheme \<Rightarrow> ('u, 'z) machine_scheme" where
  "ep_halt p m =
     (case ep_custom (proc_at m p) of
        None \<Rightarrow> m\<lparr>m_procs := (m_procs m)[p := (proc_at m p)\<lparr>ep_running := HALTED\<rparr>],
                  m_barriers := (m_barriers m)[ep_barrier (proc_at m p) :=
                    alert (m_barriers m ! ep_barrier (proc_at m p))]\<rparr>
      | Some (h, _) \<Rightarrow> m\<lparr>m_user := h (m_user m)\<rparr>)"

definition ep_isRunning :: "('u, 'z) machine_scheme \<Rightarrow> pid \<Rightarrow> bool" where
  "ep_isRunning m p =
     (case ep_custom (proc_at m p) of
        None \<Rightarrow> ep_running (proc_at m p) \<noteq> IDLE
      | Some (_, r) \<Rightarrow> r (m_user m))"

section \<open>EventProcessorInfo\<close>

record info =
  i_processor :: pid
  i_barrier :: "bid option"
  i_endOfChain :: bool
  i_joinable :: bool

definition new_EventProcessorInfo :: "pid \<Rightarrow> bid option \<Rightarrow> info" where
  "new_EventProcessorInfo p b = \<lparr>i_processor = p, i_barrier = b, i_endOfChain = True, i_joinable = False\<rparr>"

definition info_getSequences :: "('u, 'z) machine_scheme \<Rightarrow> info \<Rightarrow> sid list" where
  "info_getSequences m i = [ep_sequence (proc_at m (i_processor i))]"

definition info_isRunning :: "('u, 'z) machine_scheme \<Rightarrow> info \<Rightarrow> bool" where
  "info_isRunning m i = ep_isRunning m (i_processor i)"

definition info_halt :: "info \<Rightarrow> ('u, 'z) machine_scheme \<Rightarrow> ('u, 'z) machine_scheme" where
  "info_halt i m = ep_halt (i_processor i) m"

definition markAsUsedInBarrier :: "info \<Rightarrow> info" where
  "markAsUsedInBarrier i = i\<lparr>i_endOfChain := False\<rparr>"

text \<open>
  \<open>start\<close>.  The thread factory is user code and may throw.  Assigning to a \<open>std::thread\<close> that
  is still joinable terminates the program: \<open>None\<close>.
\<close>

definition info_start ::
  "('u \<Rightarrow> exn option \<times> 'u) \<Rightarrow> bool \<Rightarrow> info \<Rightarrow> ('u, 'z) machine_scheme
     \<Rightarrow> (exn option \<times> info \<times> ('u, 'z) machine_scheme) option" where
  "info_start newThread startupLatch i m =
     (case newThread (m_user m) of
        (Some e, u) \<Rightarrow>
          Some (Some e, i, m\<lparr>m_user := u, m_latch := (if startupLatch then Suc (m_latch m) else m_latch m)\<rparr>)
      | (None, u) \<Rightarrow>
          if i_joinable i then None
          else Some (None, i\<lparr>i_joinable := True\<rparr>,
                     m\<lparr>m_user := u, m_bodies := m_bodies m @ [(i_processor i, startupLatch)]\<rparr>))"

text \<open>\<open>join\<close> returns when the thread has ended, which \<open>ended\<close> tells.\<close>

definition info_join :: "(pid \<Rightarrow> bool) \<Rightarrow> info \<Rightarrow> info option" where
  "info_join ended i =
     (if i_joinable i
      then (if ended (i_processor i) then Some (i\<lparr>i_joinable := False\<rparr>) else None)
      else Some i)"

section \<open>ConsumerRepository\<close>

record repository =
  consumerInfos :: "info list"
  infoByEventHandler :: "hid \<rightharpoonup> nat"
  infoBySequence :: "sid \<rightharpoonup> nat"

definition new_repository :: repository where
  "new_repository = \<lparr>consumerInfos = [], infoByEventHandler = Map.empty, infoBySequence = Map.empty\<rparr>"

definition repo_add_handler :: "pid \<Rightarrow> sid \<Rightarrow> hid \<Rightarrow> bid \<Rightarrow> repository \<Rightarrow> repository" where
  "repo_add_handler p sq h b r =
     (let k = length (consumerInfos r) in
      r\<lparr>infoByEventHandler := (infoByEventHandler r)(h \<mapsto> k),
        infoBySequence := (infoBySequence r)(sq \<mapsto> k),
        consumerInfos := consumerInfos r @ [new_EventProcessorInfo p (Some b)]\<rparr>)"

definition repo_add :: "pid \<Rightarrow> sid \<Rightarrow> repository \<Rightarrow> repository" where
  "repo_add p sq r =
     (let k = length (consumerInfos r) in
      r\<lparr>infoBySequence := (infoBySequence r)(sq \<mapsto> k),
        consumerInfos := consumerInfos r @ [new_EventProcessorInfo p None]\<rparr>)"

fun startAll_from ::
  "('u \<Rightarrow> exn option \<times> 'u) \<Rightarrow> bool \<Rightarrow> info list \<Rightarrow> ('u, 'z) machine_scheme
     \<Rightarrow> (exn option \<times> info list \<times> ('u, 'z) machine_scheme) option" where
  "startAll_from newThread startupLatch [] m = Some (None, [], m)"
| "startAll_from newThread startupLatch (i # is) m =
     (case info_start newThread startupLatch i m of
        None \<Rightarrow> None
      | Some (Some e, i', m') \<Rightarrow> Some (Some e, i' # is, m')
      | Some (None, i', m') \<Rightarrow>
          map_option (\<lambda>(x, is', m''). (x, i' # is', m'')) (startAll_from newThread startupLatch is m'))"

definition startAll ::
  "('u \<Rightarrow> exn option \<times> 'u) \<Rightarrow> bool \<Rightarrow> repository \<Rightarrow> ('u, 'z) machine_scheme
     \<Rightarrow> (exn option \<times> repository \<times> ('u, 'z) machine_scheme) option" where
  "startAll newThread startupLatch r m =
     map_option (\<lambda>(x, is, m'). (x, r\<lparr>consumerInfos := is\<rparr>, m'))
       (startAll_from newThread startupLatch (consumerInfos r) m)"

definition repo_getProcessorCount :: "repository \<Rightarrow> int" where
  "repo_getProcessorCount r = int (length (consumerInfos r))"

definition haltAll :: "repository \<Rightarrow> ('u, 'z) machine_scheme \<Rightarrow> ('u, 'z) machine_scheme" where
  "haltAll r m = fold info_halt (consumerInfos r) m"

fun joinAll_from :: "(pid \<Rightarrow> bool) \<Rightarrow> info list \<Rightarrow> info list option" where
  "joinAll_from ended [] = Some []"
| "joinAll_from ended (i # is) =
     (case info_join ended i of None \<Rightarrow> None | Some i' \<Rightarrow> map_option ((#) i') (joinAll_from ended is))"

definition joinAll :: "(pid \<Rightarrow> bool) \<Rightarrow> repository \<Rightarrow> repository option" where
  "joinAll ended r = map_option (\<lambda>is. r\<lparr>consumerInfos := is\<rparr>) (joinAll_from ended (consumerInfos r))"

definition repo_hasBacklog :: "int \<Rightarrow> bool \<Rightarrow> repository \<Rightarrow> ('u, 'z) machine_scheme \<Rightarrow> bool" where
  "repo_hasBacklog cursorValue includeStopped r m =
     list_ex (\<lambda>i. (includeStopped \<or> info_isRunning m i) \<and> i_endOfChain i \<and>
                  list_ex (\<lambda>s. cursorValue > seq_get (m_store m) s) (info_getSequences m i))
       (consumerInfos r)"

definition getEventProcessorFor :: "hid \<Rightarrow> repository \<Rightarrow> exn + pid" where
  "getEventProcessorFor h r =
     (case infoByEventHandler r h of
        None \<Rightarrow> Inl (InvalidArgument ''The event handler is not processing events.'')
      | Some k \<Rightarrow> Inr (i_processor (consumerInfos r ! k)))"

definition getSequenceFor :: "hid \<Rightarrow> repository \<Rightarrow> ('u, 'z) machine_scheme \<Rightarrow> exn + sid" where
  "getSequenceFor h r m = map_sum id (\<lambda>p. ep_sequence (proc_at m p)) (getEventProcessorFor h r)"

definition unMark_one :: "sid \<Rightarrow> repository \<Rightarrow> repository" where
  "unMark_one s r =
     (case infoBySequence r s of
        None \<Rightarrow> r
      | Some k \<Rightarrow> r\<lparr>consumerInfos := (consumerInfos r)[k := markAsUsedInBarrier (consumerInfos r ! k)]\<rparr>)"

definition unMarkEventProcessorsAsEndOfChain :: "sid list \<Rightarrow> repository \<Rightarrow> repository" where
  "unMarkEventProcessorsAsEndOfChain ss r = fold unMark_one ss r"

definition repo_getBarrierFor :: "hid \<Rightarrow> repository \<Rightarrow> bid option" where
  "repo_getBarrierFor h r =
     (case infoByEventHandler r h of None \<Rightarrow> None | Some k \<Rightarrow> i_barrier (consumerInfos r ! k))"

section \<open>Well-formed repositories\<close>

text \<open>
  Every info refers to an existing processor and barrier, the maps lead to infos, and the map
  by sequence leads to the info of the processor with that sequence.
\<close>

definition repo_ok :: "('u, 'z) machine_scheme \<Rightarrow> repository \<Rightarrow> bool" where
  "repo_ok m r \<longleftrightarrow>
     (\<forall>i\<in>set (consumerInfos r). i_processor i < length (m_procs m) \<and>
        (\<forall>b. i_barrier i = Some b \<longrightarrow> b < length (m_barriers m))) \<and>
     (\<forall>h k. infoByEventHandler r h = Some k \<longrightarrow> k < length (consumerInfos r)) \<and>
     (\<forall>s k. infoBySequence r s = Some k \<longleftrightarrow>
        k < length (consumerInfos r) \<and> ep_sequence (proc_at m (i_processor (consumerInfos r ! k))) = s)"

definition info_sequence :: "('u, 'z) machine_scheme \<Rightarrow> repository \<Rightarrow> nat \<Rightarrow> sid" where
  "info_sequence m r k = ep_sequence (proc_at m (i_processor (consumerInfos r ! k)))"

lemma repo_ok_new: "repo_ok m new_repository"
  by (simp add: repo_ok_def new_repository_def)

lemma repo_ok_bySequence:
  "repo_ok m r \<Longrightarrow> k < length (consumerInfos r) \<Longrightarrow> infoBySequence r (info_sequence m r k) = Some k"
  by (simp add: repo_ok_def info_sequence_def)

lemma repo_ok_inj:
  assumes "repo_ok m r" and "j < length (consumerInfos r)" and "k < length (consumerInfos r)"
    and "info_sequence m r j = info_sequence m r k"
  shows "j = k"
proof -
  have "Some j = Some k"
    unfolding repo_ok_bySequence [OF assms(1,2), symmetric] repo_ok_bySequence [OF assms(1,3), symmetric]
    by (rule arg_cong [OF assms(4)])
  then show ?thesis by (rule option.inject [THEN iffD1])
qed

lemma unMark_one_facts:
  assumes "repo_ok m r"
  shows "repo_ok m (unMark_one s r)"
    and "length (consumerInfos (unMark_one s r)) = length (consumerInfos r)"
    and "k < length (consumerInfos r) \<Longrightarrow>
      consumerInfos (unMark_one s r) ! k =
        (if info_sequence m r k = s then markAsUsedInBarrier (consumerInfos r ! k) else consumerInfos r ! k)"
proof -
  have mark: "i_processor (markAsUsedInBarrier i) = i_processor i"
      "i_barrier (markAsUsedInBarrier i) = i_barrier i" for i
    by (simp_all add: markAsUsedInBarrier_def)
  have iff: "infoBySequence r s = Some k \<longleftrightarrow> k < length (consumerInfos r) \<and> info_sequence m r k = s" for k
    using assms by (auto simp: repo_ok_def info_sequence_def)
  show len: "length (consumerInfos (unMark_one s r)) = length (consumerInfos r)"
    by (simp add: unMark_one_def split: option.split)
  show nth: "consumerInfos (unMark_one s r) ! k =
        (if info_sequence m r k = s then markAsUsedInBarrier (consumerInfos r ! k) else consumerInfos r ! k)"
    if "k < length (consumerInfos r)" for k
  proof (cases "infoBySequence r s")
    case None
    with iff [of k] that show ?thesis by (simp add: unMark_one_def)
  next
    case (Some j)
    then have "j = k \<longleftrightarrow> info_sequence m r k = s" using iff [of k] that by auto
    with Some that show ?thesis by (cases "j = k") (simp_all add: unMark_one_def)
  qed
  have same: "infoByEventHandler (unMark_one s r) = infoByEventHandler r"
      "infoBySequence (unMark_one s r) = infoBySequence r"
    by (simp_all add: unMark_one_def split: option.split)
  have procs: "i_processor (consumerInfos (unMark_one s r) ! k) = i_processor (consumerInfos r ! k)"
      "i_barrier (consumerInfos (unMark_one s r) ! k) = i_barrier (consumerInfos r ! k)"
    if "k < length (consumerInfos r)" for k
    using nth [OF that] mark by simp_all
  show "repo_ok m (unMark_one s r)"
    using assms unfolding repo_ok_def same len all_set_conv_all_nth
    by (simp add: procs cong: conj_cong)
qed

lemma unMark_facts:
  assumes "repo_ok m r"
  shows "repo_ok m (unMarkEventProcessorsAsEndOfChain ss r) \<and>
    length (consumerInfos (unMarkEventProcessorsAsEndOfChain ss r)) = length (consumerInfos r) \<and>
    (\<forall>k < length (consumerInfos r).
      consumerInfos (unMarkEventProcessorsAsEndOfChain ss r) ! k =
        (if info_sequence m r k \<in> set ss then markAsUsedInBarrier (consumerInfos r ! k)
         else consumerInfos r ! k))"
  using assms
proof (induction ss arbitrary: r)
  case Nil
  then show ?case by (simp add: unMarkEventProcessorsAsEndOfChain_def)
next
  case (Cons s ss)
  note f = unMark_one_facts(1,2) [OF Cons.prems, of s] unMark_one_facts(3) [OF Cons.prems, of _ s]
  have seq: "info_sequence m (unMark_one s r) k = info_sequence m r k" if "k < length (consumerInfos r)" for k
    using f(3) [OF that] by (auto simp: info_sequence_def markAsUsedInBarrier_def)
  have idem: "markAsUsedInBarrier (markAsUsedInBarrier i) = markAsUsedInBarrier i" for i
    by (simp add: markAsUsedInBarrier_def)
  have step: "unMarkEventProcessorsAsEndOfChain (s # ss) r =
      unMarkEventProcessorsAsEndOfChain ss (unMark_one s r)"
    by (simp add: unMarkEventProcessorsAsEndOfChain_def)
  show ?case using Cons.IH [OF f(1)] f(2,3) seq idem unfolding step by auto
qed

section \<open>Starting, halting, joining\<close>

text \<open>
  Starting repositories whose threads are not joinable never terminates the program.  Without
  an exception every processor has its thread; with one, the processors after the failing one
  have none, and the latch was counted down or will be once for each processor up to it.
\<close>

lemma startAll_from_spec:
  assumes "\<forall>i\<in>set is. \<not> i_joinable i"
  shows "\<exists>x is' m'. startAll_from newThread latch is m = Some (x, is', m') \<and>
    (\<exists>n \<le> length is.
       m_bodies m' = m_bodies m @ map (\<lambda>i. (i_processor i, latch)) (take n is) \<and>
       is' = map (\<lambda>i. i\<lparr>i_joinable := True\<rparr>) (take n is) @ drop n is \<and>
       (x = None \<longleftrightarrow> n = length is) \<and>
       m_latch m' = m_latch m + (if x \<noteq> None \<and> latch then 1 else 0) \<and>
       m_procs m' = m_procs m \<and> m_barriers m' = m_barriers m \<and> m_store m' = m_store m)"
  using assms
proof (induction newThread latch "is" m rule: startAll_from.induct)
  case (1 newThread latch m)
  then show ?case by simp
next
  case (2 newThread latch i "is" m)
  obtain y u where y: "newThread (m_user m) = (y, u)" by (cases "newThread (m_user m)")
  show ?case
  proof (cases y)
    case (Some e)
    then show ?thesis
      using y 2(2) by (auto simp: info_start_def intro!: exI [of _ "0::nat"])
  next
    case None
    let ?m = "m\<lparr>m_user := u, m_bodies := m_bodies m @ [(i_processor i, latch)]\<rparr>"
    have s: "info_start newThread latch i m = Some (None, i\<lparr>i_joinable := True\<rparr>, ?m)"
      using y None 2(2) by (simp add: info_start_def)
    obtain x is' m' n where ih: "startAll_from newThread latch is ?m = Some (x, is', m')"
        "n \<le> length is" "m_bodies m' = m_bodies ?m @ map (\<lambda>i. (i_processor i, latch)) (take n is)"
        "is' = map (\<lambda>i. i\<lparr>i_joinable := True\<rparr>) (take n is) @ drop n is"
        "x = None \<longleftrightarrow> n = length is" "m_latch m' = m_latch ?m + (if x \<noteq> None \<and> latch then 1 else 0)"
        "m_procs m' = m_procs ?m" "m_barriers m' = m_barriers ?m" "m_store m' = m_store ?m"
      using "2.IH" [OF s refl refl refl] "2.prems" by auto
    then show ?thesis using s by (auto intro!: exI [of _ "Suc n"])
  qed
qed

lemma haltAll_frame:
  "m_store (haltAll r m) = m_store m" "length (m_procs (haltAll r m)) = length (m_procs m)"
  "length (m_barriers (haltAll r m)) = length (m_barriers m)"
proof -
  have "m_store (fold info_halt is m) = m_store m \<and> length (m_procs (fold info_halt is m)) = length (m_procs m) \<and>
      length (m_barriers (fold info_halt is m)) = length (m_barriers m)" for "is"
    by (induction "is" arbitrary: m) (simp_all add: info_halt_def ep_halt_def split: option.split prod.split)
  then show "m_store (haltAll r m) = m_store m" "length (m_procs (haltAll r m)) = length (m_procs m)"
      "length (m_barriers (haltAll r m)) = length (m_barriers m)"
    by (simp_all add: haltAll_def)
qed

text \<open>\<open>joinAll\<close> returns exactly when every launched thread has ended, and leaves none joinable.\<close>

lemma joinAll_from_eq:
  "joinAll_from ended is =
     (if \<forall>i\<in>set is. i_joinable i \<longrightarrow> ended (i_processor i)
      then Some (map (\<lambda>i. i\<lparr>i_joinable := False\<rparr>) is) else None)"
proof (induction "is")
  case (Cons i "is")
  have "i\<lparr>i_joinable := False\<rparr> = i" if "\<not> i_joinable i" using that by (cases i) simp
  with Cons show ?case by (auto simp: info_join_def)
qed simp

text \<open>No backlog: every running end-of-chain processor has reached the cursor.\<close>

lemma no_backlog_iff:
  "\<not> repo_hasBacklog c incl r m \<longleftrightarrow>
     (\<forall>k < length (consumerInfos r). i_endOfChain (consumerInfos r ! k) \<longrightarrow>
        incl \<or> info_isRunning m (consumerInfos r ! k) \<longrightarrow> c \<le> m_store m (info_sequence m r k))"
proof -
  have "\<not> repo_hasBacklog c incl r m \<longleftrightarrow>
      (\<forall>i\<in>set (consumerInfos r). i_endOfChain i \<longrightarrow> incl \<or> info_isRunning m i \<longrightarrow>
         c \<le> m_store m (ep_sequence (proc_at m (i_processor i))))"
    by (auto simp: repo_hasBacklog_def list_ex_iff info_getSequences_def seq_get_def not_less)
  then show ?thesis by (simp add: all_set_conv_all_nth info_sequence_def)
qed

end
