(* ===== verification/Disruptor_DSL.thy ===== *)
theory Disruptor_DSL
  imports Consumer_Repository
begin

text \<open>
  The class \<open>Disruptor\<close> (\<open>dsl/Disruptor.h\<close>) with \<open>EventHandlerGroup\<close>, \<open>ExceptionHandlerSetting\<close> and
  \<open>ExceptionHandlerWrapper\<close>: the graph of processors, which of them gate the ring buffer, the
  exception handlers, and the life cycle.

  Configuration is done by one thread, so the calls on the gating sequences run undisturbed.
  Addresses of sequences are allocated in increasing order.  An operation returns \<open>None\<close> when it
  never returns.
\<close>

section \<open>The exception handler wrapper\<close>

text \<open>User exception handlers are known by address; \<open>H\<close> maps an address to the handler.\<close>

type_synonym wrapper = "nat option"

definition new_wrapper :: wrapper where
  "new_wrapper = None"

definition switchTo :: "nat \<Rightarrow> wrapper \<Rightarrow> wrapper" where
  "switchTo x w = Some x"

definition wrapper_getExceptionHandler ::
  "(nat \<Rightarrow> ('e, 'u) exception_handler) \<Rightarrow> wrapper \<Rightarrow> ('e, 'u) exception_handler" where
  "wrapper_getExceptionHandler H w = (case w of None \<Rightarrow> defaultHandler | Some x \<Rightarrow> H x)"

definition ExceptionHandlerWrapper ::
  "(nat \<Rightarrow> ('e, 'u) exception_handler) \<Rightarrow> wrapper \<Rightarrow> ('e, 'u) exception_handler" where
  "ExceptionHandlerWrapper H w =
     \<lparr>eh_handleEventException = (\<lambda>ex q ev u. eh_handleEventException (wrapper_getExceptionHandler H w) ex q ev u),
      eh_handleOnStartException = (\<lambda>ex u. eh_handleOnStartException (wrapper_getExceptionHandler H w) ex u),
      eh_handleOnShutdownException = (\<lambda>ex u. eh_handleOnShutdownException (wrapper_getExceptionHandler H w) ex u)\<rparr>"

section \<open>State and construction\<close>

datatype producer_type = SINGLE | MULTI

text \<open>
  \<open>d_wrapper\<close> is \<open>exceptionHandler_\<close>, the wrapper the disruptor owns until it is reset, and
  \<open>d_external\<close> is \<open>exceptionHandlerPtr_\<close>.  The list \<open>m_barriers\<close> is \<open>ownedBarriers_\<close>.
\<close>

record ('u, 'e, 's) disruptor = "'u machine" +
  d_ring :: "('e, 's) ring_buffer"
  d_started :: bool
  d_halted :: bool
  d_repo :: repository
  d_owned :: "pid list"
  d_wrapper :: "wrapper option"
  d_external :: "nat option"
  d_nextSid :: sid

definition makeRingBuffer ::
  "'s seq_ops \<Rightarrow> 'e \<Rightarrow> ('f \<Rightarrow> (exn + 'e) \<times> 'f) option \<Rightarrow> 'f \<Rightarrow> 's \<Rightarrow> exn + ('e, 's) ring_buffer" where
  "makeRingBuffer ops dflt eventFactory f s = fst (rb_new ops dflt eventFactory f s)"

definition new_Disruptor ::
  "'s seq_ops \<Rightarrow> 'e \<Rightarrow> ('f \<Rightarrow> (exn + 'e) \<times> 'f) option \<Rightarrow> 'f \<Rightarrow> store \<times> 's \<Rightarrow> sid \<Rightarrow> 'u
     \<Rightarrow> exn + ('u, 'e, 's) disruptor" where
  "new_Disruptor ops dflt eventFactory f w firstSid u =
     map_sum id
       (\<lambda>rb. \<lparr>m_store = fst w, m_procs = [], m_barriers = [], m_user = u, m_latch = 0, m_bodies = [],
              d_ring = rb, d_started = False, d_halted = False, d_repo = new_repository, d_owned = [],
              d_wrapper = Some new_wrapper, d_external = None, d_nextSid = firstSid\<rparr>)
       (makeRingBuffer ops dflt eventFactory f (snd w))"

section \<open>Guards\<close>

definition checkNotStarted :: "('u, 'e, 's) disruptor \<Rightarrow> exn + unit" where
  "checkNotStarted d =
     (if d_started d then Inl (RuntimeErr ''All event handlers must be added before calling start.'')
      else Inr ())"

definition checkOnlyStartedOnce :: "('u, 'e, 's) disruptor \<Rightarrow> (exn + unit) \<times> ('u, 'e, 's) disruptor" where
  "checkOnlyStartedOnce d =
     (if d_started d then (Inl (RuntimeErr ''Disruptor.start() must only be called once.''), d)
      else (Inr (), d\<lparr>d_started := True\<rparr>))"

section \<open>Exception handlers\<close>

definition d_getExceptionHandler :: "('u, 'e, 's) disruptor \<Rightarrow> eh_ref" where
  "d_getExceptionHandler d = (case d_external d of Some x \<Rightarrow> External x | None \<Rightarrow> Wrapper)"

text \<open>What a call through a reference to a handler reaches.\<close>

definition deref_handler ::
  "(nat \<Rightarrow> ('e, 'v) exception_handler) \<Rightarrow> ('u, 'e, 's) disruptor \<Rightarrow> eh_ref \<Rightarrow> exn + ('e, 'v) exception_handler" where
  "deref_handler H d r =
     (case r of
        External x \<Rightarrow> Inr (H x)
      | Wrapper \<Rightarrow> (case d_wrapper d of None \<Rightarrow> Inl UseAfterFree | Some w \<Rightarrow> Inr (ExceptionHandlerWrapper H w)))"

definition handleExceptionsWith :: "nat \<Rightarrow> ('u, 'e, 's) disruptor \<Rightarrow> ('u, 'e, 's) disruptor" where
  "handleExceptionsWith x d = d\<lparr>d_wrapper := None, d_external := Some x\<rparr>"

definition setDefaultExceptionHandler ::
  "nat \<Rightarrow> ('u, 'e, 's) disruptor \<Rightarrow> (exn + unit) \<times> ('u, 'e, 's) disruptor" where
  "setDefaultExceptionHandler x d =
     (case checkNotStarted d of
        Inl e \<Rightarrow> (Inl e, d)
      | Inr _ \<Rightarrow>
          (case d_wrapper d of
             None \<Rightarrow> (Inl (RuntimeErr ''setDefaultExceptionHandler can not be used after handleExceptionsWith''), d)
           | Some w \<Rightarrow> (Inr (), d\<lparr>d_wrapper := Some (switchTo x w)\<rparr>)))"

text \<open>\<open>handleExceptionsFor(h).with(x)\<close>.\<close>

definition setting_with :: "hid \<Rightarrow> nat \<Rightarrow> ('u, 'e, 's) disruptor \<Rightarrow> (exn + unit) \<times> ('u, 'e, 's) disruptor" where
  "setting_with h x d =
     (case getEventProcessorFor h (d_repo d) of
        Inl e \<Rightarrow> (Inl e, d)
      | Inr p \<Rightarrow>
          if ep_custom (proc_at d p) = None
          then let d1 = d\<lparr>m_procs := (m_procs d)[p := (proc_at d p)\<lparr>ep_exceptionHandler := Some (External x)\<rparr>]\<rparr>
               in (Inr (),
                   case repo_getBarrierFor h (d_repo d1) of
                     None \<Rightarrow> d1
                   | Some b \<Rightarrow> d1\<lparr>m_barriers := (m_barriers d1)[b := alert (m_barriers d1 ! b)]\<rparr>)
          else (Inl (RuntimeErr
            ''EventProcessor is not a BatchEventProcessor and does not support exception handlers''), d))"

section \<open>Building the graph\<close>

text \<open>
  What is passed to \<open>handleEventsWith\<close>: an event handler, or a factory, user code that is given the
  barrier sequences (and here the address the processor's own sequence will have).
\<close>

datatype 'u stage =
    Handler hid
  | Factory "sid \<Rightarrow> sid list \<Rightarrow> 'u \<Rightarrow> (exn + 'u event_processor) \<times> 'u"

definition createOne_handler ::
  "'s seq_ops \<Rightarrow> sid list \<Rightarrow> hid \<Rightarrow> ('u, 'e, 's) disruptor \<Rightarrow> sid \<times> ('u, 'e, 's) disruptor" where
  "createOne_handler ops barrierSequences h d =
     (let barrier = rb_newBarrier ops (d_ring d) (map Some barrierSequences);
          b = length (m_barriers d);
          p = length (m_procs d);
          sq = d_nextSid d;
          processor = \<lparr>ep_sequence = sq, ep_running = IDLE, ep_barrier = b,
            ep_exceptionHandler = Some (d_getExceptionHandler d), ep_custom = None\<rparr>
      in (sq, d\<lparr>m_barriers := m_barriers d @ [barrier], m_procs := m_procs d @ [processor],
                m_store := seq_new_default sq (m_store d), d_nextSid := Suc sq,
                d_repo := repo_add_handler p sq h b (d_repo d), d_owned := d_owned d @ [p]\<rparr>))"

definition createOne_factory ::
  "sid list \<Rightarrow> (sid \<Rightarrow> sid list \<Rightarrow> 'u \<Rightarrow> (exn + 'u event_processor) \<times> 'u) \<Rightarrow> ('u, 'e, 's) disruptor
     \<Rightarrow> (exn + sid) \<times> ('u, 'e, 's) disruptor" where
  "createOne_factory barrierSequences createEventProcessor d =
     (case createEventProcessor (d_nextSid d) barrierSequences (m_user d) of
        (Inl e, u) \<Rightarrow> (Inl e, d\<lparr>m_user := u\<rparr>)
      | (Inr processor, u) \<Rightarrow>
          let p = length (m_procs d); sq = ep_sequence processor in
          (Inr sq, d\<lparr>m_user := u, m_procs := m_procs d @ [processor],
                     m_store := seq_new_default (d_nextSid d) (m_store d), d_nextSid := Suc (d_nextSid d),
                     d_owned := d_owned d @ [p], d_repo := repo_add p sq (d_repo d)\<rparr>))"

fun createEventProcessorsImpl ::
  "'s seq_ops \<Rightarrow> sid list \<Rightarrow> sid list \<Rightarrow> 'u stage list \<Rightarrow> ('u, 'e, 's) disruptor
     \<Rightarrow> (exn + sid list) \<times> ('u, 'e, 's) disruptor" where
  "createEventProcessorsImpl ops barrierSequences out [] d = (Inr out, d)"
| "createEventProcessorsImpl ops barrierSequences out (Handler h # rest) d =
     (let (sq, d') = createOne_handler ops barrierSequences h d
      in createEventProcessorsImpl ops barrierSequences (out @ [sq]) rest d')"
| "createEventProcessorsImpl ops barrierSequences out (Factory f # rest) d =
     (case createOne_factory barrierSequences f d of
        (Inl e, d') \<Rightarrow> (Inl e, d')
      | (Inr sq, d') \<Rightarrow> createEventProcessorsImpl ops barrierSequences (out @ [sq]) rest d')"

definition d_addGatingSequences ::
  "'s seq_ops \<Rightarrow> sid list \<Rightarrow> ('u, 'e, 's) disruptor \<Rightarrow> ('u, 'e, 's) disruptor option" where
  "d_addGatingSequences ops sqs d =
     map_option (\<lambda>(\<sigma>, rb). d\<lparr>m_store := \<sigma>, d_ring := rb\<rparr>)
       (rb_addGatingSequences ops [] (map Some sqs) (m_store d, d_ring d))"

fun updateGatingSequencesForNextInChain ::
  "'s seq_ops \<Rightarrow> sid list \<Rightarrow> ('u, 'e, 's) disruptor \<Rightarrow> ('u, 'e, 's) disruptor option" where
  "updateGatingSequencesForNextInChain ops [] d = Some d"
| "updateGatingSequencesForNextInChain ops (sq # sqs) d =
     (case rb_removeGatingSequence ops [] sq (m_store d, d_ring d) of
        None \<Rightarrow> None
      | Some (_, \<sigma>, rb) \<Rightarrow> updateGatingSequencesForNextInChain ops sqs (d\<lparr>m_store := \<sigma>, d_ring := rb\<rparr>))"

text \<open>A group is the vector of its sequences.\<close>

record handler_group =
  g_sequences :: "sid list"

definition createEventProcessors ::
  "'s seq_ops \<Rightarrow> sid list \<Rightarrow> 'u stage list \<Rightarrow> ('u, 'e, 's) disruptor
     \<Rightarrow> ((exn + handler_group) \<times> ('u, 'e, 's) disruptor) option" where
  "createEventProcessors ops barrierSequences handlers d =
     (case checkNotStarted d of
        Inl e \<Rightarrow> Some (Inl e, d)
      | Inr _ \<Rightarrow>
          let d1 = d\<lparr>d_repo := unMarkEventProcessorsAsEndOfChain barrierSequences (d_repo d)\<rparr> in
          case createEventProcessorsImpl ops barrierSequences [] handlers d1 of
            (Inl e, d2) \<Rightarrow> Some (Inl e, d2)
          | (Inr processorSequences, d2) \<Rightarrow>
              (case d_addGatingSequences ops processorSequences d2 of
                 None \<Rightarrow> None
               | Some d3 \<Rightarrow>
                   map_option (\<lambda>d4. (Inr \<lparr>g_sequences = processorSequences\<rparr>, d4))
                     (updateGatingSequencesForNextInChain ops barrierSequences d3)))"

definition handleEventsWith where
  "handleEventsWith ops handlers d = createEventProcessors ops [] handlers d"

fun add_processors :: "pid list \<Rightarrow> ('u, 'e, 's) disruptor \<Rightarrow> ('u, 'e, 's) disruptor" where
  "add_processors [] d = d"
| "add_processors (p # ps) d =
     add_processors ps (d\<lparr>d_repo := repo_add p (ep_sequence (proc_at d p)) (d_repo d)\<rparr>)"

definition handleEventsWith_processors ::
  "'s seq_ops \<Rightarrow> pid list \<Rightarrow> ('u, 'e, 's) disruptor \<Rightarrow> (handler_group \<times> ('u, 'e, 's) disruptor) option" where
  "handleEventsWith_processors ops ps d =
     (let d1 = add_processors ps d; sqs = map (\<lambda>p. ep_sequence (proc_at d1 p)) ps
      in map_option (\<lambda>d2. (\<lparr>g_sequences = sqs\<rparr>, d2)) (d_addGatingSequences ops sqs d1))"

fun after :: "hid list \<Rightarrow> ('u, 'e, 's) disruptor \<Rightarrow> exn + handler_group" where
  "after [] d = Inr \<lparr>g_sequences = []\<rparr>"
| "after (h # hs) d =
     (case getSequenceFor h (d_repo d) d of
        Inl e \<Rightarrow> Inl e
      | Inr sq \<Rightarrow> map_sum id (\<lambda>g. g\<lparr>g_sequences := sq # g_sequences g\<rparr>) (after hs d))"

definition after_processors :: "pid list \<Rightarrow> ('u, 'e, 's) disruptor \<Rightarrow> handler_group" where
  "after_processors ps d = \<lparr>g_sequences = map (\<lambda>p. ep_sequence (proc_at d p)) ps\<rparr>"

section \<open>EventHandlerGroup\<close>

definition and_group :: "handler_group \<Rightarrow> handler_group \<Rightarrow> handler_group" where
  "and_group g other = \<lparr>g_sequences = g_sequences g @ g_sequences other\<rparr>"

definition and_processors ::
  "handler_group \<Rightarrow> pid list \<Rightarrow> ('u, 'e, 's) disruptor \<Rightarrow> handler_group \<times> ('u, 'e, 's) disruptor" where
  "and_processors g ps d =
     (\<lparr>g_sequences = map (\<lambda>p. ep_sequence (proc_at d p)) ps @ g_sequences g\<rparr>, add_processors ps d)"

definition group_handleEventsWith where
  "group_handleEventsWith ops g handlers d = createEventProcessors ops (g_sequences g) handlers d"

definition group_then where
  "group_then ops g handlers d = group_handleEventsWith ops g handlers d"

definition handleEventsWithFactories where
  "handleEventsWithFactories ops g factories d =
     createEventProcessors ops (g_sequences g) (map Factory factories) d"

definition thenFactories where
  "thenFactories ops g factories d = handleEventsWithFactories ops g factories d"

definition asSequenceBarrier ::
  "'s seq_ops \<Rightarrow> handler_group \<Rightarrow> ('u, 'e, 's) disruptor \<Rightarrow> bid \<times> ('u, 'e, 's) disruptor" where
  "asSequenceBarrier ops g d =
     (length (m_barriers d),
      d\<lparr>m_barriers := m_barriers d @
          [rb_newBarrier ops (d_ring d) (map Some (g_sequences g))]\<rparr>)"

section \<open>Publishing and observers\<close>

definition d_publishEvent ::
  "'s seq_ops \<Rightarrow> (store \<Rightarrow> store) list \<Rightarrow> 'e translator \<Rightarrow> ('u, 'e, 's) disruptor
     \<Rightarrow> ((exn + unit) \<times> ('u, 'e, 's) disruptor) option" where
  "d_publishEvent ops script translator d =
     map_option (\<lambda>(r, \<sigma>, rb). (r, d\<lparr>m_store := \<sigma>, d_ring := rb\<rparr>))
       (publishEvent ops script translator (m_store d, d_ring d))"

definition d_publishEvent_oneArg where
  "d_publishEvent_oneArg ops script translator arg0 d =
     map_option (\<lambda>(r, \<sigma>, rb). (r, d\<lparr>m_store := \<sigma>, d_ring := rb\<rparr>))
       (publishEvent_oneArg ops script translator arg0 (m_store d, d_ring d))"

definition hasStarted :: "('u, 'e, 's) disruptor \<Rightarrow> bool" where
  "hasStarted d = d_started d"

definition d_getCursor :: "'s seq_ops \<Rightarrow> ('u, 'e, 's) disruptor \<Rightarrow> int" where
  "d_getCursor ops d = rb_getCursor ops (m_store d) (d_ring d)"

definition d_getBufferSize :: "('u, 'e, 's) disruptor \<Rightarrow> int" where
  "d_getBufferSize d = rb_bufferSize (d_ring d)"

definition d_get :: "int \<Rightarrow> ('u, 'e, 's) disruptor \<Rightarrow> 'e" where
  "d_get sequence d = rb_get (d_ring d) sequence"

definition getBarrierFor :: "hid \<Rightarrow> ('u, 'e, 's) disruptor \<Rightarrow> bid option" where
  "getBarrierFor h d = repo_getBarrierFor h (d_repo d)"

definition getSequenceValueFor :: "hid \<Rightarrow> ('u, 'e, 's) disruptor \<Rightarrow> exn + int" where
  "getSequenceValueFor h d = map_sum id (seq_get (m_store d)) (getSequenceFor h (d_repo d) d)"

definition hasBacklog :: "'s seq_ops \<Rightarrow> ('u, 'e, 's) disruptor \<Rightarrow> bool" where
  "hasBacklog ops d = repo_hasBacklog (d_getCursor ops d) False (d_repo d) d"

definition getProcessorCount :: "('u, 'e, 's) disruptor \<Rightarrow> int" where
  "getProcessorCount d = repo_getProcessorCount (d_repo d)"

section \<open>Life cycle\<close>

definition d_start ::
  "('u \<Rightarrow> exn option \<times> 'u) \<Rightarrow> bool \<Rightarrow> ('u, 'e, 's) disruptor
     \<Rightarrow> ((exn + unit) \<times> ('u, 'e, 's) disruptor) option" where
  "d_start newThread startupLatch d =
     (case checkOnlyStartedOnce d of
        (Inl e, d1) \<Rightarrow> Some (Inl e, d1)
      | (Inr _, d1) \<Rightarrow>
          map_option (\<lambda>(x, r, d2). (case x of None \<Rightarrow> Inr () | Some e \<Rightarrow> Inl e, d2\<lparr>d_repo := r\<rparr>))
            (startAll newThread startupLatch (d_repo d1) d1))"

definition d_halt :: "('u, 'e, 's) disruptor \<Rightarrow> ('u, 'e, 's) disruptor" where
  "d_halt d = (let d1 = d\<lparr>d_halted := True\<rparr> in haltAll (d_repo d1) d1)"

definition d_join :: "(pid \<Rightarrow> bool) \<Rightarrow> ('u, 'e, 's) disruptor \<Rightarrow> ('u, 'e, 's) disruptor option" where
  "d_join ended d = map_option (\<lambda>r. d\<lparr>d_repo := r\<rparr>) (joinAll ended (d_repo d))"

text \<open>
  The waiting loop of \<open>shutdown\<close>: one element per round, what the other threads did before it and
  the clock it reads.
\<close>

fun shutdown_loop ::
  "'s seq_ops \<Rightarrow> int \<Rightarrow> ((('u, 'e, 's) disruptor \<Rightarrow> ('u, 'e, 's) disruptor) \<times> int) list
     \<Rightarrow> ('u, 'e, 's) disruptor \<Rightarrow> ((exn + unit) \<times> ('u, 'e, 's) disruptor) option" where
  "shutdown_loop ops deadline [] d = None"
| "shutdown_loop ops deadline ((env, now) # rest) d =
     (let d1 = env d in
      if hasBacklog ops d1
      then if deadline \<ge> 0 \<and> now \<ge> deadline then Some (Inl TimeoutExn, d1)
           else shutdown_loop ops deadline rest d1
      else Some (Inr (), d_halt d1))"

definition shutdown_timeout where
  "shutdown_timeout ops timeoutMillis currentTimeMillis script d =
     (let deadline = (if timeoutMillis < 0 then - 1 else currentTimeMillis + timeoutMillis)
      in shutdown_loop ops deadline script d)"

definition d_shutdown ::
  "'s seq_ops \<Rightarrow> (nat \<Rightarrow> ('e, 'u) exception_handler) \<Rightarrow> int
     \<Rightarrow> ((('u, 'e, 's) disruptor \<Rightarrow> ('u, 'e, 's) disruptor) \<times> int) list
     \<Rightarrow> ('u, 'e, 's) disruptor \<Rightarrow> ((exn + unit) \<times> ('u, 'e, 's) disruptor) option" where
  "d_shutdown ops H currentTimeMillis script d =
     (case shutdown_timeout ops (- 1) currentTimeMillis script d of
        None \<Rightarrow> None
      | Some (Inr v, d1) \<Rightarrow> Some (Inr v, d1)
      | Some (Inl e, d1) \<Rightarrow>
          if e = TimeoutExn
          then (case deref_handler H d1 (d_getExceptionHandler d1) of
                  Inl e2 \<Rightarrow> Some (Inl e2, d1)
                | Inr eh \<Rightarrow>
                    (case eh_handleOnShutdownException eh e (m_user d1) of
                       (None, u) \<Rightarrow> Some (Inr (), d1\<lparr>m_user := u\<rparr>)
                     | (Some e2, u) \<Rightarrow> Some (Inl e2, d1\<lparr>m_user := u\<rparr>)))
          else Some (Inl e, d1))"

text \<open>The destructor.\<close>

definition delete_Disruptor :: "(pid \<Rightarrow> bool) \<Rightarrow> ('u, 'e, 's) disruptor \<Rightarrow> ('u, 'e, 's) disruptor option" where
  "delete_Disruptor ended d = d_join ended (if d_halted d then d else d_halt d)"

end
