(* ===== verification/Dsl_Graph.thy ===== *)
theory Dsl_Graph
  imports Disruptor_DSL
begin

text \<open>
  What the graph built by the DSL guarantees.  \<open>graph_ok\<close> says that the consumers of the sequencer
  are the sequences of the end-of-chain processors, and that every other processor is a dependency
  of a later one.  It holds after every sequence of \<open>handleEventsWith\<close> and \<open>then\<close> calls with at
  least one handler each; hence the ring buffer waits for every processor although only the ends
  of the chains gate it.
\<close>

section \<open>The invariants\<close>

abbreviation infos :: "('u, 'e, 's) disruptor \<Rightarrow> info list" where
  "infos d \<equiv> consumerInfos (d_repo d)"

abbreviation seq_at :: "('u, 'e, 's) disruptor \<Rightarrow> nat \<Rightarrow> sid" where
  "seq_at d k \<equiv> info_sequence d (d_repo d) k"

text \<open>The sequences that processor \<open>j\<close> waits for.\<close>

definition depends_on :: "('u, 'e, 's) disruptor \<Rightarrow> nat \<Rightarrow> sid set" where
  "depends_on d j =
     (case i_barrier (infos d ! j) of None \<Rightarrow> {} | Some b \<Rightarrow> ptrs (b_dependents (m_barriers d ! b)))"

definition memory_ok :: "('s \<Rightarrow> bool) \<Rightarrow> ('s \<Rightarrow> sid set) \<Rightarrow> ('u, 'e, 's) disruptor \<Rightarrow> bool" where
  "memory_ok sok owns d \<longleftrightarrow>
     sok (rb_sequencer (d_ring d)) \<and> repo_ok d (d_repo d) \<and>
     (\<forall>p\<in>set (m_procs d). ep_sequence p < d_nextSid d) \<and>
     (\<forall>s\<in>owns (rb_sequencer (d_ring d)). s < d_nextSid d)"

definition graph_ok :: "('s \<Rightarrow> sid set) \<Rightarrow> ('u, 'e, 's) disruptor \<Rightarrow> bool" where
  "graph_ok consumers d \<longleftrightarrow>
     consumers (rb_sequencer (d_ring d)) =
       {seq_at d k | k. k < length (infos d) \<and> i_endOfChain (infos d ! k)} \<and>
     (\<forall>k < length (infos d). i_endOfChain (infos d ! k) \<or>
        (\<exists>j. k < j \<and> j < length (infos d) \<and> seq_at d k \<in> depends_on d j))"

text \<open>
  A sequence number below every consumer of the sequencer is below every processor, whenever the
  processors are not ahead of what they wait for.
\<close>

lemma graph_ok_covers:
  fixes \<sigma> :: store
  assumes "graph_ok consumers d"
    and "\<forall>c\<in>consumers (rb_sequencer (d_ring d)). b \<le> \<sigma> c"
    and "\<forall>j < length (infos d). \<forall>s\<in>depends_on d j. \<sigma> (seq_at d j) \<le> \<sigma> s"
  shows "k < length (infos d) \<Longrightarrow> b \<le> \<sigma> (seq_at d k)"
proof (induction "length (infos d) - k" arbitrary: k rule: less_induct)
  case less
  show ?case
  proof (cases "i_endOfChain (infos d ! k)")
    case True
    then show ?thesis using assms(1,2) less.prems by (auto simp: graph_ok_def)
  next
    case False
    then obtain j where j: "k < j" "j < length (infos d)" "seq_at d k \<in> depends_on d j"
      using assms(1) less.prems by (auto simp: graph_ok_def)
    from j less.prems have "b \<le> \<sigma> (seq_at d j)" by (intro less.hyps) auto
    also have "\<dots> \<le> \<sigma> (seq_at d k)" using assms(3) j by blast
    finally show ?thesis .
  qed
qed

section \<open>Creating one processor\<close>

text \<open>What the creation of a processor for a handler does to the graph.\<close>

lemma createOne_handler_facts:
  assumes "createOne_handler ops bs h d = (sq, d')" and "memory_ok sok owns d"
  shows "sq = d_nextSid d" and "d_nextSid d' = Suc sq" and "d_ring d' = d_ring d"
    and "memory_ok sok owns d'"
    and "infos d' = infos d @ [new_EventProcessorInfo (length (m_procs d)) (Some (length (m_barriers d)))]"
    and "k < length (infos d) \<Longrightarrow> seq_at d' k = seq_at d k"
    and "seq_at d' (length (infos d)) = sq"
    and "k < length (infos d) \<Longrightarrow> depends_on d' k = depends_on d k"
    and "depends_on d' (length (infos d)) = set bs"
    and "d_started d' = d_started d" and "m_store d' = seq_new_default sq (m_store d)"
    and "getSequenceFor h (d_repo d') d' = Inr sq"
    and "h' \<noteq> h \<Longrightarrow> getEventProcessorFor h' (d_repo d') = getEventProcessorFor h' (d_repo d)"
proof -
  let ?b = "length (m_barriers d)" and ?p = "length (m_procs d)" and ?n = "length (infos d)"
  let ?barrier = "rb_newBarrier ops (d_ring d) (map Some bs)"
  let ?proc = "\<lparr>ep_sequence = d_nextSid d, ep_running = IDLE, ep_barrier = ?b,
      ep_exceptionHandler = Some (d_getExceptionHandler d), ep_custom = None\<rparr>"
  have d': "sq = d_nextSid d" "d' = d\<lparr>m_barriers := m_barriers d @ [?barrier],
      m_procs := m_procs d @ [?proc], m_store := seq_new_default sq (m_store d), d_nextSid := Suc sq,
      d_repo := repo_add_handler ?p sq h ?b (d_repo d), d_owned := d_owned d @ [?p]\<rparr>"
    using assms(1) by (auto simp: createOne_handler_def Let_def)
  have ok: "repo_ok d (d_repo d)" "\<forall>p\<in>set (m_procs d). ep_sequence p < d_nextSid d"
    using assms(2) by (simp_all add: memory_ok_def)
  show "sq = d_nextSid d" by (rule d'(1))
  show "d_nextSid d' = Suc sq" "d_ring d' = d_ring d" "d_started d' = d_started d"
      "m_store d' = seq_new_default sq (m_store d)"
    by (simp_all add: d'(2))
  show inf: "infos d' = infos d @ [new_EventProcessorInfo ?p (Some ?b)]"
    by (simp add: d'(2) repo_add_handler_def Let_def)
  have range: "i_processor (infos d ! k) < ?p" "i_barrier (infos d ! k) = Some b \<Longrightarrow> b < ?b"
    if "k < ?n" for k b
    using ok(1) nth_mem [OF that] by (auto simp: repo_ok_def)
  show old: "seq_at d' k = seq_at d k" if "k < ?n" for k
    using that range(1) [OF that]
    by (simp add: info_sequence_def inf nth_append) (simp add: d'(2) proc_at_def nth_append)
  show new: "seq_at d' ?n = sq"
    by (simp add: info_sequence_def inf nth_append)
      (simp add: d' proc_at_def nth_append new_EventProcessorInfo_def)
  show "depends_on d' k = depends_on d k" if "k < ?n" for k
    using that range(2) [OF that]
    by (simp add: depends_on_def inf nth_append) (auto simp: d'(2) nth_append split: option.split)
  show "depends_on d' ?n = set bs"
    by (simp add: depends_on_def inf nth_append new_EventProcessorInfo_def)
      (auto simp: d'(2) nth_append rb_newBarrier_def newBarrier_def new_barrier_def ptrs_def)
  have below: "seq_at d k < sq" if "k < ?n" for k
    using ok(2) range(1) [OF that] by (simp add: info_sequence_def proc_at_def d'(1))
  have "repo_ok d' (d_repo d')"
    unfolding repo_ok_def
  proof (intro conjI allI)
    show "\<forall>i\<in>set (infos d'). i_processor i < length (m_procs d') \<and>
        (\<forall>b. i_barrier i = Some b \<longrightarrow> b < length (m_barriers d'))"
      using ok(1) unfolding inf
      by (auto simp: d'(2) repo_ok_def new_EventProcessorInfo_def intro: less_SucI)
  next
    fix h' k
    show "infoByEventHandler (d_repo d') h' = Some k \<longrightarrow> k < length (infos d')"
      using ok(1) unfolding inf
      by (auto simp: d'(2) repo_ok_def repo_add_handler_def Let_def intro: less_SucI)
  next
    fix s k
    have "infoBySequence (d_repo d') s = (if s = sq then Some ?n else infoBySequence (d_repo d) s)"
      by (simp add: d'(2) repo_add_handler_def Let_def)
    moreover have "infoBySequence (d_repo d) s = Some k \<longleftrightarrow> k < ?n \<and> seq_at d k = s"
      using ok(1) by (simp add: repo_ok_def info_sequence_def)
    ultimately have "infoBySequence (d_repo d') s = Some k \<longleftrightarrow> k < Suc ?n \<and> seq_at d' k = s"
      using old [of k] new below [of k] by (cases "k = ?n") (auto simp: less_Suc_eq)
    then show "infoBySequence (d_repo d') s = Some k \<longleftrightarrow> k < length (infos d') \<and>
        ep_sequence (proc_at d' (i_processor (infos d' ! k))) = s"
      by (simp add: inf info_sequence_def)
  qed
  then show "memory_ok sok owns d'"
    using assms(2) unfolding memory_ok_def by (auto simp: d' intro: less_SucI)
  show "getSequenceFor h (d_repo d') d' = Inr sq"
    by (simp add: d' getSequenceFor_def getEventProcessorFor_def repo_add_handler_def Let_def
        nth_append new_EventProcessorInfo_def proc_at_def)
  show "getEventProcessorFor h' (d_repo d') = getEventProcessorFor h' (d_repo d)" if "h' \<noteq> h"
    using that ok(1)
    by (auto simp: d'(2) getEventProcessorFor_def repo_add_handler_def Let_def nth_append repo_ok_def
        split: option.split)
qed

section \<open>Creating the processors of a stage\<close>

text \<open>The new infos follow the old ones; each depends on exactly the barrier sequences.\<close>

lemma createEventProcessorsImpl_facts:
  assumes "createEventProcessorsImpl ops bs out (map Handler hs) d = (r, d')" and "memory_ok sok owns d"
  shows "r = Inr (out @ [d_nextSid d..<d_nextSid d + length hs]) \<and>
    d_nextSid d' = d_nextSid d + length hs \<and> d_ring d' = d_ring d \<and> memory_ok sok owns d' \<and>
    d_started d' = d_started d \<and>
    length (infos d') = length (infos d) + length hs \<and>
    (\<forall>k < length (infos d). infos d' ! k = infos d ! k \<and> seq_at d' k = seq_at d k \<and>
        depends_on d' k = depends_on d k) \<and>
    (\<forall>i < length hs. i_endOfChain (infos d' ! (length (infos d) + i)) \<and>
        seq_at d' (length (infos d) + i) = d_nextSid d + i \<and>
        depends_on d' (length (infos d) + i) = set bs) \<and>
    (\<forall>s. m_store d' s = (if d_nextSid d \<le> s \<and> s < d_nextSid d + length hs then INITIAL_VALUE else m_store d s))"
  using assms
proof (induction hs arbitrary: out d)
  case Nil
  then show ?case by simp
next
  case (Cons h hs)
  obtain sq d1 where d1: "createOne_handler ops bs h d = (sq, d1)" by (cases "createOne_handler ops bs h d")
  note f = createOne_handler_facts [OF d1 Cons.prems(2)]
  have rest: "createEventProcessorsImpl ops bs (out @ [sq]) (map Handler hs) d1 = (r, d')"
    using Cons.prems(1) d1 by simp
  let ?n = "length (infos d)"
  have n1: "length (infos d1) = Suc ?n" by (simp add: f(5))
  have ih: "r = Inr ((out @ [sq]) @ [d_nextSid d1..<d_nextSid d1 + length hs])"
      "d_nextSid d' = d_nextSid d1 + length hs" "d_ring d' = d_ring d1" "memory_ok sok owns d'"
      "d_started d' = d_started d1" "length (infos d') = length (infos d1) + length hs"
      "\<And>k. k < length (infos d1) \<Longrightarrow> infos d' ! k = infos d1 ! k \<and> seq_at d' k = seq_at d1 k \<and>
        depends_on d' k = depends_on d1 k"
      "\<And>i. i < length hs \<Longrightarrow> i_endOfChain (infos d' ! (length (infos d1) + i)) \<and>
        seq_at d' (length (infos d1) + i) = d_nextSid d1 + i \<and>
        depends_on d' (length (infos d1) + i) = set bs"
      "\<And>s. m_store d' s =
        (if d_nextSid d1 \<le> s \<and> s < d_nextSid d1 + length hs then INITIAL_VALUE else m_store d1 s)"
    using Cons.IH [OF rest f(4)] by blast+
  have "[d_nextSid d..<d_nextSid d + length (h # hs)] =
      sq # [d_nextSid d1..<d_nextSid d1 + length hs]"
    by (simp add: f(1,2) upt_rec)
  then have "r = Inr (out @ [d_nextSid d..<d_nextSid d + length (h # hs)])" using ih(1) by simp
  moreover have "infos d' ! k = infos d ! k \<and> seq_at d' k = seq_at d k \<and> depends_on d' k = depends_on d k"
    if "k < ?n" for k
    using ih(7) [of k] that f(6,8) [OF that] by (simp add: n1) (simp add: f(5) nth_append)
  moreover have "i_endOfChain (infos d' ! (?n + i)) \<and> seq_at d' (?n + i) = d_nextSid d + i \<and>
      depends_on d' (?n + i) = set bs" if "i < length (h # hs)" for i
  proof (cases i)
    case 0
    then show ?thesis
      using ih(7) [of ?n] f(7,9) by (simp add: n1) (simp add: f(1,5) nth_append new_EventProcessorInfo_def)
  next
    case (Suc i')
    then show ?thesis using ih(8) [of i'] that by (simp add: n1 f(1,2))
  qed
  moreover have "m_store d' s =
      (if d_nextSid d \<le> s \<and> s < d_nextSid d + length (h # hs) then INITIAL_VALUE else m_store d s)" for s
    using ih(9) [of s] by (auto simp: f(1,2,11) seq_new_default_def seq_new_def)
  ultimately show ?case using ih(2-6) by (simp add: n1 f(1-3,10))
qed

section \<open>One stage of the chain\<close>

context gated_sequencer
begin

lemma updateGating_spec:
  "wf (rb_sequencer (d_ring d)) \<Longrightarrow>
     \<exists>s'. updateGatingSequencesForNextInChain ops sqs d = Some (d\<lparr>d_ring := (d_ring d)\<lparr>rb_sequencer := s'\<rparr>\<rparr>) \<and>
       wf s' \<and> consumers s' = consumers (rb_sequencer (d_ring d)) - set sqs \<and>
       owns s' = owns (rb_sequencer (d_ring d)) \<and> unchanged s' = unchanged (rb_sequencer (d_ring d))"
proof (induction sqs arbitrary: d)
  case Nil
  then show ?case by (intro exI [of _ "rb_sequencer (d_ring d)"]) simp
next
  case (Cons sq sqs)
  let ?s = "rb_sequencer (d_ring d)"
  obtain s1 where s1: "op_removeGating ops [] sq (m_store d, ?s) = Some (sq \<in> consumers ?s, m_store d, s1)"
      "wf s1" "consumers s1 = consumers ?s - {sq}" "owns s1 = owns ?s" "unchanged s1 = unchanged ?s"
    using removeGating [OF Cons.prems] by blast
  let ?d1 = "d\<lparr>d_ring := (d_ring d)\<lparr>rb_sequencer := s1\<rparr>\<rparr>"
  have step: "updateGatingSequencesForNextInChain ops (sq # sqs) d =
      updateGatingSequencesForNextInChain ops sqs ?d1"
    using s1(1) by (simp add: rb_removeGatingSequence_def)
  obtain s' where "updateGatingSequencesForNextInChain ops sqs ?d1 =
        Some (?d1\<lparr>d_ring := (d_ring ?d1)\<lparr>rb_sequencer := s'\<rparr>\<rparr>)"
      "wf s'" "consumers s' = consumers s1 - set sqs" "owns s' = owns s1" "unchanged s' = unchanged s1"
    using Cons.IH [of ?d1] s1(2) by auto
  then show ?case unfolding step by (intro exI [of _ s']) (auto simp: s1(3-5))
qed

lemma d_addGating_spec:
  assumes "wf (rb_sequencer (d_ring d))" and "set sqs \<inter> owns (rb_sequencer (d_ring d)) = {}"
  shows "\<exists>s'. d_addGatingSequences ops sqs d =
      Some (d\<lparr>m_store := set_all (map Some sqs) (m_store d (op_cursor ops (rb_sequencer (d_ring d)))) (m_store d),
              d_ring := (d_ring d)\<lparr>rb_sequencer := s'\<rparr>\<rparr>) \<and>
       wf s' \<and> consumers s' = consumers (rb_sequencer (d_ring d)) \<union> set sqs \<and>
       owns s' = owns (rb_sequencer (d_ring d)) \<and> unchanged s' = unchanged (rb_sequencer (d_ring d))"
proof -
  have "ptrs (map Some sqs) = set sqs" by (auto simp: ptrs_def)
  then show ?thesis
    using addGating [OF assms(1), of "map Some sqs" "m_store d"] assms(2)
    by (auto simp: d_addGatingSequences_def rb_addGatingSequences_def)
qed

lemma graph_frame:
  assumes "m_procs d' = m_procs d" and "m_barriers d' = m_barriers d" and "d_repo d' = d_repo d"
  shows "seq_at d' k = seq_at d k" and "depends_on d' k = depends_on d k" and "infos d' = infos d"
    and "repo_ok d' (d_repo d') = repo_ok d (d_repo d)"
  unfolding info_sequence_def proc_at_def depends_on_def repo_ok_def assms by simp_all

text \<open>
  \<open>createEventProcessors\<close> before the start: it returns, it keeps both invariants, and the
  processors it creates wait for exactly the barrier sequences.
\<close>

lemma createEventProcessors_effect:
  assumes mem: "memory_ok wf owns d" and "\<not> d_started d"
    and impl: "createEventProcessorsImpl ops bs [] (map Handler hs)
      (d\<lparr>d_repo := unMarkEventProcessorsAsEndOfChain bs (d_repo d)\<rparr>) = (Inr new, d2)"
    and ring2: "d_ring d2 = d_ring d" and fresh: "set new \<inter> owns (rb_sequencer (d_ring d)) = {}"
  obtains s' where
    "createEventProcessors ops bs (map Handler hs) d = Some (Inr \<lparr>g_sequences = new\<rparr>,
       d2\<lparr>m_store := set_all (map Some new) (m_store d2 (op_cursor ops (rb_sequencer (d_ring d)))) (m_store d2),
          d_ring := (d_ring d)\<lparr>rb_sequencer := s'\<rparr>\<rparr>)"
    and "wf s'" and "consumers s' = consumers (rb_sequencer (d_ring d)) \<union> set new - set bs"
    and "owns s' = owns (rb_sequencer (d_ring d))" and "unchanged s' = unchanged (rb_sequencer (d_ring d))"
proof -
  let ?s = "rb_sequencer (d_ring d)"
  have wf: "wf ?s" using mem by (simp add: memory_ok_def)
  with fresh obtain s3 where s3: "d_addGatingSequences ops new d2 =
      Some (d2\<lparr>m_store := set_all (map Some new) (m_store d2 (op_cursor ops ?s)) (m_store d2),
              d_ring := (d_ring d)\<lparr>rb_sequencer := s3\<rparr>\<rparr>)"
      "wf s3" "consumers s3 = consumers ?s \<union> set new" "owns s3 = owns ?s" "unchanged s3 = unchanged ?s"
    using d_addGating_spec [of d2 new] unfolding ring2 by blast
  let ?d3 = "d2\<lparr>m_store := set_all (map Some new) (m_store d2 (op_cursor ops ?s)) (m_store d2),
              d_ring := (d_ring d)\<lparr>rb_sequencer := s3\<rparr>\<rparr>"
  obtain s4 where s4: "updateGatingSequencesForNextInChain ops bs ?d3 =
        Some (?d3\<lparr>d_ring := (d_ring ?d3)\<lparr>rb_sequencer := s4\<rparr>\<rparr>)"
      "wf s4" "consumers s4 = consumers s3 - set bs" "owns s4 = owns s3" "unchanged s4 = unchanged s3"
    using updateGating_spec [of ?d3 bs] s3(2) by auto
  show thesis
  proof (rule that [of s4])
    show "createEventProcessors ops bs (map Handler hs) d = Some (Inr \<lparr>g_sequences = new\<rparr>,
       d2\<lparr>m_store := set_all (map Some new) (m_store d2 (op_cursor ops ?s)) (m_store d2),
          d_ring := (d_ring d)\<lparr>rb_sequencer := s4\<rparr>\<rparr>)"
      using assms(2,3) s3(1) s4(1) by (simp add: createEventProcessors_def checkNotStarted_def Let_def)
  qed (use s3 s4 in simp_all)
qed

lemma unMark_view:
  fixes bs :: "sid list"
  assumes rok: "repo_ok d (d_repo d)" and k: "k < length (infos d)"
  defines "d1 \<equiv> d\<lparr>d_repo := unMarkEventProcessorsAsEndOfChain bs (d_repo d)\<rparr>"
  shows "seq_at d1 k = seq_at d k" and "depends_on d1 k = depends_on d k"
    and "i_endOfChain (infos d1 ! k) \<longleftrightarrow> i_endOfChain (infos d ! k) \<and> seq_at d k \<notin> set bs"
proof -
  have "infos d1 ! k = (if seq_at d k \<in> set bs then markAsUsedInBarrier (infos d ! k) else infos d ! k)"
    using unMark_facts [OF rok, of bs] k by (simp add: d1_def)
  then show "seq_at d1 k = seq_at d k" and "depends_on d1 k = depends_on d k"
    and "i_endOfChain (infos d1 ! k) \<longleftrightarrow> i_endOfChain (infos d ! k) \<and> seq_at d k \<notin> set bs"
    by (auto simp: d1_def info_sequence_def proc_at_def depends_on_def markAsUsedInBarrier_def split: option.split)
qed

text \<open>
  The graph after a stage: the old vertices with those named in the stage's barrier no longer at
  the end of a chain, and the new ones, which depend on the barrier and are ends.
\<close>

lemma graph_ok_extend:
  assumes graph: "graph_ok consumers d" and n2: "length (infos d') = length (infos d) + n" and "0 < n"
    and old: "\<And>k. k < length (infos d) \<Longrightarrow> seq_at d' k = seq_at d k \<and> depends_on d' k = depends_on d k \<and>
      (i_endOfChain (infos d' ! k) \<longleftrightarrow> i_endOfChain (infos d ! k) \<and> seq_at d k \<notin> set bs)"
    and new: "\<And>i. i < n \<Longrightarrow> i_endOfChain (infos d' ! (length (infos d) + i)) \<and>
      seq_at d' (length (infos d) + i) = first + i \<and> depends_on d' (length (infos d) + i) = set bs"
    and cons: "consumers (rb_sequencer (d_ring d')) =
      consumers (rb_sequencer (d_ring d)) \<union> set [first..<first + n] - set bs"
    and fresh: "set [first..<first + n] \<inter> set bs = {}"
  shows "graph_ok consumers d'"
  unfolding graph_ok_def
proof
  let ?n = "length (infos d)"
  have split: "k < ?n \<or> (\<exists>i < n. k = ?n + i)" if "k < length (infos d')" for k
    using that n2 by presburger
  have "consumers (rb_sequencer (d_ring d)) - set bs =
      {seq_at d k | k. k < ?n \<and> i_endOfChain (infos d ! k) \<and> seq_at d k \<notin> set bs}"
    using graph unfolding graph_ok_def by auto
  also have "\<dots> = {seq_at d' k | k. k < ?n \<and> i_endOfChain (infos d' ! k)}"
    using old by (intro Collect_cong ex_cong1) auto
  finally have left: "consumers (rb_sequencer (d_ring d)) - set bs =
      {seq_at d' k | k. k < ?n \<and> i_endOfChain (infos d' ! k)}" .
  have "{seq_at d' (?n + i) | i. i < n} = {first + i | i. i < n}"
    using new by (intro Collect_cong ex_cong1) auto
  also have "\<dots> = set [first..<first + n]" by (auto simp: le_iff_add)
  finally have right: "set [first..<first + n] - set bs = {seq_at d' (?n + i) | i. i < n}"
    using fresh by (simp add: Diff_triv)
  have "consumers (rb_sequencer (d_ring d')) =
      {seq_at d' k | k. k < ?n \<and> i_endOfChain (infos d' ! k)} \<union> {seq_at d' (?n + i) | i. i < n}"
    unfolding cons Un_Diff left right ..
  also have "\<dots> = {seq_at d' k | k. k < length (infos d') \<and> i_endOfChain (infos d' ! k)}"
  proof -
    have "i_endOfChain (infos d' ! (?n + i)) \<and> ?n + i < length (infos d')" if "i < n" for i
      using new [OF that] that n2 by simp
    moreover have "k < length (infos d')" if "k < ?n" for k using that n2 by simp
    ultimately show ?thesis using split by blast
  qed
  finally show "consumers (rb_sequencer (d_ring d')) =
      {seq_at d' k | k. k < length (infos d') \<and> i_endOfChain (infos d' ! k)}" .
  show "\<forall>k < length (infos d'). i_endOfChain (infos d' ! k) \<or>
      (\<exists>j. k < j \<and> j < length (infos d') \<and> seq_at d' k \<in> depends_on d' j)"
  proof (intro allI impI)
    fix k assume "k < length (infos d')"
    then consider (new) i where "i < n" "k = ?n + i" | (used) "k < ?n" "seq_at d k \<in> set bs"
      | (old) "k < ?n" "seq_at d k \<notin> set bs"
      using split by blast
    then show "i_endOfChain (infos d' ! k) \<or> (\<exists>j. k < j \<and> j < length (infos d') \<and> seq_at d' k \<in> depends_on d' j)"
    proof cases
      case new
      then show ?thesis using assms(5) by simp
    next
      case used
      then have "seq_at d' k \<in> depends_on d' ?n" "?n < length (infos d')"
        using assms(5) [of 0] \<open>0 < n\<close> n2 assms(4) [of k] by simp_all
      then show ?thesis using used(1) by blast
    next
      case old
      have "i_endOfChain (infos d ! k) \<or> (\<exists>j. k < j \<and> j < ?n \<and> seq_at d k \<in> depends_on d j)"
        using graph old(1) unfolding graph_ok_def by blast
      then show ?thesis using assms(4) old n2 by (metis trans_less_add1)
    qed
  qed
qed

lemma createEventProcessors_graph:
  assumes mem: "memory_ok wf owns d" and graph: "graph_ok consumers d" and "\<not> d_started d"
    and bs: "set bs \<subseteq> seq_at d ` {..<length (infos d)}" and "hs \<noteq> []"
  obtains d' where
    "createEventProcessors ops bs (map Handler hs) d =
       Some (Inr \<lparr>g_sequences = [d_nextSid d..<d_nextSid d + length hs]\<rparr>, d')"
    and "memory_ok wf owns d'" and "graph_ok consumers d'" and "\<not> d_started d'"
    and "length (infos d') = length (infos d) + length hs"
    and "\<And>k. k < length (infos d) \<Longrightarrow> seq_at d' k = seq_at d k \<and> depends_on d' k = depends_on d k"
    and "\<And>i. i < length hs \<Longrightarrow> seq_at d' (length (infos d) + i) = d_nextSid d + i \<and>
      depends_on d' (length (infos d) + i) = set bs"
    and "d_nextSid d' = d_nextSid d + length hs"
    and "owns (rb_sequencer (d_ring d')) = owns (rb_sequencer (d_ring d))"
    and "unchanged (rb_sequencer (d_ring d')) = unchanged (rb_sequencer (d_ring d))"
    and "\<exists>s'. d_ring d' = (d_ring d)\<lparr>rb_sequencer := s'\<rparr>"
    and "\<And>s. m_store d' s = (if d_nextSid d \<le> s \<and> s < d_nextSid d + length hs
      then m_store d (op_cursor ops (rb_sequencer (d_ring d))) else m_store d s)"
proof -
  let ?n = "length (infos d)" and ?new = "[d_nextSid d..<d_nextSid d + length hs]"
  let ?d1 = "d\<lparr>d_repo := unMarkEventProcessorsAsEndOfChain bs (d_repo d)\<rparr>"
  have rok: "repo_ok d (d_repo d)" and own: "\<forall>s\<in>owns (rb_sequencer (d_ring d)). s < d_nextSid d"
    and below: "\<forall>p\<in>set (m_procs d). ep_sequence p < d_nextSid d"
    using mem by (simp_all add: memory_ok_def)
  have n1: "length (infos ?d1) = ?n" using unMark_facts [OF rok, of bs] by simp
  note view = unMark_view [OF rok, of _ bs]
  have "repo_ok d (d_repo ?d1)" using unMark_facts [OF rok, of bs] by simp
  then have "repo_ok ?d1 (d_repo ?d1)" by (simp add: repo_ok_def proc_at_def)
  then have mem1: "memory_ok wf owns ?d1" using mem by (simp add: memory_ok_def)
  obtain r d2 where d2: "createEventProcessorsImpl ops bs [] (map Handler hs) ?d1 = (r, d2)" by force
  note impl = createEventProcessorsImpl_facts [OF d2 mem1]
  have r: "r = Inr ?new" and next2: "d_nextSid d2 = d_nextSid d + length hs" and ring2: "d_ring d2 = d_ring d"
    and mem2: "memory_ok wf owns d2" and started2: "\<not> d_started d2" and n2: "length (infos d2) = ?n + length hs"
    using impl assms(3) n1 by auto
  have "set ?new \<inter> owns (rb_sequencer (d_ring d)) = {}" using own by auto
  from createEventProcessors_effect [OF mem assms(3) d2 [unfolded r] ring2 this]
  obtain s' where run: "createEventProcessors ops bs (map Handler hs) d = Some (Inr \<lparr>g_sequences = ?new\<rparr>,
       d2\<lparr>m_store := set_all (map Some ?new) (m_store d2 (op_cursor ops (rb_sequencer (d_ring d)))) (m_store d2),
          d_ring := (d_ring d)\<lparr>rb_sequencer := s'\<rparr>\<rparr>)"
      "wf s'" "consumers s' = consumers (rb_sequencer (d_ring d)) \<union> set ?new - set bs"
      "owns s' = owns (rb_sequencer (d_ring d))" "unchanged s' = unchanged (rb_sequencer (d_ring d))"
    by blast
  let ?d4 = "d2\<lparr>m_store := set_all (map Some ?new) (m_store d2 (op_cursor ops (rb_sequencer (d_ring d)))) (m_store d2),
          d_ring := (d_ring d)\<lparr>rb_sequencer := s'\<rparr>\<rparr>"
  have frame: "seq_at ?d4 k = seq_at d2 k" "depends_on ?d4 k = depends_on d2 k" "infos ?d4 = infos d2"
      "repo_ok ?d4 (d_repo ?d4) = repo_ok d2 (d_repo d2)" for k
    by (rule graph_frame; simp)+
  have old: "seq_at ?d4 k = seq_at d k \<and> depends_on ?d4 k = depends_on d k \<and>
      (i_endOfChain (infos ?d4 ! k) \<longleftrightarrow> i_endOfChain (infos d ! k) \<and> seq_at d k \<notin> set bs)" if "k < ?n" for k
    using impl that n1 view [OF that] unfolding frame by auto
  have new: "i_endOfChain (infos ?d4 ! (?n + i)) \<and> seq_at ?d4 (?n + i) = d_nextSid d + i \<and>
      depends_on ?d4 (?n + i) = set bs" if "i < length hs" for i
    using impl that n1 unfolding frame by auto
  have "seq_at d k < d_nextSid d" if "k < ?n" for k
    using rok below nth_mem [OF that] by (auto simp: repo_ok_def info_sequence_def proc_at_def)
  then have fresh: "set ?new \<inter> set bs = {}" using bs by fastforce
  have "graph_ok consumers ?d4"
    by (rule graph_ok_extend [OF graph _ _ old new _ fresh]) (use n2 frame(3) run(3) assms(5) in simp_all)
  moreover have "memory_ok wf owns ?d4"
    using mem2 run(2,4) own next2 frame(4) unfolding memory_ok_def by auto
  moreover have "\<exists>s. d_ring ?d4 = (d_ring d)\<lparr>rb_sequencer := s\<rparr>"
    by (rule exI [of _ s']) simp
  moreover have "m_store ?d4 s = (if d_nextSid d \<le> s \<and> s < d_nextSid d + length hs
      then m_store d (op_cursor ops (rb_sequencer (d_ring d))) else m_store d s)" for s
  proof -
    have "op_cursor ops (rb_sequencer (d_ring d)) < d_nextSid d" using own cursor_owned by blast
    moreover have "m_store d2 x = (if d_nextSid d \<le> x \<and> x < d_nextSid d + length hs
        then INITIAL_VALUE else m_store d x)" for x
      using impl by simp
    moreover have "s \<in> ptrs (map Some ?new) \<longleftrightarrow> d_nextSid d \<le> s \<and> s < d_nextSid d + length hs"
      by (auto simp: ptrs_def)
    ultimately show ?thesis by simp
  qed
  ultimately show thesis
    using that [OF run(1)] started2 n2 old new frame(3) next2 run(4,5) by simp
qed

lemma createEventProcessors_stage:
  assumes "memory_ok wf owns d" and "graph_ok consumers d" and "\<not> d_started d"
    and "set bs \<subseteq> seq_at d ` {..<length (infos d)}" and "hs \<noteq> []"
    and "createEventProcessors ops bs (map Handler hs) d = Some (Inr g, d')"
  shows "memory_ok wf owns d' \<and> graph_ok consumers d' \<and> \<not> d_started d'"
    and "length (infos d') = length (infos d) + length hs" and "d_nextSid d' = d_nextSid d + length hs"
    and "k < length (infos d) \<Longrightarrow> seq_at d' k = seq_at d k \<and> depends_on d' k = depends_on d k"
    and "i < length hs \<Longrightarrow> seq_at d' (length (infos d) + i) = d_nextSid d + i \<and>
      depends_on d' (length (infos d) + i) = set bs"
    and "owns (rb_sequencer (d_ring d')) = owns (rb_sequencer (d_ring d))"
    and "unchanged (rb_sequencer (d_ring d')) = unchanged (rb_sequencer (d_ring d))"
    and "\<exists>s. d_ring d' = (d_ring d)\<lparr>rb_sequencer := s\<rparr>"
    and "m_store d' s = (if d_nextSid d \<le> s \<and> s < d_nextSid d + length hs
      then m_store d (op_cursor ops (rb_sequencer (d_ring d))) else m_store d s)"
proof -
  from createEventProcessors_graph [OF assms(1-5)] assms(6)
  show "memory_ok wf owns d' \<and> graph_ok consumers d' \<and> \<not> d_started d'"
    and "length (infos d') = length (infos d) + length hs" and "d_nextSid d' = d_nextSid d + length hs"
    and "k < length (infos d) \<Longrightarrow> seq_at d' k = seq_at d k \<and> depends_on d' k = depends_on d k"
    and "i < length hs \<Longrightarrow> seq_at d' (length (infos d) + i) = d_nextSid d + i \<and>
      depends_on d' (length (infos d) + i) = set bs"
    and "owns (rb_sequencer (d_ring d')) = owns (rb_sequencer (d_ring d))"
    and "unchanged (rb_sequencer (d_ring d')) = unchanged (rb_sequencer (d_ring d))"
    and "\<exists>s. d_ring d' = (d_ring d)\<lparr>rb_sequencer := s\<rparr>"
    by (metis option.inject prod.inject)+
  show "m_store d' s = (if d_nextSid d \<le> s \<and> s < d_nextSid d + length hs
      then m_store d (op_cursor ops (rb_sequencer (d_ring d))) else m_store d s)"
  proof (rule createEventProcessors_graph [OF assms(1-5)])
    fix d2
    assume "createEventProcessors ops bs (map Handler hs) d =
        Some (Inr \<lparr>g_sequences = [d_nextSid d..<d_nextSid d + length hs]\<rparr>, d2)"
    then have eq: "d2 = d'" using assms(6) by simp
    assume "\<And>s. m_store d2 s = (if d_nextSid d \<le> s \<and> s < d_nextSid d + length hs
      then m_store d (op_cursor ops (rb_sequencer (d_ring d))) else m_store d s)"
    then show ?thesis unfolding eq .
  qed
qed

end

section \<open>Everything the DSL can build\<close>

text \<open>
  The disruptors reachable from \<open>d0\<close> by stages with at least one handler.  The barrier sequences of
  a stage are those of a group, all of registered processors: \<open>handleEventsWith\<close> has none,
  \<open>then\<close>, \<open>after\<close> and \<open>and_\<close> have those of the groups they combine.
\<close>

inductive configured ::
  "'s seq_ops \<Rightarrow> ('u, 'e, 's) disruptor \<Rightarrow> ('u, 'e, 's) disruptor \<Rightarrow> bool"
  for ops :: "'s seq_ops" and d0 :: "('u, 'e, 's) disruptor" where
  configured_new: "configured ops d0 d0"
| configured_stage:
    "configured ops d0 d \<Longrightarrow> hs \<noteq> [] \<Longrightarrow> set bs \<subseteq> seq_at d ` {..<length (infos d)} \<Longrightarrow>
     createEventProcessors ops bs (map Handler hs) d = Some (Inr g, d') \<Longrightarrow> configured ops d0 d'"

inductive_cases configured_stageE: "configured ops d0 d"

lemma new_Disruptor_ok:
  assumes "new_Disruptor ops dflt factory f (\<sigma>, s) firstSid u = Inr d"
    and "swf s" and "cons s = {}" and "\<forall>x\<in>own s. x < firstSid"
  shows "memory_ok swf own d" and "graph_ok cons d" and "\<not> d_started d" and "infos d = []"
    and "rb_sequencer (d_ring d) = s" and "m_store d = \<sigma>" and "d_nextSid d = firstSid"
proof -
  obtain rb where rb: "fst (rb_new ops dflt factory f s) = Inr rb"
    using assms(1) by (auto simp: new_Disruptor_def makeRingBuffer_def map_sum_def split: sum.splits)
  then have s: "rb_sequencer rb = s"
    by (auto simp: rb_new_def Let_def split: if_splits option.splits sum.splits prod.splits)
  have d: "d = \<lparr>m_store = \<sigma>, m_procs = [], m_barriers = [], m_user = u, m_latch = 0, m_bodies = [],
      d_ring = rb, d_started = False, d_halted = False, d_repo = new_repository, d_owned = [],
      d_wrapper = Some new_wrapper, d_external = None, d_nextSid = firstSid\<rparr>"
    using assms(1) rb by (simp add: new_Disruptor_def makeRingBuffer_def)
  show "memory_ok swf own d" using assms(2,4) s repo_ok_new by (simp add: memory_ok_def d)
  show "graph_ok cons d" using assms(3) s by (simp add: graph_ok_def d new_repository_def)
  show "\<not> d_started d" "infos d = []" "rb_sequencer (d_ring d) = s" "m_store d = \<sigma>" "d_nextSid d = firstSid"
    using s by (simp_all add: d new_repository_def)
qed

context gated_sequencer
begin

lemma configured_inv:
  assumes "configured ops d0 d" and "memory_ok wf owns d0" and "graph_ok consumers d0" and "\<not> d_started d0"
  shows "memory_ok wf owns d \<and> graph_ok consumers d \<and> \<not> d_started d"
  using assms(1)
proof induction
  case configured_new
  then show ?case using assms(2-4) by blast
next
  case (configured_stage d hs bs g d')
  then have "memory_ok wf owns d" "graph_ok consumers d" "\<not> d_started d" by blast+
  from createEventProcessors_stage(1) [OF this configured_stage.hyps(3,2,4)] show ?case .
qed

lemma configured_frame:
  assumes "configured ops d0 d" and "memory_ok wf owns d0" and "graph_ok consumers d0" and "\<not> d_started d0"
    and "infos d0 = []"
  shows "owns (rb_sequencer (d_ring d)) = owns (rb_sequencer (d_ring d0)) \<and>
    unchanged (rb_sequencer (d_ring d)) = unchanged (rb_sequencer (d_ring d0)) \<and>
    (\<exists>s. d_ring d = (d_ring d0)\<lparr>rb_sequencer := s\<rparr>) \<and> d_nextSid d0 \<le> d_nextSid d \<and>
    (\<forall>k < length (infos d). d_nextSid d0 \<le> seq_at d k \<and> depends_on d k \<subseteq> seq_at d ` {..<length (infos d)})"
  using assms(1)
proof induction
  case configured_new
  have "\<exists>s. d_ring d0 = (d_ring d0)\<lparr>rb_sequencer := s\<rparr>"
    by (rule exI [of _ "rb_sequencer (d_ring d0)"]) simp
  then show ?case using assms(5) by simp
next
  case (configured_stage d hs bs g d')
  note IH = configured_stage.IH
  have inv: "memory_ok wf owns d" "graph_ok consumers d" "\<not> d_started d"
    using configured_inv [OF configured_stage.hyps(1) assms(2-4)] by blast+
  let ?n = "length (infos d)"
  have G: "length (infos d') = ?n + length hs" "d_nextSid d' = d_nextSid d + length hs"
      "\<And>k. k < ?n \<Longrightarrow> seq_at d' k = seq_at d k \<and> depends_on d' k = depends_on d k"
      "\<And>i. i < length hs \<Longrightarrow> seq_at d' (?n + i) = d_nextSid d + i \<and> depends_on d' (?n + i) = set bs"
      "owns (rb_sequencer (d_ring d')) = owns (rb_sequencer (d_ring d))"
      "unchanged (rb_sequencer (d_ring d')) = unchanged (rb_sequencer (d_ring d))"
      "\<exists>s. d_ring d' = (d_ring d)\<lparr>rb_sequencer := s\<rparr>"
    by (fact createEventProcessors_stage [OF inv configured_stage.hyps(3,2,4)])+
  have ring: "\<exists>s. d_ring d' = (d_ring d0)\<lparr>rb_sequencer := s\<rparr>" using IH G(7) by auto
  have old: "seq_at d ` {..<?n} \<subseteq> seq_at d' ` {..<length (infos d')}"
  proof (rule image_subsetI)
    fix k assume "k \<in> {..<?n}"
    then have "seq_at d k = seq_at d' k" "k \<in> {..<length (infos d')}" using G(1,3) by simp_all
    then show "seq_at d k \<in> seq_at d' ` {..<length (infos d')}" by (metis imageI)
  qed
  have "d_nextSid d0 \<le> seq_at d' k \<and> depends_on d' k \<subseteq> seq_at d' ` {..<length (infos d')}"
    if "k < length (infos d')" for k
  proof (cases "k < ?n")
    case True
    have dk: "d_nextSid d0 \<le> seq_at d k" "depends_on d k \<subseteq> seq_at d ` {..<?n}" using IH True by simp_all
    have same: "depends_on d' k = depends_on d k" "seq_at d' k = seq_at d k"
      by (rule conjunct2 [OF G(3) [OF True]], rule conjunct1 [OF G(3) [OF True]])
    show ?thesis unfolding same using dk(1) subset_trans [OF dk(2) old] by simp
  next
    case False
    define i where "i = k - ?n"
    have i: "i < length hs" "k = ?n + i" using False that G(1) by (simp_all add: i_def)
    have new: "depends_on d' k = set bs" "seq_at d' k = d_nextSid d + i"
      using G(4) [OF i(1)] unfolding i(2) by simp_all
    have "d_nextSid d0 \<le> d_nextSid d + i" using IH by linarith
    then show ?thesis unfolding new using subset_trans [OF configured_stage.hyps(3) old] by simp
  qed
  then show ?case using IH G(2,5,6) ring by simp
qed

lemma configured_no_lap:
  assumes "configured ops d0 d" and "memory_ok wf owns d0" and "graph_ok consumers d0" and "\<not> d_started d0"
    and "safe \<sigma> (rb_sequencer (d_ring d))" and "in_int64 (claimed \<sigma> (rb_sequencer (d_ring d)) + n)"
    and "rb_next_n ops script n (\<sigma>, d_ring d) = Some (Inr q, \<sigma>', rb')"
    and "\<forall>j < length (infos d). \<forall>s\<in>depends_on d j. \<sigma>' (seq_at d j) \<le> \<sigma>' s"
    and "k < length (infos d)"
  shows "q - op_bufferSize ops (rb_sequencer (d_ring d)) \<le> \<sigma>' (seq_at d k)"
proof -
  let ?s = "rb_sequencer (d_ring d)"
  have inv: "memory_ok wf owns d" "graph_ok consumers d" using configured_inv [OF assms(1-4)] by blast+
  obtain s' where n: "op_next ops script n (\<sigma>, ?s) = Some (Inr q, \<sigma>', s')"
    using assms(7) by (auto simp: rb_next_n_def)
  have "wf ?s" using inv(1) by (simp add: memory_ok_def)
  from next_safe [OF this assms(5,6) n]
  have "\<forall>c\<in>consumers ?s. q - op_bufferSize ops ?s \<le> \<sigma>' c" by blast
  from graph_ok_covers [OF inv(2) this assms(8,9)] show ?thesis .
qed

text \<open>A stage without handlers only takes the barrier sequences out of the gating sequences.\<close>

lemma empty_stage:
  assumes "memory_ok wf owns d" and "\<not> d_started d"
  shows "\<exists>d'. createEventProcessors ops bs [] d = Some (Inr \<lparr>g_sequences = []\<rparr>, d') \<and>
    wf (rb_sequencer (d_ring d')) \<and>
    consumers (rb_sequencer (d_ring d')) = consumers (rb_sequencer (d_ring d)) - set bs"
proof -
  let ?d1 = "d\<lparr>d_repo := unMarkEventProcessorsAsEndOfChain bs (d_repo d)\<rparr>"
  let ?s = "rb_sequencer (d_ring d)"
  have wf: "wf ?s" using assms(1) by (simp add: memory_ok_def)
  obtain s3 where s3: "d_addGatingSequences ops [] ?d1 =
      Some (?d1\<lparr>m_store := m_store d, d_ring := (d_ring d)\<lparr>rb_sequencer := s3\<rparr>\<rparr>)"
      "wf s3" "consumers s3 = consumers ?s"
    using d_addGating_spec [of ?d1 "[]"] wf by auto
  let ?d3 = "?d1\<lparr>m_store := m_store d, d_ring := (d_ring d)\<lparr>rb_sequencer := s3\<rparr>\<rparr>"
  obtain s4 where s4: "updateGatingSequencesForNextInChain ops bs ?d3 =
        Some (?d3\<lparr>d_ring := (d_ring ?d3)\<lparr>rb_sequencer := s4\<rparr>\<rparr>)"
      "wf s4" "consumers s4 = consumers s3 - set bs"
    using updateGating_spec [of ?d3 bs] s3(2) by auto
  show ?thesis
    using assms(2) s3 s4 by (simp add: createEventProcessors_def checkNotStarted_def Let_def)
qed

end

section \<open>Halting and shutting down\<close>

text \<open>\<open>halted_proc m p\<close>: the batch processor is halted and its barrier alerted.\<close>

definition halted_proc :: "('u, 'z) machine_scheme \<Rightarrow> pid \<Rightarrow> bool" where
  "halted_proc m p \<longleftrightarrow>
     ep_running (proc_at m p) = HALTED \<and> isAlerted (m_barriers m ! ep_barrier (proc_at m p))"

definition procs_ok :: "('u, 'z) machine_scheme \<Rightarrow> repository \<Rightarrow> bool" where
  "procs_ok m r \<longleftrightarrow>
     (\<forall>i\<in>set (consumerInfos r). i_processor i < length (m_procs m) \<and>
        (ep_custom (proc_at m (i_processor i)) = None \<longrightarrow>
           ep_barrier (proc_at m (i_processor i)) < length (m_barriers m)))"

lemma ep_halt_facts:
  "ep_custom (proc_at (ep_halt p m) q) = ep_custom (proc_at m q)"
  "ep_barrier (proc_at (ep_halt p m) q) = ep_barrier (proc_at m q)"
  "length (m_procs (ep_halt p m)) = length (m_procs m)"
  "length (m_barriers (ep_halt p m)) = length (m_barriers m)"
  "halted_proc m q \<Longrightarrow> halted_proc (ep_halt p m) q"
  "p < length (m_procs m) \<Longrightarrow> ep_custom (proc_at m p) = None \<Longrightarrow>
     ep_barrier (proc_at m p) < length (m_barriers m) \<Longrightarrow> halted_proc (ep_halt p m) p"
proof -
  have nth: "xs[i := v] ! j = (if i = j \<and> i < length xs then v else xs ! j)" for xs :: "'x list" and i j v
    by (cases "i < length xs") (auto simp: nth_list_update list_update_beyond)
  show "ep_custom (proc_at (ep_halt p m) q) = ep_custom (proc_at m q)"
      "ep_barrier (proc_at (ep_halt p m) q) = ep_barrier (proc_at m q)"
      "length (m_procs (ep_halt p m)) = length (m_procs m)"
      "length (m_barriers (ep_halt p m)) = length (m_barriers m)"
    by (simp_all add: ep_halt_def proc_at_def nth split: option.split)
  show "halted_proc m q \<Longrightarrow> halted_proc (ep_halt p m) q"
    by (auto simp: halted_proc_def ep_halt_def proc_at_def nth split: option.split)
  show "p < length (m_procs m) \<Longrightarrow> ep_custom (proc_at m p) = None \<Longrightarrow>
     ep_barrier (proc_at m p) < length (m_barriers m) \<Longrightarrow> halted_proc (ep_halt p m) p"
    by (simp add: halted_proc_def ep_halt_def proc_at_def)
qed

lemma haltAll_halts:
  assumes "procs_ok m r" and "i \<in> set (consumerInfos r)" and "ep_custom (proc_at m (i_processor i)) = None"
  shows "halted_proc (haltAll r m) (i_processor i)"
proof -
  have keep: "halted_proc m q \<Longrightarrow> halted_proc (fold info_halt is m) q" for "is" q and m :: "('a, 'b) machine_scheme"
    by (induction "is" arbitrary: m) (simp_all add: info_halt_def ep_halt_facts(5))
  have "halted_proc (fold info_halt is m) (i_processor i)"
    if "i \<in> set is" and "\<forall>i\<in>set is. i_processor i < length (m_procs m) \<and>
        (ep_custom (proc_at m (i_processor i)) = None \<longrightarrow>
           ep_barrier (proc_at m (i_processor i)) < length (m_barriers m))"
      and "ep_custom (proc_at m (i_processor i)) = None" for "is" and m :: "('a, 'b) machine_scheme"
    using that
  proof (induction "is" arbitrary: m)
    case (Cons a "is")
    show ?case
    proof (cases "a = i")
      case True
      then have "halted_proc (info_halt a m) (i_processor i)"
        using Cons.prems by (simp add: info_halt_def ep_halt_facts(6))
      then show ?thesis using keep by simp
    next
      case False
      then show ?thesis
        using Cons.IH [of "info_halt a m"] Cons.prems by (simp add: info_halt_def ep_halt_facts)
    qed
  qed simp
  then show ?thesis using assms by (simp add: haltAll_def procs_ok_def)
qed

text \<open>
  How the waiting loop ends: without backlog, and then halted, or past a non-negative deadline with
  a backlog.
\<close>

lemma shutdown_loop_cases:
  "shutdown_loop ops deadline script d = Some (r, d') \<Longrightarrow>
     (\<exists>d1. r = Inr () \<and> \<not> hasBacklog ops d1 \<and> d' = d_halt d1) \<or>
     r = Inl TimeoutExn \<and> hasBacklog ops d' \<and> 0 \<le> deadline \<and> (\<exists>(env, now)\<in>set script. deadline \<le> now)"
proof (induction ops deadline script d rule: shutdown_loop.induct)
  case (2 ops deadline env now rest d)
  show ?case
  proof (cases "hasBacklog ops (env d)")
    case False
    then show ?thesis using 2(2) by (auto simp: Let_def)
  next
    case True
    then show ?thesis using 2 by (auto simp: Let_def split: if_splits)
  qed
qed simp

text \<open>The loop ends in the first round that finds no backlog, at the latest.\<close>

lemma shutdown_loop_returns:
  assumes "i < length script" and "\<not> hasBacklog ops (fold (\<lambda>f x. f x) (map fst (take (Suc i) script)) d)"
  shows "shutdown_loop ops deadline script d \<noteq> None"
  using assms
proof (induction ops deadline script d arbitrary: i rule: shutdown_loop.induct)
  case (2 ops deadline env now rest d)
  show ?case
  proof (cases i)
    case 0
    then show ?thesis using 2(3) by (simp add: Let_def)
  next
    case (Suc j)
    then show ?thesis using 2 by (auto simp: Let_def)
  qed
qed simp

section \<open>Properties\<close>

text \<open>A disruptor on a multi-producer ring of one slot, freshly constructed, and one with a first
  stage of two handlers, for the witnesses.\<close>

definition demo_disruptor :: "(unit, nat, mp_sequencer) disruptor" where
  "demo_disruptor = \<lparr>m_store = (\<lambda>_. - 1), m_procs = [], m_barriers = [], m_user = (), m_latch = 0, m_bodies = [],
     d_ring = demo_ring_buffer\<lparr>rb_sequencer := demo_sequencer\<lparr>gatingSequences := new_gating\<rparr>\<rparr>,
     d_started = False, d_halted = False, d_repo = new_repository, d_owned = [],
     d_wrapper = Some new_wrapper, d_external = None, d_nextSid = 2\<rparr>"

abbreviation mp_owns :: "mp_sequencer \<Rightarrow> sid set" where
  "mp_owns \<equiv> \<lambda>s. {cursor s, gatingSequenceCache s}"

lemma demo_disruptor_gates: "gates (demo_sequencer\<lparr>gatingSequences := new_gating\<rparr>) = {}"
  by (simp add: gates_def)

lemma demo_disruptor_ok:
  "memory_ok mp_wf mp_owns demo_disruptor" "graph_ok gates demo_disruptor" "\<not> d_started demo_disruptor"
  "infos demo_disruptor = []" "d_nextSid demo_disruptor = 2" "d_external demo_disruptor = None"
proof -
  have "mp_wf (demo_sequencer\<lparr>gatingSequences := new_gating\<rparr>)"
    using demo_sequencer_ok(1) gating_ok_new demo_disruptor_gates unfolding mp_wf_def
    by (simp add: demo_sequencer_def)
  then show "memory_ok mp_wf mp_owns demo_disruptor"
    by (simp add: memory_ok_def demo_disruptor_def repo_ok_new)
  show "graph_ok gates demo_disruptor"
    by (simp add: graph_ok_def demo_disruptor_def new_repository_def demo_disruptor_gates)
qed (simp_all add: demo_disruptor_def new_repository_def)

lemma demo_stage:
  "\<exists>d. createEventProcessors mp_ops [] [Handler 0, Handler 1] demo_disruptor = Some (Inr \<lparr>g_sequences = [2, 3]\<rparr>, d) \<and>
     configured mp_ops demo_disruptor d \<and> length (infos d) = 2 \<and> seq_at d 0 = 2 \<and> seq_at d 1 = 3 \<and>
     depends_on d 0 = {} \<and> depends_on d 1 = {}"
proof -
  have hs: "[0::hid, 1] \<noteq> []" and bs: "set [] \<subseteq> seq_at demo_disruptor ` {..<length (infos demo_disruptor)}"
    by simp_all
  show ?thesis
  proof (rule mp_gated.createEventProcessors_graph[OF demo_disruptor_ok(1-3) bs hs])
    fix d
    assume run: "createEventProcessors mp_ops [] (map Handler [0, 1]) demo_disruptor =
        Some (Inr \<lparr>g_sequences = [d_nextSid demo_disruptor..<d_nextSid demo_disruptor + length [0::hid, 1]]\<rparr>, d)"
      and "length (infos d) = length (infos demo_disruptor) + length [0::hid, 1]"
      and new: "\<And>i. i < length [0::hid, 1] \<Longrightarrow> seq_at d (length (infos demo_disruptor) + i) =
          d_nextSid demo_disruptor + i \<and> depends_on d (length (infos demo_disruptor) + i) = set []"
    then have "length (infos d) = 2" "seq_at d 0 = 2" "seq_at d 1 = 3" "depends_on d 0 = {}" "depends_on d 1 = {}"
      using new[of 0] new[of 1] by (simp_all add: demo_disruptor_ok)
    moreover have "configured mp_ops demo_disruptor d"
      by (rule configured_stage[OF configured_new hs bs run])
    moreover have "[2..<4] = [2, 3 :: nat]" by (simp add: upt_rec)
    ultimately show ?thesis using run by (auto simp: demo_disruptor_ok)
  qed
qed





end
