(* ===== verification/Dsl_Lifecycle.thy ===== *)
theory Dsl_Lifecycle
  imports Dsl_Graph
begin

text \<open>
  The life of a \<open>Disruptor\<close> (\<open>include/disruptor/dsl/Disruptor.h\<close>) after its graph is set up:
  \<open>start\<close>, \<open>shutdown\<close>, and two misuses of the configuration interface the code does not guard against.
\<close>

text \<open>C33: A stage without handlers ungates the ring: \<open>then\<close> with an empty list takes the sequences it
  follows out of the gating sequences and puts none in their place, so nothing holds the producers
  back from overwriting the events of those processors.\<close>

theorem empty_then_ungates:
  assumes "memory_ok mp_wf mp_owns d" and "\<not> d_started d"
  shows "\<exists>d'. group_then mp_ops g [] d = Some (Inr \<lparr>g_sequences = []\<rparr>, d') \<and>
    gates (rb_sequencer (d_ring d')) = gates (rb_sequencer (d_ring d)) - set (g_sequences g)"
  using mp_gated.empty_stage [OF assms, of "g_sequences g"]
  by (auto simp: group_then_def group_handleEventsWith_def)

lemma empty_then_ungates_witness:
  "\<exists>d d'. createEventProcessors mp_ops [] [Handler 0, Handler 1] demo_disruptor = Some (Inr \<lparr>g_sequences = [2, 3]\<rparr>, d) \<and>
     gates (rb_sequencer (d_ring d)) \<noteq> {} \<and>
     group_then mp_ops \<lparr>g_sequences = [2, 3]\<rparr> [] d = Some (Inr \<lparr>g_sequences = []\<rparr>, d') \<and>
     gates (rb_sequencer (d_ring d')) = {}"
proof -
  obtain d where d: "createEventProcessors mp_ops [] [Handler 0, Handler 1] demo_disruptor =
        Some (Inr \<lparr>g_sequences = [2, 3]\<rparr>, d)" "configured mp_ops demo_disruptor d" "length (infos d) = 2"
      "seq_at d 0 = 2" "seq_at d 1 = 3" "depends_on d 0 = {}" "depends_on d 1 = {}"
    using demo_stage by blast
  have inv: "memory_ok mp_wf mp_owns d" "graph_ok gates d" "\<not> d_started d"
    using mp_gated.configured_inv [OF d(2) demo_disruptor_ok(1-3)] by blast+
  have two: "k < 2 \<longleftrightarrow> k = 0 \<or> k = 1" for k :: nat by auto
  have none: "depends_on d j = {}" if "j < 2" for j using d(6,7) that two by metis
  have cover: "i_endOfChain (infos d ! k) \<or> (\<exists>j. k < j \<and> j < 2 \<and> seq_at d k \<in> depends_on d j)" if "k < 2" for k
    using inv(2) that d(3) unfolding graph_ok_def by simp
  have chain: "i_endOfChain (infos d ! k)" if "k < 2" for k
    using cover [OF that] none by (metis empty_iff)
  have "gates (rb_sequencer (d_ring d)) = {seq_at d k | k. k < 2}"
    using inv(2) d(3) chain unfolding graph_ok_def by auto
  then have "gates (rb_sequencer (d_ring d)) = {2, 3}" using d(4,5) by (auto simp: two)
  then show ?thesis using empty_then_ungates [OF inv(1,3), of "\<lparr>g_sequences = [2, 3]\<rparr>"] d(1) by auto
qed

lemma startAll_frame:
  fixes d :: "('u, 'e, 's) disruptor"
  assumes "startAll_from newThread latch is d = Some (x, is', d')"
  shows "d_started d' = d_started d" and "d_wrapper d' = d_wrapper d"
proof -
  have "\<forall>x is' d'. startAll_from newThread latch is d = Some (x, is', d') \<longrightarrow>
      d_started d' = d_started d \<and> d_wrapper d' = d_wrapper d"
  proof (induction "is" arbitrary: d)
    case (Cons i "is")
    show ?case
    proof (intro allI impI)
      fix x is' d' assume run: "startAll_from newThread latch (i # is) d = Some (x, is', d')"
      obtain x1 i1 d1 where s: "info_start newThread latch i d = Some (x1, i1, d1)"
        using run by (auto split: option.splits)
      have d1: "d_started d1 = d_started d" "d_wrapper d1 = d_wrapper d"
        using s by (auto simp: info_start_def split: prod.splits option.splits if_splits)
      show "d_started d' = d_started d \<and> d_wrapper d' = d_wrapper d"
        using run s d1 Cons.IH [of d1] by (auto split: option.splits)
    qed
  qed simp
  then show "d_started d' = d_started d" "d_wrapper d' = d_wrapper d" using assms by blast+
qed

lemma d_start_started:
  "d_start newThread latch d = Some (r, d') \<Longrightarrow> d_started d'"
  by (auto simp: d_start_def checkOnlyStartedOnce_def startAll_def split: if_splits dest: startAll_frame)

text \<open>Starting freezes the graph: after \<open>start\<close> returned, with or without an exception, adding
  handlers, starting again and replacing the default exception handler are refused with the code's
  messages and change nothing.\<close>

lemma start_freezes:
  assumes "d_start newThread latch d = Some (r, d')"
  shows "createEventProcessors ops bs hs d' =
      Some (Inl (RuntimeErr ''All event handlers must be added before calling start.''), d') \<and>
    d_start newThread2 latch2 d' = Some (Inl (RuntimeErr ''Disruptor.start() must only be called once.''), d') \<and>
    setDefaultExceptionHandler x d' =
      (Inl (RuntimeErr ''All event handlers must be added before calling start.''), d')"
  using d_start_started [OF assms]
  by (simp add: createEventProcessors_def checkNotStarted_def d_start_def checkOnlyStartedOnce_def
      setDefaultExceptionHandler_def)




text \<open>C31: \<open>shutdown\<close> returns normally as soon as some look at the processors finds no backlog; its
  handler for the time-out exception can never run.\<close>

theorem shutdown_returns:
  assumes "i < length script" and "\<not> hasBacklog ops (fold (\<lambda>f x. f x) (map fst (take (Suc i) script)) d)"
  shows "\<exists>d'. d_shutdown ops H now script d = Some (Inr (), d')"
proof -
  obtain r d1 where s: "shutdown_loop ops (- 1) script d = Some (r, d1)"
    using shutdown_loop_returns [OF assms, of "- 1"] by auto
  then have "r = Inr ()" using shutdown_loop_cases [OF s] by auto
  then show ?thesis using s by (simp add: d_shutdown_def shutdown_timeout_def)
qed


lemma shutdown_returns_witness:
  "\<exists>d'. d_shutdown mp_ops (\<lambda>_. defaultHandler) 0 [(id, 0)] demo_disruptor = Some (Inr (), d')"
  using shutdown_returns [of 0 "[(id, 0)]" mp_ops demo_disruptor "\<lambda>_. defaultHandler" 0]
  by (simp add: hasBacklog_def repo_hasBacklog_def demo_disruptor_ok)

lemma impl_procs:
  assumes "createEventProcessorsImpl ops bs out (map Handler hs) d = (r, d')"
  shows "d_external d' = d_external d \<and>
    (\<exists>new. m_procs d' = m_procs d @ new \<and> length new = length hs \<and>
       (\<forall>p\<in>set new. ep_exceptionHandler p = Some (d_getExceptionHandler d)))"
  using assms
proof (induction hs arbitrary: out d)
  case (Cons h hs)
  obtain sq d1 where one: "createOne_handler ops bs h d = (sq, d1)" by (cases "createOne_handler ops bs h d")
  then have d1: "d_external d1 = d_external d" "d_getExceptionHandler d1 = d_getExceptionHandler d"
      "\<exists>p. m_procs d1 = m_procs d @ [p] \<and> ep_exceptionHandler p = Some (d_getExceptionHandler d)"
    by (auto simp: createOne_handler_def Let_def d_getExceptionHandler_def)
  have "createEventProcessorsImpl ops bs (out @ [sq]) (map Handler hs) d1 = (r, d')"
    using Cons.prems one by simp
  from Cons.IH [OF this] d1 show ?case by (fastforce simp: d1)
qed simp

lemma gating_frame:
  "d_addGatingSequences ops sqs d = Some d' \<Longrightarrow> m_procs d' = m_procs d"
  "updateGatingSequencesForNextInChain ops sqs d = Some d' \<Longrightarrow> m_procs d' = m_procs d"
proof -
  show "d_addGatingSequences ops sqs d = Some d' \<Longrightarrow> m_procs d' = m_procs d"
    by (auto simp: d_addGatingSequences_def)
  show "updateGatingSequencesForNextInChain ops sqs d = Some d' \<Longrightarrow> m_procs d' = m_procs d"
    by (induction ops sqs d rule: updateGatingSequencesForNextInChain.induct) (auto split: option.splits)
qed



end
