(* ===== verification/Ring_System.thy ===== *)
theory Ring_System
  imports Ring_Buffer "HOL-Library.Sublist"
begin

text \<open>The ring with all its threads: several producers on a \<open>MultiProducerSequencer\<close> and a
  graph of consumers, run one atomic access at a time in any order. A producer takes the steps of
  \<open>next\<close> (the fetch-and-add on the cursor, the look at the cached gating sequence, the
  scan of the gating sequences one by one, the store of the cache), writes its slots one by one
  and publishes them one by one; its translator may throw between two slots. A consumer takes the
  steps of \<open>waitFor\<close> (its dependent sequences one by one, the scan of the availability flags
  one by one), reads its slots one by one and then sets its own sequence. The fields
  \<open>y_sent\<close>, \<open>y_pub\<close>, \<open>y_lost\<close> and \<open>y_seen\<close> are history: no step looks at
  them.

  The invariant \<open>sys_inv\<close> is kept by every step. From it: a consumer receives exactly the
  events written for sequences 0, 1, 2, ... in this order; a slot is not written again before
  every consumer has passed it; a sequence whose translator threw is never passed.\<close>

datatype producer_pc =
    PIdle
  | PClaimed int int
  | PScanning int int seqs int
  | PWriting int int int
  | PPublishing int int

datatype reader_pc =
    CIdle int
  | CBound int "sid list" int
  | CScan int int int
  | CReading int int

record wiring =
  w_producers :: nat
  w_consumers :: nat
  w_seq :: "nat \<Rightarrow> sid"
  w_deps :: "nat \<Rightarrow> sid list"
  w_limit :: "nat \<Rightarrow> int"

record 'e system =
  y_store :: store
  y_ring :: "('e, mp_sequencer) ring_buffer"
  y_prod :: "nat \<Rightarrow> producer_pc"
  y_cons :: "nat \<Rightarrow> reader_pc"
  y_sent :: "int \<Rightarrow> 'e option"
  y_pub :: "int set"
  y_lost :: "int set"
  y_seen :: "nat \<Rightarrow> 'e list"

abbreviation y_sq :: "'e system \<Rightarrow> mp_sequencer" where
  "y_sq y \<equiv> rb_sequencer (y_ring y)"

abbreviation y_cursor :: "'e system \<Rightarrow> int" where
  "y_cursor y \<equiv> y_store y (cursor (y_sq y))"

abbreviation y_at :: "wiring \<Rightarrow> 'e system \<Rightarrow> nat \<Rightarrow> int" where
  "y_at W y c \<equiv> y_store y (w_seq W c)"

text \<open>The vector that \<open>minimumSequence\<close> iterates over: the cached raw pointer when there is
  one, otherwise the current one, which becomes the cached one.\<close>

definition mp_gating_vector :: "mp_sequencer \<Rightarrow> seqs option \<times> mp_sequencer" where
  "mp_gating_vector s =
     (case mp_gatingCache s of
        None \<Rightarrow>
          (case asp_load (holder (gatingSequences s)) of
             None \<Rightarrow> (Some [], s)
           | Some v \<Rightarrow> (Some (vec_at (gatingSequences s) (Some v)), s\<lparr>mp_gatingCache := Some v\<rparr>))
      | Some v \<Rightarrow> (vecs (gatingSequences s) v, s))"

inductive producer_step :: "nat \<Rightarrow> 'e system \<Rightarrow> 'e system \<Rightarrow> bool" for i where
  claim: "y_prod y i = PIdle \<Longrightarrow> 1 \<le> n \<Longrightarrow> n \<le> bufferSize (y_sq y) \<Longrightarrow> in_int64 (y_cursor y + n) \<Longrightarrow>
    seq_getAndAdd (cursor (y_sq y)) n (y_store y) = (current, \<sigma>) \<Longrightarrow>
    producer_step i y (y\<lparr>y_store := \<sigma>, y_prod := (y_prod y)(i := PClaimed current n)\<rparr>)"
| fast: "y_prod y i = PClaimed current n \<Longrightarrow> cached = seq_get (y_store y) (gatingSequenceCache (y_sq y)) \<Longrightarrow>
    \<not> (current + n - bufferSize (y_sq y) > cached \<or> cached > current) \<Longrightarrow>
    producer_step i y (y\<lparr>y_prod := (y_prod y)(i := PWriting (current + 1) (current + n) (current + 1))\<rparr>)"
| slow: "y_prod y i = PClaimed current n \<Longrightarrow> cached = seq_get (y_store y) (gatingSequenceCache (y_sq y)) \<Longrightarrow>
    current + n - bufferSize (y_sq y) > cached \<or> cached > current \<Longrightarrow>
    mp_gating_vector (y_sq y) = (Some xs, s) \<Longrightarrow>
    producer_step i y (y\<lparr>y_ring := (y_ring y)\<lparr>rb_sequencer := s\<rparr>,
      y_prod := (y_prod y)(i := PScanning current n xs current)\<rparr>)"
| scan_null: "y_prod y i = PScanning current n (None # xs) m \<Longrightarrow>
    producer_step i y (y\<lparr>y_prod := (y_prod y)(i := PScanning current n xs m)\<rparr>)"
| scan: "y_prod y i = PScanning current n (Some g # xs) m \<Longrightarrow>
    producer_step i y (y\<lparr>y_prod := (y_prod y)(i := PScanning current n xs (min m (seq_get (y_store y) g)))\<rparr>)"
| park: "y_prod y i = PScanning current n [] m \<Longrightarrow> current + n - bufferSize (y_sq y) > m \<Longrightarrow>
    mp_gating_vector (y_sq y) = (Some xs, s) \<Longrightarrow>
    producer_step i y (y\<lparr>y_ring := (y_ring y)\<lparr>rb_sequencer := s\<rparr>,
      y_prod := (y_prod y)(i := PScanning current n xs current)\<rparr>)"
| settle: "y_prod y i = PScanning current n [] m \<Longrightarrow> \<not> current + n - bufferSize (y_sq y) > m \<Longrightarrow>
    producer_step i y (y\<lparr>y_store := seq_set (gatingSequenceCache (y_sq y)) m (y_store y),
      y_prod := (y_prod y)(i := PWriting (current + 1) (current + n) (current + 1))\<rparr>)"
| fill: "y_prod y i = PWriting lo hi k \<Longrightarrow> k \<le> hi \<Longrightarrow>
    producer_step i y (y\<lparr>y_ring := rb_put k ev (y_ring y), y_prod := (y_prod y)(i := PWriting lo hi (k + 1)),
      y_sent := (y_sent y)(k \<mapsto> ev)\<rparr>)"
| throw: "y_prod y i = PWriting lo hi k \<Longrightarrow>
    producer_step i y (y\<lparr>y_prod := (y_prod y)(i := PIdle), y_lost := y_lost y \<union> {lo..hi}\<rparr>)"
| written: "y_prod y i = PWriting lo hi k \<Longrightarrow> \<not> k \<le> hi \<Longrightarrow>
    producer_step i y (y\<lparr>y_prod := (y_prod y)(i := PPublishing lo hi)\<rparr>)"
| publish: "y_prod y i = PPublishing k hi \<Longrightarrow> k \<le> hi \<Longrightarrow>
    producer_step i y (y\<lparr>y_ring := (y_ring y)\<lparr>rb_sequencer := setAvailable k (y_sq y)\<rparr>,
      y_prod := (y_prod y)(i := PPublishing (k + 1) hi), y_pub := insert k (y_pub y)\<rparr>)"
| published: "y_prod y i = PPublishing k hi \<Longrightarrow> \<not> k \<le> hi \<Longrightarrow>
    producer_step i y (y\<lparr>y_ring := (y_ring y)\<lparr>rb_sequencer := signalAll (y_sq y)\<rparr>,
      y_prod := (y_prod y)(i := PIdle)\<rparr>)"

inductive consumer_step :: "wiring \<Rightarrow> nat \<Rightarrow> 'e system \<Rightarrow> 'e system \<Rightarrow> bool" for W c where
  begin_wait: "y_cons y c = CIdle next \<Longrightarrow>
    ds = (if w_deps W c = [] then [cursor (y_sq y)] else w_deps W c) \<Longrightarrow>
    consumer_step W c y (y\<lparr>y_cons := (y_cons y)(c := CBound next ds int64_max)\<rparr>)"
| depend: "y_cons y c = CBound next (d # ds) m \<Longrightarrow>
    consumer_step W c y (y\<lparr>y_cons := (y_cons y)(c := CBound next ds (min m (seq_get (y_store y) d)))\<rparr>)"
| wait_again: "y_cons y c = CBound next ds m \<Longrightarrow>
    consumer_step W c y (y\<lparr>y_cons := (y_cons y)(c := CIdle next)\<rparr>)"
| bound: "y_cons y c = CBound next [] m \<Longrightarrow> \<not> m < next \<Longrightarrow>
    consumer_step W c y (y\<lparr>y_cons := (y_cons y)(c := CScan next next m)\<rparr>)"
| available: "y_cons y c = CScan next l m \<Longrightarrow> l \<le> m \<Longrightarrow> mp_isAvailable l (y_sq y) \<Longrightarrow>
    consumer_step W c y (y\<lparr>y_cons := (y_cons y)(c := CScan next (l + 1) m)\<rparr>)"
| insufficient: "y_cons y c = CScan next l m \<Longrightarrow> l \<le> m \<Longrightarrow> \<not> mp_isAvailable l (y_sq y) \<Longrightarrow>
    l - 1 < next \<Longrightarrow> consumer_step W c y (y\<lparr>y_cons := (y_cons y)(c := CIdle next)\<rparr>)"
| batch: "y_cons y c = CScan next l m \<Longrightarrow> \<not> l \<le> m \<or> \<not> mp_isAvailable l (y_sq y) \<Longrightarrow>
    availableSequence = (if l \<le> m then l - 1 else m) \<Longrightarrow> \<not> availableSequence < next \<Longrightarrow>
    consumer_step W c y
      (y\<lparr>y_cons := (y_cons y)(c := CReading next (min (next + w_limit W c) availableSequence))\<rparr>)"
| deliver: "y_cons y c = CReading q a \<Longrightarrow> q \<le> a \<Longrightarrow>
    consumer_step W c y (y\<lparr>y_cons := (y_cons y)(c := CReading (q + 1) a),
      y_seen := (y_seen y)(c := y_seen y c @ [rb_get (y_ring y) q])\<rparr>)"
| deliver_throws: "y_cons y c = CReading q a \<Longrightarrow> q \<le> a \<Longrightarrow>
    consumer_step W c y (y\<lparr>y_store := seq_set (w_seq W c) q (y_store y),
      y_cons := (y_cons y)(c := CIdle (q + 1)),
      y_seen := (y_seen y)(c := y_seen y c @ [rb_get (y_ring y) q])\<rparr>)"
| finish: "y_cons y c = CReading q a \<Longrightarrow> \<not> q \<le> a \<Longrightarrow>
    consumer_step W c y (y\<lparr>y_store := seq_set (w_seq W c) a (y_store y),
      y_cons := (y_cons y)(c := CIdle q)\<rparr>)"

inductive sys_step :: "wiring \<Rightarrow> 'e system \<Rightarrow> 'e system \<Rightarrow> bool" for W where
  producer: "i < w_producers W \<Longrightarrow> producer_step i y z \<Longrightarrow> sys_step W y z"
| consumer: "c < w_consumers W \<Longrightarrow> consumer_step W c y z \<Longrightarrow> sys_step W y z"

inductive sys_reach :: "wiring \<Rightarrow> 'e system \<Rightarrow> 'e system \<Rightarrow> bool" for W y0 where
  start: "sys_reach W y0 y0"
| step: "sys_reach W y0 y \<Longrightarrow> sys_step W y z \<Longrightarrow> sys_reach W y0 z"

text \<open>The wiring that a configured disruptor has: distinct sequences, none of them the cursor or
  the gating cache; the gating sequences are sequences of consumers, and from every consumer a
  chain of dependents leads down to a gating one. The number of producers is far below
  \<open>2 ^ 32\<close>: claims that wait run ahead of the gating sequences by at most one buffer each,
  and an availability flag repeats every \<open>2 ^ 32\<close> rounds.\<close>

definition follows :: "wiring \<Rightarrow> (nat \<times> nat) set" where
  "follows W = {(a, b). a < w_consumers W \<and> b < w_consumers W \<and> w_seq W b \<in> set (w_deps W a)}"

definition wiring_ok :: "wiring \<Rightarrow> mp_sequencer \<Rightarrow> bool" where
  "wiring_ok W s \<longleftrightarrow>
     0 < w_consumers W \<and> (\<forall>c<w_consumers W. 0 \<le> w_limit W c) \<and> int (w_producers W) + 2 < 2 ^ 32 \<and> inj_on (w_seq W) {..<w_consumers W} \<and>
     cursor s \<notin> w_seq W ` {..<w_consumers W} \<and> gatingSequenceCache s \<notin> w_seq W ` {..<w_consumers W} \<and>
     gates s \<subseteq> w_seq W ` {..<w_consumers W} \<and>
     (\<forall>c<w_consumers W. set (w_deps W c) \<subseteq> w_seq W ` {..<w_consumers W} \<and>
        (\<exists>g. w_seq W g \<in> gates s \<and> (g, c) \<in> (follows W)\<^sup>*))"

definition sys_start :: "wiring \<Rightarrow> 'e system \<Rightarrow> bool" where
  "sys_start W y \<longleftrightarrow>
     wiring_ok W (y_sq y) \<and> mp_wf (y_sq y) \<and> rb_ok mp_ops (y_ring y) \<and>
     availableBuffer (y_sq y) = replicate (nat (bufferSize (y_sq y))) (- 1) \<and>
     y_cursor y = INITIAL_VALUE \<and> y_store y (gatingSequenceCache (y_sq y)) = INITIAL_VALUE \<and>
     (\<forall>c<w_consumers W. y_at W y c = INITIAL_VALUE) \<and>
     y_prod y = (\<lambda>_. PIdle) \<and> (\<forall>c<w_consumers W. y_cons y c = CIdle (y_at W y c + 1)) \<and> y_sent y = (\<lambda>_. None) \<and>
     y_pub y = {} \<and> y_lost y = {} \<and> y_seen y = (\<lambda>_. [])"

text \<open>What a producer has claimed and not published, what it may already write, and what it has
  written.\<close>

fun pending :: "producer_pc \<Rightarrow> int set" where
  "pending PIdle = {}"
| "pending (PClaimed current n) = {current + 1..current + n}"
| "pending (PScanning current n _ _) = {current + 1..current + n}"
| "pending (PWriting lo hi _) = {lo..hi}"
| "pending (PPublishing k hi) = {k..hi}"

fun cleared :: "producer_pc \<Rightarrow> int set" where
  "cleared (PWriting lo hi _) = {lo..hi}"
| "cleared (PPublishing k hi) = {k..hi}"
| "cleared _ = {}"

fun unwritten :: "producer_pc \<Rightarrow> int set" where
  "unwritten (PWriting lo hi k) = {k..hi}"
| "unwritten (PPublishing k hi) = {}"
| "unwritten pc = pending pc"

fun producer_ok :: "sid set \<Rightarrow> int \<Rightarrow> store \<Rightarrow> producer_pc \<Rightarrow> bool" where
  "producer_ok G N \<sigma> (PClaimed current n) \<longleftrightarrow> n \<le> N"
| "producer_ok G N \<sigma> (PScanning current n xs m) \<longleftrightarrow> n \<le> N \<and> (\<forall>g\<in>G - ptrs xs. m \<le> \<sigma> g)"
| "producer_ok G N \<sigma> (PWriting lo hi k) \<longleftrightarrow> lo \<le> k"
| "producer_ok G N \<sigma> _ \<longleftrightarrow> True"

definition deps_of :: "wiring \<Rightarrow> mp_sequencer \<Rightarrow> nat \<Rightarrow> sid set" where
  "deps_of W s c = (if w_deps W c = [] then {cursor s} else set (w_deps W c))"

fun consumer_ok :: "int \<Rightarrow> sid set \<Rightarrow> store \<Rightarrow> int set \<Rightarrow> reader_pc \<Rightarrow> bool" where
  "consumer_ok p D \<sigma> pub (CIdle next) \<longleftrightarrow> next = p + 1"
| "consumer_ok p D \<sigma> pub (CBound next ds m) \<longleftrightarrow> next = p + 1 \<and> (\<forall>d\<in>D - set ds. m \<le> \<sigma> d)"
| "consumer_ok p D \<sigma> pub (CScan next l m) \<longleftrightarrow>
     next = p + 1 \<and> next \<le> l \<and> l \<le> m + 1 \<and> (\<forall>d\<in>D. m \<le> \<sigma> d) \<and> {next..l - 1} \<subseteq> pub"
| "consumer_ok p D \<sigma> pub (CReading q a) \<longleftrightarrow>
     p + 1 \<le> q \<and> q \<le> a + 1 \<and> p + 1 \<le> a \<and> (\<forall>d\<in>D. a \<le> \<sigma> d) \<and> {p + 1..a} \<subseteq> pub"

fun reads_from :: "int \<Rightarrow> reader_pc \<Rightarrow> int" where
  "reads_from p (CReading q a) = q"
| "reads_from p _ = p + 1"

text \<open>The invariant, in five parts.\<close>

abbreviation y_size :: "'e system \<Rightarrow> int" where
  "y_size y \<equiv> bufferSize (y_sq y)"

definition static_ok :: "wiring \<Rightarrow> 'e system \<Rightarrow> bool" where
  "static_ok W y \<longleftrightarrow> wiring_ok W (y_sq y) \<and> mp_wf (y_sq y) \<and> rb_ok mp_ops (y_ring y)"

definition claims_ok :: "wiring \<Rightarrow> 'e system \<Rightarrow> bool" where
  "claims_ok W y \<longleftrightarrow>
     (\<forall>i. w_producers W \<le> i \<longrightarrow> y_prod y i = PIdle) \<and>
     (\<forall>i. producer_ok (gates (y_sq y)) (y_size y) (y_store y) (y_prod y i)) \<and>
     (\<forall>i j. i \<noteq> j \<longrightarrow> pending (y_prod y i) \<inter> pending (y_prod y j) = {}) \<and>
     (\<forall>i. pending (y_prod y i) \<inter> (y_pub y \<union> y_lost y) = {}) \<and> y_pub y \<inter> y_lost y = {} \<and>
     {0..y_cursor y} = y_pub y \<union> y_lost y \<union> (\<Union>i. pending (y_prod y i)) \<and> - 1 \<le> y_cursor y"

definition cleared_ok :: "wiring \<Rightarrow> 'e system \<Rightarrow> bool" where
  "cleared_ok W y \<longleftrightarrow> mp_cache_ok (y_store y) (y_sq y) \<and>
     (\<forall>c<w_consumers W. \<forall>q \<in> y_pub y \<union> y_lost y \<union> (\<Union>i. cleared (y_prod y i)). q \<le> y_at W y c + y_size y)"

definition consumers_ok :: "wiring \<Rightarrow> 'e system \<Rightarrow> bool" where
  "consumers_ok W y \<longleftrightarrow>
     (\<forall>c<w_consumers W. - 1 \<le> y_at W y c \<and> {0..y_at W y c} \<subseteq> y_pub y \<and>
        consumer_ok (y_at W y c) (deps_of W (y_sq y) c) (y_store y) (y_pub y) (y_cons y c) \<and>
        (\<forall>d\<in>deps_of W (y_sq y) c. y_at W y c \<le> y_store y d))"

definition slot_flag_ok :: "int list \<Rightarrow> int \<Rightarrow> int set \<Rightarrow> int \<Rightarrow> bool" where
  "slot_flag_ok flags N pub i \<longleftrightarrow>
     (\<exists>p. p mod N = i \<and> - N \<le> p \<and> (p < 0 \<or> p \<in> pub) \<and> flags ! nat i = wrap32 (p div N) \<and>
        (\<forall>q\<in>pub. q mod N = i \<longrightarrow> q \<le> p))"

definition flags_ok :: "'e system \<Rightarrow> bool" where
  "flags_ok y \<longleftrightarrow>
     (\<forall>i. 0 \<le> i \<and> i < y_size y \<longrightarrow> slot_flag_ok (availableBuffer (y_sq y)) (y_size y) (y_pub y) i)"

definition events_ok :: "'e system \<Rightarrow> bool" where
  "events_ok y \<longleftrightarrow>
     (\<forall>q. y_sent y q \<noteq> None \<longrightarrow>
        q \<in> y_pub y \<union> y_lost y \<union> (\<Union>i. cleared (y_prod y i)) \<and> (\<forall>i. q \<notin> unwritten (y_prod y i))) \<and>
     (\<forall>q \<in> y_pub y \<union> (\<Union>i. cleared (y_prod y i) - unwritten (y_prod y i)). y_sent y q \<noteq> None)"

definition delivery_ok :: "wiring \<Rightarrow> 'e system \<Rightarrow> bool" where
  "delivery_ok W y \<longleftrightarrow>
     (\<forall>q e c. y_sent y q = Some e \<and> c < w_consumers W \<and> y_at W y c < q \<longrightarrow> rb_get (y_ring y) q = e) \<and>
     (\<forall>c<w_consumers W. y_seen y c =
        map (\<lambda>q. the (y_sent y q)) [0..reads_from (y_at W y c) (y_cons y c) - 1])"

definition sys_inv :: "wiring \<Rightarrow> 'e system \<Rightarrow> bool" where
  "sys_inv W y \<longleftrightarrow>
     static_ok W y \<and> claims_ok W y \<and> cleared_ok W y \<and> consumers_ok W y \<and> flags_ok y \<and>
     events_ok y \<and> delivery_ok W y"

text \<open>What follows from the invariant in one state.\<close>

lemma sys_inv_D:
  assumes "sys_inv W y"
  shows "static_ok W y" and "claims_ok W y" and "cleared_ok W y" and "consumers_ok W y"
    and "flags_ok y" and "events_ok y" and "delivery_ok W y"
  using assms by (auto simp: sys_inv_def)

lemma static_D:
  assumes "static_ok W y"
  shows "mp_wf (y_sq y)" and "rb_ok mp_ops (y_ring y)" and "0 < y_size y"
    and "rb_bufferSize (y_ring y) = y_size y" and "0 < w_consumers W"
    and "gates (y_sq y) \<subseteq> w_seq W ` {..<w_consumers W}" and "wiring_ok W (y_sq y)"
    and "c < w_consumers W \<Longrightarrow> w_seq W c \<noteq> cursor (y_sq y)"
    and "c < w_consumers W \<Longrightarrow> w_seq W c \<noteq> gatingSequenceCache (y_sq y)"
    and "c < w_consumers W \<Longrightarrow> d < w_consumers W \<Longrightarrow> w_seq W c = w_seq W d \<longleftrightarrow> c = d"
proof -
  have w: "wiring_ok W (y_sq y)" "mp_wf (y_sq y)" "rb_ok mp_ops (y_ring y)"
    using assms by (auto simp: static_ok_def)
  then show "mp_wf (y_sq y)" "rb_ok mp_ops (y_ring y)" "0 < y_size y" "0 < w_consumers W"
      "rb_bufferSize (y_ring y) = y_size y" "gates (y_sq y) \<subseteq> w_seq W ` {..<w_consumers W}"
      "wiring_ok W (y_sq y)" "c < w_consumers W \<Longrightarrow> d < w_consumers W \<Longrightarrow> w_seq W c = w_seq W d \<longleftrightarrow> c = d"
    using mp_wf_pos[of "y_sq y"]
    by (auto simp: wiring_ok_def rb_ok_def mp_ops_def getBufferSize_def inj_on_def)
  have "cursor (y_sq y) \<notin> w_seq W ` {..<w_consumers W}"
    and "gatingSequenceCache (y_sq y) \<notin> w_seq W ` {..<w_consumers W}"
    using w(1) by (auto simp: wiring_ok_def)
  then show "c < w_consumers W \<Longrightarrow> w_seq W c \<noteq> cursor (y_sq y)"
    and "c < w_consumers W \<Longrightarrow> w_seq W c \<noteq> gatingSequenceCache (y_sq y)"
    by (metis imageI lessThan_iff)+
qed

lemma follows_le:
  assumes "consumers_ok W y" and "(a, b) \<in> (follows W)\<^sup>*"
  shows "y_at W y a \<le> y_at W y b"
  using assms(2)
proof (induction rule: rtrancl_induct)
  case (step b c)
  from step(2) have "b < w_consumers W" and "w_seq W c \<in> deps_of W (y_sq y) b"
    by (auto simp: follows_def deps_of_def)
  then have "y_at W y b \<le> y_at W y c" using assms(1) by (auto simp: consumers_ok_def)
  then show ?case using step(3) by simp
qed simp

lemma gate_bound:
  assumes "static_ok W y" and "consumers_ok W y" and "\<forall>g\<in>gates (y_sq y). b \<le> y_store y g"
    and "c < w_consumers W"
  shows "b \<le> y_at W y c"
proof -
  obtain g where "w_seq W g \<in> gates (y_sq y)" and "(g, c) \<in> (follows W)\<^sup>*"
    using assms(1,4) by (auto simp: static_ok_def wiring_ok_def)
  then show ?thesis using follows_le[OF assms(2)] assms(3) by fastforce
qed

lemma pending_above:
  assumes "claims_ok W y" and "consumers_ok W y" and "q \<in> y_lost y \<union> pending (y_prod y i)"
    and "c < w_consumers W"
  shows "y_at W y c < q" and "0 \<le> q" and "q \<le> y_cursor y"
proof -
  have "q \<in> {0..y_cursor y}" using assms(1,3) by (auto simp: claims_ok_def)
  then show "0 \<le> q" and "q \<le> y_cursor y" by auto
  have "q \<notin> y_pub y" using assms(1,3) unfolding claims_ok_def by blast
  moreover have "{0..y_at W y c} \<subseteq> y_pub y" using assms(2,4) by (auto simp: consumers_ok_def)
  ultimately show "y_at W y c < q" using \<open>0 \<le> q\<close> by force
qed

lemma cleared_pending: "cleared pc \<subseteq> pending pc"
  by (cases pc) auto

lemma unwritten_pending: "producer_ok G N \<sigma> pc \<Longrightarrow> unwritten pc \<subseteq> pending pc"
  by (cases pc) auto

lemma finite_pending: "finite (pending pc)"
  by (cases pc) auto

lemma pending_card:
  "producer_ok G N \<sigma> pc \<Longrightarrow> cleared pc \<noteq> pending pc \<Longrightarrow> card (pending pc) \<le> nat N"
  by (cases pc) auto

text \<open>Waiting claims lie beyond the reach of every consumer by at most one buffer each, so the
  cursor stays within a bounded distance and no availability flag is taken for a later round's.\<close>

lemma cursor_bound:
  assumes "static_ok W y" and "claims_ok W y" and "cleared_ok W y" and "consumers_ok W y"
    and "c < w_consumers W"
  shows "y_cursor y \<le> y_at W y c + (int (w_producers W) + 1) * y_size y"
proof -
  define A where "A = {y_at W y c + y_size y + 1..y_cursor y}"
  have piece: "card (pending (y_prod y i) \<inter> A) \<le> nat (y_size y)" for i
  proof (cases "cleared (y_prod y i) = pending (y_prod y i)")
    case True
    then have "pending (y_prod y i) \<inter> A = {}"
      using assms(3,5) by (force simp: cleared_ok_def A_def)
    then show ?thesis by simp
  next
    case False
    have "producer_ok (gates (y_sq y)) (y_size y) (y_store y) (y_prod y i)"
      using assms(2) by (simp add: claims_ok_def)
    then have "card (pending (y_prod y i)) \<le> nat (y_size y)"
      using False by (rule pending_card)
    moreover have "card (pending (y_prod y i) \<inter> A) \<le> card (pending (y_prod y i))"
      by (rule card_mono) (auto simp: finite_pending)
    ultimately show ?thesis by linarith
  qed
  have "A \<subseteq> (\<Union>i<w_producers W. pending (y_prod y i) \<inter> A)"
  proof
    fix q assume q: "q \<in> A"
    have n: "0 < y_size y" using static_D(3)[OF assms(1)] .
    have above: "q \<notin> y_pub y \<union> y_lost y" using assms(3,5) q by (force simp: cleared_ok_def A_def)
    have "q \<le> y_cursor y" and "0 \<le> q"
    proof -
      show "q \<le> y_cursor y" using q by (simp add: A_def)
      show "0 \<le> q"
        using q n assms(4,5) by (force simp: consumers_ok_def A_def)
    qed
    then have "q \<in> {0..y_cursor y}" by simp
    then obtain i where i: "q \<in> pending (y_prod y i)" using above assms(2) by (auto simp: claims_ok_def)
    then have "\<not> w_producers W \<le> i" using assms(2) by (auto simp: claims_ok_def)
    then show "q \<in> (\<Union>i<w_producers W. pending (y_prod y i) \<inter> A)" using i q by auto
  qed
  then have "card A \<le> card (\<Union>i<w_producers W. pending (y_prod y i) \<inter> A)"
    by (rule card_mono[rotated]) (auto simp: A_def)
  also have "\<dots> \<le> (\<Sum>i<w_producers W. card (pending (y_prod y i) \<inter> A))"
    by (rule card_UN_le) simp
  also have "\<dots> \<le> (\<Sum>i<w_producers W. nat (y_size y))"
    by (rule sum_mono) (rule piece)
  finally have "card A \<le> (\<Sum>i<w_producers W. nat (y_size y))" .
  then have "y_cursor y - y_at W y c - y_size y \<le> int (w_producers W) * y_size y"
    using static_D(3)[OF assms(1)] by (simp add: A_def nat_le_iff)
  then show ?thesis by (simp add: algebra_simps)
qed

lemma same_residue_wrap:
  fixes p q N :: int
  assumes "0 < N" and "p mod N = q mod N" and "\<bar>q - p\<bar> < N * 2 ^ 32"
  shows "wrap32 (p div N) = wrap32 (q div N) \<longleftrightarrow> p = q"
proof
  assume "wrap32 (p div N) = wrap32 (q div N)"
  then have "(q div N - p div N) mod 2 ^ 32 = 0"
    by (metis mod_diff_eq diff_self mod_0 wrap32_eq_iff)
  then obtain k where k: "q div N - p div N = k * 2 ^ 32" by (metis mod_0_imp_dvd dvdE mult.commute)
  have "q - p = N * (q div N - p div N)"
    using assms(2) by (metis add_diff_cancel_right mult_div_mod_eq right_diff_distrib)
  then have d: "q - p = N * 2 ^ 32 * k" using k by (simp add: mult.assoc mult.left_commute)
  then have "\<bar>k\<bar> * (N * 2 ^ 32) < 1 * (N * 2 ^ 32)" using assms(1,3) by (simp add: abs_mult mult.commute)
  then have "k = 0" using assms(1) by (simp only: mult_less_cancel_right) auto
  then show "p = q" using d by simp
qed simp

lemma residue_below:
  fixes p q N :: int
  assumes "0 < N" and "p mod N = q mod N" and "p < q"
  shows "p \<le> q - N"
  by (rule ccontr) (use same_slot_eq[of p N q] assms in linarith)

lemma available_iff:
  assumes inv: "sys_inv W y" and c: "c < w_consumers W" and "y_at W y c < q" and "q \<le> y_cursor y"
  shows "mp_isAvailable q (y_sq y) \<longleftrightarrow> q \<in> y_pub y"
proof -
  note I = sys_inv_D[OF inv]
  note S = static_D[OF I(1)]
  define N where "N = y_size y"
  define x where "x = y_at W y c"
  have N: "0 < N" using S(3) by (simp add: N_def)
  have x: "- 1 \<le> x" and covered: "{0..x} \<subseteq> y_pub y" using I(4) c by (auto simp: consumers_ok_def x_def)
  obtain p where p: "p mod N = q mod N" "- N \<le> p" "p < 0 \<or> p \<in> y_pub y"
    and flag: "availableBuffer (y_sq y) ! nat (q mod N) = wrap32 (p div N)"
    and top: "\<forall>r\<in>y_pub y. r mod N = q mod N \<longrightarrow> r \<le> p"
  proof -
    have "slot_flag_ok (availableBuffer (y_sq y)) N (y_pub y) (q mod N)"
      using I(5) N unfolding flags_ok_def N_def[symmetric] by simp
    then show ?thesis using that unfolding slot_flag_ok_def by blast
  qed
  have upper: "r \<le> x + N" if "r \<in> y_pub y" for r
    using I(3) c that by (auto simp: cleared_ok_def x_def N_def)
  define q0 where "q0 = x - (x - q) mod N"
  have q0: "q0 mod N = q mod N" "q0 \<le> x" "x - N < q0"
    using N pos_mod_sign[of N "x - q"] pos_mod_bound[of N "x - q"] by (auto simp: q0_def mod_diff_right_eq)
  have "q0 \<le> p"
  proof (cases "0 \<le> q0")
    case True
    then show ?thesis using covered q0 top by auto
  next
    case False
    show ?thesis
    proof (rule ccontr)
      assume "\<not> q0 \<le> p"
      then have "p \<le> q0 - N" using residue_below[OF N, of p q0] p(1) q0(1) by simp
      then show False using p(2) False by linarith
    qed
  qed
  then have low: "x - N < p" using q0(3) by linarith
  have high: "p \<le> x + N" using p(3) upper x N by force
  have "q \<le> x + (int (w_producers W) + 1) * N"
    using cursor_bound[OF I(1,2,3,4) c] assms(4) by (simp add: x_def N_def)
  then have "q - p < (int (w_producers W) + 2) * N"
    using low by (simp add: algebra_simps)
  moreover have "(int (w_producers W) + 2) * N < 2 ^ 32 * N"
    by (rule mult_strict_right_mono[OF _ N]) (use S(7) in \<open>simp add: wiring_ok_def\<close>)
  moreover have "1 * N \<le> 2 ^ 32 * N" by (rule mult_right_mono) (use N in simp_all)
  moreover have "p - q < N" using high assms(3) by (simp add: x_def[symmetric])
  ultimately have near: "\<bar>q - p\<bar> < N * 2 ^ 32"
    unfolding abs_less_iff mult.commute[of N] by linarith
  have "mp_isAvailable q (y_sq y) \<longleftrightarrow> wrap32 (p div N) = wrap32 (q div N)"
    using mp_isAvailable_eq[OF S(1)] flag by (simp add: N_def)
  also have "\<dots> \<longleftrightarrow> p = q" by (rule same_residue_wrap[OF N p(1) near])
  also have "\<dots> \<longleftrightarrow> q \<in> y_pub y"
  proof
    assume "p = q"
    then show "q \<in> y_pub y" using p(3) x assms(3) by (simp add: x_def[symmetric])
  next
    assume "q \<in> y_pub y"
    then have "q \<le> p" using top by simp
    moreover have "\<not> q < p"
      using residue_below[OF N, of q p] p(1) high assms(3) unfolding x_def[symmetric] by auto
    ultimately show "p = q" by simp
  qed
  finally show ?thesis .
qed

text \<open>Every step keeps the invariant. Steps that change one program counter only:\<close>

lemma consumer_pc_inv:
  assumes "sys_inv W y" and "c < w_consumers W"
    and "consumer_ok (y_at W y c) (deps_of W (y_sq y) c) (y_store y) (y_pub y) pc"
    and "reads_from (y_at W y c) pc = reads_from (y_at W y c) (y_cons y c)"
  shows "sys_inv W (y\<lparr>y_cons := (y_cons y)(c := pc)\<rparr>)" (is "sys_inv W ?z")
proof -
  note I = sys_inv_D[OF assms(1)]
  have same: "reads_from (y_at W y d) (((y_cons y)(c := pc)) d) = reads_from (y_at W y d) (y_cons y d)" for d
    using assms(4) by simp
  have "static_ok W ?z = static_ok W y" "claims_ok W ?z = claims_ok W y" "cleared_ok W ?z = cleared_ok W y"
      "flags_ok ?z = flags_ok y" "events_ok ?z = events_ok y"
    by (simp_all add: static_ok_def claims_ok_def cleared_ok_def flags_ok_def events_ok_def)
  moreover have "delivery_ok W ?z = delivery_ok W y"
    by (simp add: delivery_ok_def same del: fun_upd_apply)
  moreover have "consumers_ok W ?z"
    using I(4) assms(3) unfolding consumers_ok_def by simp
  ultimately show ?thesis using I unfolding sys_inv_def by blast
qed

lemma producer_pc_inv:
  assumes "sys_inv W y" and "i < w_producers W" and "pending pc = pending (y_prod y i)"
    and "producer_ok (gates (y_sq y)) (y_size y) (y_store y) pc"
    and "\<forall>c<w_consumers W. \<forall>q\<in>cleared pc. q \<le> y_at W y c + y_size y"
    and "cleared (y_prod y i) \<subseteq> cleared pc" and "unwritten pc \<subseteq> unwritten (y_prod y i)"
    and "cleared pc - unwritten pc \<subseteq> cleared (y_prod y i) - unwritten (y_prod y i)"
  shows "sys_inv W (y\<lparr>y_prod := (y_prod y)(i := pc)\<rparr>)" (is "sys_inv W ?z")
proof -
  note I = sys_inv_D[OF assms(1)]
  have pend: "(\<lambda>j. pending (y_prod ?z j)) = (\<lambda>j. pending (y_prod y j))"
    by (rule ext) (use assms(3) in simp)
  have "claims_ok W ?z"
    using I(2) assms(2,4) fun_cong[OF pend] unfolding claims_ok_def by simp
  moreover have "cleared_ok W ?z"
  proof -
    have "q \<le> y_at W y c + y_size y" if "c < w_consumers W"
      and "q \<in> y_pub y \<union> y_lost y \<union> (\<Union>j. cleared (y_prod ?z j))" for c q
    proof -
      have "q \<in> y_pub y \<union> y_lost y \<union> (\<Union>j. cleared (y_prod y j)) \<or> q \<in> cleared pc"
        using that(2) by (auto split: if_splits)
      then show ?thesis using that(1) I(3) assms(5) unfolding cleared_ok_def by blast
    qed
    then show ?thesis using I(3) by (simp add: cleared_ok_def)
  qed
  moreover have "events_ok ?z"
  proof -
    have 1: "q \<in> y_pub y \<union> y_lost y \<union> (\<Union>i. cleared (y_prod ?z i)) \<and> (\<forall>i. q \<notin> unwritten (y_prod ?z i))"
      if "y_sent y q \<noteq> None" for q
    proof -
      have "q \<in> y_pub y \<union> y_lost y \<union> (\<Union>i. cleared (y_prod y i))" and "\<forall>i. q \<notin> unwritten (y_prod y i)"
        using I(6) that unfolding events_ok_def by blast+
      then show ?thesis using assms(6,7) by auto
    qed
    have 2: "y_sent y q \<noteq> None"
      if "q \<in> y_pub y \<union> (\<Union>i. cleared (y_prod ?z i) - unwritten (y_prod ?z i))" for q
    proof -
      have "q \<in> y_pub y \<union> (\<Union>i. cleared (y_prod y i) - unwritten (y_prod y i))"
        using that assms(8) by (auto split: if_splits)
      then show ?thesis using I(6) unfolding events_ok_def by blast
    qed
    show ?thesis using 1 2 unfolding events_ok_def by simp
  qed
  moreover have "static_ok W ?z = static_ok W y" "consumers_ok W ?z = consumers_ok W y" "flags_ok ?z = flags_ok y"
      "delivery_ok W ?z = delivery_ok W y"
    by (simp_all add: static_ok_def consumers_ok_def flags_ok_def delivery_ok_def)
  ultimately show ?thesis using I unfolding sys_inv_def by blast
qed

lemma sequencer_inv:
  assumes "sys_inv W y" and "mp_wf s" and "bufferSize s = y_size y" and "cursor s = cursor (y_sq y)"
    and "gates s = gates (y_sq y)" and "availableBuffer s = availableBuffer (y_sq y)"
    and "gatingSequenceCache s = gatingSequenceCache (y_sq y)"
  shows "sys_inv W (y\<lparr>y_ring := (y_ring y)\<lparr>rb_sequencer := s\<rparr>\<rparr>)" (is "sys_inv W ?z")
proof -
  note I = sys_inv_D[OF assms(1)]
  have "rb_ok mp_ops (y_ring ?z)"
    using rb_ok_sequencer_update[of mp_ops s "y_ring y"] static_D(2)[OF I(1)] assms(3)
    by (simp add: mp_ops_def getBufferSize_def)
  then have "static_ok W ?z"
    using I(1) assms(2-7) unfolding static_ok_def wiring_ok_def by simp
  moreover have "claims_ok W ?z = claims_ok W y" "flags_ok ?z = flags_ok y" "events_ok ?z = events_ok y"
      "delivery_ok W ?z = delivery_ok W y"
    using assms(2-7) by (simp_all add: claims_ok_def flags_ok_def events_ok_def delivery_ok_def)
  moreover have "cleared_ok W ?z = cleared_ok W y" "consumers_ok W ?z = consumers_ok W y"
    using assms(2-7) by (simp_all add: cleared_ok_def mp_cache_ok_def consumers_ok_def deps_of_def)
  ultimately show ?thesis using I unfolding sys_inv_def by blast
qed

lemma mp_gating_vector_wf:
  assumes "mp_wf s" and "mp_gating_vector s = (Some xs, s')"
  shows "ptrs xs = gates s" and "s' = s\<lparr>mp_gatingCache := holder (gatingSequences s)\<rparr>"
proof -
  obtain v ys where "holder (gatingSequences s) = Some v" and "vecs (gatingSequences s) v = Some ys"
    using assms(1) by (auto simp: mp_wf_def gating_ok_def)
  then show "ptrs xs = gates s" and "s' = s\<lparr>mp_gatingCache := holder (gatingSequences s)\<rparr>"
    using assms by (auto simp: mp_wf_def mp_gating_vector_def asp_load_def vec_at_def gates_def group_seqs_def
        split: option.splits)
qed

lemma gating_vector_inv:
  assumes "sys_inv W y" and "mp_gating_vector (y_sq y) = (Some xs, s)"
  shows "sys_inv W (y\<lparr>y_ring := (y_ring y)\<lparr>rb_sequencer := s\<rparr>\<rparr>)" and "ptrs xs = gates (y_sq y)"
    and "gates s = gates (y_sq y)" and "bufferSize s = y_size y"
proof -
  have wf: "mp_wf (y_sq y)" using static_D(1) sys_inv_D(1) assms(1) by blast
  note V = mp_gating_vector_wf[OF wf assms(2)]
  show "ptrs xs = gates (y_sq y)" "gates s = gates (y_sq y)" "bufferSize s = y_size y"
    using V by (simp_all)
  show "sys_inv W (y\<lparr>y_ring := (y_ring y)\<lparr>rb_sequencer := s\<rparr>\<rparr>)"
    by (rule sequencer_inv[OF assms(1)]) (use V mp_wf_cached[OF wf] in simp_all)
qed

text \<open>Steps that write to a sequence.\<close>

lemma producer_ok_mono:
  "producer_ok G N \<sigma> pc \<Longrightarrow> \<forall>g\<in>G. \<sigma> g \<le> \<tau> g \<Longrightarrow> producer_ok G N \<tau> pc"
  by (cases pc) (auto, (meson DiffI order_trans)+)

lemma consumer_ok_mono:
  "consumer_ok p D \<sigma> pub pc \<Longrightarrow> \<forall>d\<in>D. \<sigma> d \<le> \<tau> d \<Longrightarrow> pub \<subseteq> pub' \<Longrightarrow> consumer_ok p D \<tau> pub' pc"
  by (cases pc) (auto, (meson DiffI order_trans subsetD)+)

lemma deps_cases:
  assumes "static_ok W y" and "c < w_consumers W" and "d \<in> deps_of W (y_sq y) c"
  shows "d = cursor (y_sq y) \<or> (\<exists>b<w_consumers W. d = w_seq W b)"
proof -
  have "set (w_deps W c) \<subseteq> w_seq W ` {..<w_consumers W}"
    using assms(1,2) by (auto simp: static_ok_def wiring_ok_def)
  then show ?thesis using assms(3) by (auto simp: deps_of_def split: if_splits)
qed

lemma gates_cases:
  assumes "static_ok W y" and "g \<in> gates (y_sq y)"
  shows "\<exists>b<w_consumers W. g = w_seq W b"
  using static_D(6)[OF assms(1)] assms(2) by auto

lemma consumers_mono:
  assumes "consumers_ok W y" and "c < w_consumers W" and "y_at W z c = y_at W y c"
    and "y_sq z = y_sq y" and "y_cons z c = y_cons y c" and "y_pub y \<subseteq> y_pub z"
    and "\<forall>d\<in>deps_of W (y_sq y) c. y_store y d \<le> y_store z d"
  shows "- 1 \<le> y_at W z c \<and> {0..y_at W z c} \<subseteq> y_pub z \<and>
    consumer_ok (y_at W z c) (deps_of W (y_sq z) c) (y_store z) (y_pub z) (y_cons z c) \<and>
    (\<forall>d\<in>deps_of W (y_sq z) c. y_at W z c \<le> y_store z d)"
proof -
  have "- 1 \<le> y_at W y c" "{0..y_at W y c} \<subseteq> y_pub y" "\<forall>d\<in>deps_of W (y_sq y) c. y_at W y c \<le> y_store y d"
    and ok: "consumer_ok (y_at W y c) (deps_of W (y_sq y) c) (y_store y) (y_pub y) (y_cons y c)"
    using assms(1,2) by (auto simp: consumers_ok_def)
  moreover have "consumer_ok (y_at W y c) (deps_of W (y_sq y) c) (y_store z) (y_pub z) (y_cons y c)"
    by (rule consumer_ok_mono[OF ok assms(7,6)])
  ultimately show ?thesis using assms(3-7) by force
qed

lemma delivery_mono:
  assumes "delivery_ok W y" and "y_sent z = y_sent y" and "rb_get (y_ring z) = rb_get (y_ring y)"
    and "\<And>c. c < w_consumers W \<Longrightarrow> y_at W y c \<le> y_at W z c"
    and "\<And>c. c < w_consumers W \<Longrightarrow>
      y_seen z c = map (\<lambda>q. the (y_sent y q)) [0..reads_from (y_at W z c) (y_cons z c) - 1]"
  shows "delivery_ok W z"
proof -
  have "rb_get (y_ring z) q = e" if "y_sent z q = Some e" "c < w_consumers W" "y_at W z c < q" for q e c
  proof -
    have "y_at W y c < q" using assms(4)[OF that(2)] that(3) by simp
    then show ?thesis using assms(1,2,3) that unfolding delivery_ok_def by metis
  qed
  moreover have "y_seen z c = map (\<lambda>q. the (y_sent z q)) [0..reads_from (y_at W z c) (y_cons z c) - 1]"
    if "c < w_consumers W" for c using assms(2,5) that by simp
  ultimately show ?thesis unfolding delivery_ok_def by blast
qed

lemma delivery_seen:
  "delivery_ok W y \<Longrightarrow> c < w_consumers W \<Longrightarrow>
     y_seen y c = map (\<lambda>q. the (y_sent y q)) [0..reads_from (y_at W y c) (y_cons y c) - 1]"
  by (simp add: delivery_ok_def)

lemma cache_inv:
  assumes "sys_inv W y" and "\<forall>g\<in>gates (y_sq y). m \<le> y_store y g"
  shows "sys_inv W (y\<lparr>y_store := (y_store y)(gatingSequenceCache (y_sq y) := m)\<rparr>)" (is "sys_inv W ?z")
proof -
  note I = sys_inv_D[OF assms(1)]
  note S = static_D[OF I(1)]
  have neq: "cursor (y_sq y) \<noteq> gatingSequenceCache (y_sq y)" using S(1) by (simp add: mp_wf_def)
  have at: "y_at W ?z c = y_at W y c" if "c < w_consumers W" for c using S(9)[OF that] by simp
  have deps: "y_store ?z d = y_store y d" if "c < w_consumers W" "d \<in> deps_of W (y_sq y) c" for c d
  proof -
    have "d \<noteq> gatingSequenceCache (y_sq y)" using deps_cases[OF I(1) that] neq S(9) by metis
    then show ?thesis by simp
  qed
  have gate: "y_store ?z g = y_store y g" if "g \<in> gates (y_sq y)" for g
  proof -
    have "g \<noteq> gatingSequenceCache (y_sq y)" using gates_cases[OF I(1) that] S(9) by metis
    then show ?thesis by simp
  qed
  have "claims_ok W ?z"
  proof -
    have "producer_ok (gates (y_sq y)) (y_size y) (y_store ?z) (y_prod y i)" for i
      by (rule producer_ok_mono[of _ _ "y_store y"]) (use I(2) gate in \<open>auto simp: claims_ok_def\<close>)
    then show ?thesis using I(2) neq by (simp add: claims_ok_def)
  qed
  moreover have "cleared_ok W ?z"
    using I(3) assms(2) at gate by (auto simp: cleared_ok_def mp_cache_ok_def)
  moreover have "consumers_ok W ?z"
    unfolding consumers_ok_def using consumers_mono[OF I(4) _ at] deps by simp
  moreover have "delivery_ok W ?z"
    by (rule delivery_mono[OF I(7)]) (use at delivery_seen[OF I(7)] in \<open>simp_all del: fun_upd_apply\<close>)
  moreover have "static_ok W ?z = static_ok W y" "flags_ok ?z = flags_ok y" "events_ok ?z = events_ok y"
    by (simp_all add: static_ok_def flags_ok_def events_ok_def)
  ultimately show ?thesis using I unfolding sys_inv_def by blast
qed

text \<open>A consumer sets its own sequence to \<open>v\<close>, having read every event up to it.\<close>

lemma advance_inv:
  assumes "sys_inv W y" and c: "c < w_consumers W" and "y_at W y c \<le> v"
    and "{y_at W y c + 1..v} \<subseteq> y_pub y" and "\<forall>d\<in>deps_of W (y_sq y) c. v \<le> y_store y d"
    and "pc = CIdle (v + 1)" and "xs = map (\<lambda>q. the (y_sent y q)) [0..v]"
  shows "sys_inv W (y\<lparr>y_store := (y_store y)(w_seq W c := v), y_cons := (y_cons y)(c := pc),
    y_seen := (y_seen y)(c := xs)\<rparr>)" (is "sys_inv W ?z")
proof -
  note I = sys_inv_D[OF assms(1)]
  note S = static_D[OF I(1)]
  have grows: "y_store y s \<le> y_store ?z s" for s using assms(3) by simp
  have cur: "y_store ?z (cursor (y_sq y)) = y_cursor y" and
    cache: "y_store ?z (gatingSequenceCache (y_sq y)) = y_store y (gatingSequenceCache (y_sq y))"
    using S(8)[OF c] S(9)[OF c] by simp_all
  have at: "y_at W ?z b = (if b = c then v else y_at W y b)" if "b < w_consumers W" for b
    using S(10)[OF that c] by simp
  have "claims_ok W ?z"
  proof -
    have "producer_ok (gates (y_sq y)) (y_size y) (y_store ?z) (y_prod y i)" for i
      by (rule producer_ok_mono[of _ _ "y_store y"]) (use I(2) grows in \<open>auto simp: claims_ok_def\<close>)
    then show ?thesis using I(2) cur by (simp add: claims_ok_def)
  qed
  moreover have "cleared_ok W ?z"
  proof -
    have "mp_cache_ok (y_store ?z) (y_sq y)"
      unfolding mp_cache_ok_def cache
    proof
      fix g assume "g \<in> gates (y_sq y)"
      then have "y_store y (gatingSequenceCache (y_sq y)) \<le> y_store y g"
        using I(3) by (simp add: cleared_ok_def mp_cache_ok_def)
      then show "y_store y (gatingSequenceCache (y_sq y)) \<le> y_store ?z g"
        using grows[of g] by linarith
    qed
    moreover have "q \<le> y_at W ?z b + y_size y" if "b < w_consumers W"
      and "q \<in> y_pub y \<union> y_lost y \<union> (\<Union>i. cleared (y_prod y i))" for b q
    proof -
      have "q \<le> y_at W y b + y_size y" using I(3) that unfolding cleared_ok_def by blast
      then show ?thesis using grows[of "w_seq W b"] by linarith
    qed
    ultimately show ?thesis by (simp add: cleared_ok_def)
  qed
  moreover have "consumers_ok W ?z"
    unfolding consumers_ok_def
  proof (intro allI impI)
    fix b assume b: "b < w_consumers W"
    show "- 1 \<le> y_at W ?z b \<and> {0..y_at W ?z b} \<subseteq> y_pub ?z \<and>
      consumer_ok (y_at W ?z b) (deps_of W (y_sq ?z) b) (y_store ?z) (y_pub ?z) (y_cons ?z b) \<and>
      (\<forall>d\<in>deps_of W (y_sq ?z) b. y_at W ?z b \<le> y_store ?z d)"
    proof (cases "b = c")
      case False
      show ?thesis
        by (rule consumers_mono[OF I(4) b]) (use at[OF b] False grows in \<open>simp_all del: fun_upd_apply\<close>, simp)
    next
      case True
      have "- 1 \<le> y_at W y c" "{0..y_at W y c} \<subseteq> y_pub y" using I(4) c by (auto simp: consumers_ok_def)
      then have "- 1 \<le> v" "{0..v} \<subseteq> y_pub y" using assms(3,4) by force+
      moreover have "\<forall>d\<in>deps_of W (y_sq y) c. v \<le> y_store ?z d"
        using assms(5) grows by (meson order_trans)
      ultimately show ?thesis using True at[OF c] assms(6) by simp
    qed
  qed
  moreover have "delivery_ok W ?z"
    by (rule delivery_mono[OF I(7)])
      (use at assms(3,6,7) delivery_seen[OF I(7)] in \<open>auto simp del: fun_upd_apply simp: fun_upd_def\<close>)
  moreover have "static_ok W ?z = static_ok W y" "flags_ok ?z = flags_ok y" "events_ok ?z = events_ok y"
    by (simp_all add: static_ok_def flags_ok_def events_ok_def)
  ultimately show ?thesis using I unfolding sys_inv_def by blast
qed

text \<open>The fetch-and-add hands out sequences that no one has.\<close>

abbreviation y_claim :: "nat \<Rightarrow> int \<Rightarrow> 'e system \<Rightarrow> 'e system" where
  "y_claim i n y \<equiv> y\<lparr>y_store := (y_store y)(cursor (y_sq y) := y_cursor y + n),
     y_prod := (y_prod y)(i := PClaimed (y_cursor y) n)\<rparr>"

lemma claims_D:
  assumes "claims_ok W y"
  shows "y_pub y \<union> y_lost y \<union> (\<Union>j. pending (y_prod y j)) = {0..y_cursor y}" and "- 1 \<le> y_cursor y"
    and "producer_ok (gates (y_sq y)) (y_size y) (y_store y) (y_prod y j)"
    and "j \<noteq> k \<Longrightarrow> pending (y_prod y j) \<inter> pending (y_prod y k) = {}"
    and "pending (y_prod y j) \<inter> (y_pub y \<union> y_lost y) = {}" and "y_pub y \<inter> y_lost y = {}"
    and "pending (y_prod y j) \<subseteq> {0..y_cursor y}"
    and "w_producers W \<le> j \<Longrightarrow> y_prod y j = PIdle"
proof -
  show tiles: "y_pub y \<union> y_lost y \<union> (\<Union>j. pending (y_prod y j)) = {0..y_cursor y}"
    using assms by (simp add: claims_ok_def)
  show "pending (y_prod y j) \<subseteq> {0..y_cursor y}" using tiles by blast
qed (use assms in \<open>simp_all add: claims_ok_def\<close>)

lemma claim_claims:
  assumes "claims_ok W y" and "i < w_producers W" and "y_prod y i = PIdle" and "1 \<le> n" and "n \<le> y_size y"
  shows "claims_ok W (y_claim i n y)" (is "claims_ok W ?z")
proof -
  note C = claims_D[OF assms(1)]
  define new where "new = {y_cursor y + 1..y_cursor y + n}"
  have fresh: "new \<inter> {0..y_cursor y} = {}" by (auto simp: new_def)
  have pend: "pending (y_prod ?z j) = (if j = i then new else pending (y_prod y j))" for j
    by (simp add: new_def)
  have none: "pending (y_prod y i) = {}" using assms(3) by simp
  show ?thesis
    unfolding claims_ok_def
  proof (intro conjI allI impI)
    show "y_prod ?z j = PIdle" if "w_producers W \<le> j" for j
      using that assms(2) C(8) by simp
    show "producer_ok (gates (y_sq ?z)) (y_size ?z) (y_store ?z) (y_prod ?z j)" for j
    proof -
      have "producer_ok (gates (y_sq y)) (y_size y) (y_store ?z) (y_prod y j)"
        by (rule producer_ok_mono[OF C(3)]) (use assms(4) in auto)
      then show ?thesis using assms(5) by simp
    qed
    show "pending (y_prod ?z j) \<inter> pending (y_prod ?z k) = {}" if "j \<noteq> k" for j k
      unfolding pend using that C(4)[OF that] C(7)[of j] C(7)[of k] fresh by auto
    show "pending (y_prod ?z j) \<inter> (y_pub ?z \<union> y_lost ?z) = {}" for j
      unfolding pend using C(1) C(5)[of j] fresh by auto
    show "y_pub ?z \<inter> y_lost ?z = {}" using C(6) by simp
    have "(\<Union>j. pending (y_prod ?z j)) = new \<union> (\<Union>j. pending (y_prod y j))"
      unfolding pend using none by auto
    then have "y_pub ?z \<union> y_lost ?z \<union> (\<Union>j. pending (y_prod ?z j)) = {0..y_cursor y} \<union> new"
      using C(1) by auto
    also have "\<dots> = {0..y_cursor ?z}" using C(2) assms(4) by (auto simp: new_def)
    finally show "{0..y_cursor ?z} = y_pub ?z \<union> y_lost ?z \<union> (\<Union>j. pending (y_prod ?z j))" by simp
    show "- 1 \<le> y_cursor ?z" using C(2) assms(4) by simp
  qed
qed

text \<open>What the record of sent events asks of a new state whose producers differ.\<close>

lemma events_D:
  assumes "events_ok y"
  shows "y_sent y q \<noteq> None \<Longrightarrow> q \<in> y_pub y \<union> y_lost y \<union> (\<Union>j. cleared (y_prod y j))"
    and "y_sent y q \<noteq> None \<Longrightarrow> q \<notin> unwritten (y_prod y j)"
    and "q \<in> y_pub y \<Longrightarrow> y_sent y q \<noteq> None"
    and "q \<in> cleared (y_prod y j) \<Longrightarrow> q \<notin> unwritten (y_prod y j) \<Longrightarrow> y_sent y q \<noteq> None"
  using assms unfolding events_ok_def by blast+

lemma claim_events:
  assumes "claims_ok W y" and "events_ok y" and "y_prod y i = PIdle"
  shows "events_ok (y_claim i n y)" (is "events_ok ?z")
proof -
  note E = events_D[OF assms(2)]
  have cl: "cleared (y_prod ?z j) = cleared (y_prod y j)" for j using assms(3) by simp
  have "q \<notin> unwritten (y_prod ?z j)" if "y_sent y q \<noteq> None" for q j
  proof -
    have "q \<in> {0..y_cursor y}"
      using E(1)[OF that] claims_D(1)[OF assms(1)] cleared_pending by blast
    then show ?thesis using E(2)[OF that] by simp
  qed
  moreover have "y_sent y q \<noteq> None" if "q \<in> cleared (y_prod ?z j)" "q \<notin> unwritten (y_prod ?z j)" for q j
    using E(4)[of q j] that assms(3) by (simp split: if_splits)
  ultimately show ?thesis using E(1,3) unfolding events_ok_def cl by (simp, blast)
qed

lemma claim_inv:
  assumes "sys_inv W y" and "i < w_producers W" and "y_prod y i = PIdle" and n: "1 \<le> n" "n \<le> y_size y"
  shows "sys_inv W (y_claim i n y)" (is "sys_inv W ?z")
proof -
  note I = sys_inv_D[OF assms(1)]
  note S = static_D[OF I(1)]
  have neq: "gatingSequenceCache (y_sq y) \<noteq> cursor (y_sq y)" using S(1) by (auto simp: mp_wf_def)
  have at: "y_at W ?z b = y_at W y b" if "b < w_consumers W" for b using S(8)[OF that] by simp
  have gate: "y_store ?z g = y_store y g" if "g \<in> gates (y_sq y)" for g
  proof -
    have "g \<noteq> cursor (y_sq y)" using gates_cases[OF I(1) that] S(8) by metis
    then show ?thesis by simp
  qed
  have grows: "y_store y s \<le> y_store ?z s" for s using n by simp
  have "cleared_ok W ?z"
  proof -
    have "cleared (y_prod ?z j) = cleared (y_prod y j)" for j using assms(3) by simp
    then show ?thesis using I(3) at gate neq by (auto simp: cleared_ok_def mp_cache_ok_def)
  qed
  moreover have "consumers_ok W ?z"
    unfolding consumers_ok_def using consumers_mono[OF I(4) _ at] grows by simp
  moreover have "delivery_ok W ?z"
    by (rule delivery_mono[OF I(7)]) (use at delivery_seen[OF I(7)] in \<open>simp_all del: fun_upd_apply\<close>)
  moreover have "static_ok W ?z = static_ok W y" "flags_ok ?z = flags_ok y"
    by (simp_all add: static_ok_def flags_ok_def)
  ultimately show ?thesis
    using I claim_claims[OF I(2) assms(2-5)] claim_events[OF I(2,6) assms(3)] unfolding sys_inv_def by blast
qed

text \<open>Two sequences that some consumer has not passed and that were both cleared by the gating
  sequences lie in different slots.\<close>

lemma unique_slot:
  assumes "sys_inv W y" and "p \<in> cleared (y_prod y i)" and "c < w_consumers W" and "y_at W y c < q"
    and "q \<in> y_pub y \<union> y_lost y \<union> (\<Union>j. cleared (y_prod y j))" and "q mod y_size y = p mod y_size y"
  shows "q = p"
proof -
  note I = sys_inv_D[OF assms(1)]
  have "p \<in> y_lost y \<union> pending (y_prod y i)" using assms(2) cleared_pending by blast
  then have "y_at W y c < p" using pending_above(1)[OF I(2,4) _ assms(3)] by blast
  moreover have "p \<le> y_at W y c + y_size y" "q \<le> y_at W y c + y_size y"
    using I(3) assms(2,3,5) unfolding cleared_ok_def by blast+
  ultimately show ?thesis using same_slot_eq[OF assms(6)] assms(4) by linarith
qed

lemma reads_published:
  assumes "consumers_ok W y" and "c < w_consumers W"
  shows "{0..reads_from (y_at W y c) (y_cons y c) - 1} \<subseteq> y_pub y"
proof -
  have "{0..y_at W y c} \<subseteq> y_pub y"
    and "consumer_ok (y_at W y c) (deps_of W (y_sq y) c) (y_store y) (y_pub y) (y_cons y c)"
    using assms by (auto simp: consumers_ok_def)
  then show ?thesis
  proof (cases "y_cons y c")
    case (CReading q a)
    have "{y_at W y c + 1..a} \<subseteq> y_pub y" and "q \<le> a + 1"
      using CReading \<open>consumer_ok _ _ _ _ _\<close> by auto
    moreover have "{0..q - 1} \<subseteq> {0..y_at W y c} \<union> {y_at W y c + 1..a}" using \<open>q \<le> a + 1\<close> by auto
    ultimately show ?thesis using CReading \<open>{0..y_at W y c} \<subseteq> y_pub y\<close> by auto
  qed auto
qed

abbreviation y_fill :: "nat \<Rightarrow> int \<Rightarrow> int \<Rightarrow> int \<Rightarrow> 'e \<Rightarrow> 'e system \<Rightarrow> 'e system" where
  "y_fill i lo hi k ev y \<equiv> y\<lparr>y_ring := rb_put k ev (y_ring y),
     y_prod := (y_prod y)(i := PWriting lo hi (k + 1)), y_sent := (y_sent y)(k \<mapsto> ev)\<rparr>"

lemma delivery_okI:
  assumes "\<And>q e c. y_sent z q = Some e \<Longrightarrow> c < w_consumers W \<Longrightarrow> y_at W z c < q \<Longrightarrow> rb_get (y_ring z) q = e"
    and "\<And>c. c < w_consumers W \<Longrightarrow>
      y_seen z c = map (\<lambda>q. the (y_sent z q)) [0..reads_from (y_at W z c) (y_cons z c) - 1]"
  shows "delivery_ok W z"
  unfolding delivery_ok_def using assms by blast

lemma fill_delivery:
  assumes "sys_inv W y" and "y_prod y i = PWriting lo hi k" and "lo \<le> k" and "k \<le> hi"
  shows "delivery_ok W (y_fill i lo hi k ev y)" (is "delivery_ok W ?z")
proof (rule delivery_okI)
  note I = sys_inv_D[OF assms(1)]
  note S = static_D[OF I(1)]
  have k: "k \<in> cleared (y_prod y i)" using assms(2-4) by simp
  fix q e c
  assume sent: "y_sent ?z q = Some e" and c: "c < w_consumers W" and "y_at W ?z c < q"
  then have behind: "y_at W y c < q" by simp
  show "rb_get (y_ring ?z) q = e"
  proof (cases "q = k")
    case True
    then show ?thesis using sent rb_get_put[OF S(2)] by simp
  next
    case False
    then have q: "y_sent y q = Some e" using sent by simp
    then have "q \<in> y_pub y \<union> y_lost y \<union> (\<Union>j. cleared (y_prod y j))" using events_D(1)[OF I(6)] by simp
    then have "rb_slot (y_ring y) q \<noteq> rb_slot (y_ring y) k"
      using unique_slot[OF assms(1) k c behind] False rb_slot_eq_iff[OF S(2)] S(4) by metis
    then have "rb_get (y_ring ?z) q = rb_get (y_ring y) q" using rb_get_put[OF S(2)] by simp
    also have "\<dots> = e" using q c behind I(7) unfolding delivery_ok_def by blast
    finally show ?thesis .
  qed
next
  note I = sys_inv_D[OF assms(1)]
  fix c assume c: "c < w_consumers W"
  have "k \<in> pending (y_prod y i)" using assms(2-4) by simp
  then have "k \<notin> y_pub y" using claims_D(5)[OF I(2), of i] by blast
  then have "k \<notin> {0..reads_from (y_at W y c) (y_cons y c) - 1}"
    using reads_published[OF I(4) c] by blast
  then have "y_seen y c = map (\<lambda>q. the (y_sent ?z q)) [0..reads_from (y_at W y c) (y_cons y c) - 1]"
    unfolding delivery_seen[OF I(7) c] by (intro map_cong) auto
  then show "y_seen ?z c = map (\<lambda>q. the (y_sent ?z q)) [0..reads_from (y_at W ?z c) (y_cons ?z c) - 1]"
    by simp
qed

lemma fill_inv:
  assumes "sys_inv W y" and "i < w_producers W" and pc: "y_prod y i = PWriting lo hi k" and "k \<le> hi"
  shows "sys_inv W (y_fill i lo hi k ev y)" (is "sys_inv W ?z")
proof -
  note I = sys_inv_D[OF assms(1)]
  have lo: "lo \<le> k" using claims_D(3)[OF I(2), of i] pc by simp
  have pend: "pending (y_prod ?z j) = pending (y_prod y j)" for j using pc by simp
  have cl: "cleared (y_prod ?z j) = cleared (y_prod y j)" for j using pc by simp
  have un: "unwritten (y_prod ?z j) = unwritten (y_prod y j) - (if j = i then {k} else {})" for j
    using pc by auto
  have "claims_ok W ?z"
    unfolding claims_ok_def pend using I(2) assms(2) lo by (simp add: claims_ok_def)
  moreover have "cleared_ok W ?z = cleared_ok W y" "flags_ok ?z = flags_ok y"
      "static_ok W ?z = static_ok W y" "consumers_ok W ?z = consumers_ok W y"
    unfolding cleared_ok_def cl by (simp_all add: flags_ok_def static_ok_def consumers_ok_def)
  moreover have "events_ok ?z"
  proof -
    note E = events_D[OF I(6)]
    have k: "k \<in> cleared (y_prod y i)" using pc lo assms(4) by simp
    have other: "k \<notin> unwritten (y_prod y j)" if "j \<noteq> i" for j
    proof -
      have "k \<in> pending (y_prod y i)" using k cleared_pending by blast
      then have "k \<notin> pending (y_prod y j)" using claims_D(4)[OF I(2) that] by blast
      then show ?thesis using unwritten_pending[OF claims_D(3)[OF I(2)]] by blast
    qed
    show ?thesis
      unfolding events_ok_def cl un
    proof (intro conjI allI impI ballI)
      fix q j assume q: "y_sent ?z q \<noteq> None"
      show "q \<in> y_pub ?z \<union> y_lost ?z \<union> (\<Union>j. cleared (y_prod y j))"
        using q k E(1)[of q] by (cases "q = k") auto
      show "q \<notin> unwritten (y_prod y j) - (if j = i then {k} else {})"
        using q other[of j] E(2)[of q j] by (cases "q = k") auto
    next
      fix q assume "q \<in> y_pub ?z \<union> (\<Union>j. cleared (y_prod y j) - (unwritten (y_prod y j) - (if j = i then {k} else {})))"
      then have "q = k \<or> q \<in> y_pub y \<or> (\<exists>j. q \<in> cleared (y_prod y j) \<and> q \<notin> unwritten (y_prod y j))"
        by (auto split: if_splits)
      then show "y_sent ?z q \<noteq> None" using E(3,4)[of q] by auto
    qed
  qed
  ultimately show ?thesis
    using I fill_delivery[OF assms(1) pc lo assms(4)] unfolding sys_inv_def by blast
qed

lemma throw_inv:
  assumes "sys_inv W y" and "i < w_producers W" and pc: "y_prod y i = PWriting lo hi k"
  shows "sys_inv W (y\<lparr>y_prod := (y_prod y)(i := PIdle), y_lost := y_lost y \<union> {lo..hi}\<rparr>)"
    (is "sys_inv W ?z")
proof -
  note I = sys_inv_D[OF assms(1)]
  note C = claims_D[OF I(2)]
  have mine: "pending (y_prod y i) = {lo..hi}" "cleared (y_prod y i) = {lo..hi}" using pc by simp_all
  have pend: "pending (y_prod ?z j) = (if j = i then {} else pending (y_prod y j))" for j by simp
  have cl: "cleared (y_prod ?z j) = (if j = i then {} else cleared (y_prod y j))" for j by simp
  have "claims_ok W ?z"
    unfolding claims_ok_def
  proof (intro conjI allI impI)
    show "y_prod ?z j = PIdle" if "w_producers W \<le> j" for j using that C(8) by simp
    show "producer_ok (gates (y_sq ?z)) (y_size ?z) (y_store ?z) (y_prod ?z j)" for j using C(3) by simp
    show "pending (y_prod ?z j) \<inter> pending (y_prod ?z l) = {}" if "j \<noteq> l" for j l
      unfolding pend using C(4)[OF that] by simp
    show "pending (y_prod ?z j) \<inter> (y_pub ?z \<union> y_lost ?z) = {}" for j
      unfolding pend using C(5)[of j] C(4)[of j i] mine(1) by auto
    show "y_pub ?z \<inter> y_lost ?z = {}" using C(6) C(5)[of i] mine(1) by auto
    have "(\<Union>j. pending (y_prod y j)) = (\<Union>j. pending (y_prod ?z j)) \<union> {lo..hi}"
      unfolding pend using mine(1) by auto
    then show "{0..y_cursor ?z} = y_pub ?z \<union> y_lost ?z \<union> (\<Union>j. pending (y_prod ?z j))" using C(1) by auto
    show "- 1 \<le> y_cursor ?z" using C(2) by simp
  qed
  moreover have keep: "y_pub ?z \<union> y_lost ?z \<union> (\<Union>j. cleared (y_prod ?z j)) =
      y_pub y \<union> y_lost y \<union> (\<Union>j. cleared (y_prod y j))"
    unfolding cl using mine(2) by auto
  have "cleared_ok W ?z"
    using I(3) unfolding cleared_ok_def keep by simp
  moreover have "events_ok ?z"
    unfolding events_ok_def keep
  proof (intro conjI allI impI ballI)
    note E = events_D[OF I(6)]
    fix q j assume q: "y_sent ?z q \<noteq> None"
    then show "q \<in> y_pub y \<union> y_lost y \<union> (\<Union>j. cleared (y_prod y j))" using E(1)[of q] by simp
    show "q \<notin> unwritten (y_prod ?z j)" using E(2)[of q j] q by simp
  next
    note E = events_D[OF I(6)]
    fix q assume "q \<in> y_pub ?z \<union> (\<Union>j. cleared (y_prod ?z j) - unwritten (y_prod ?z j))"
    then have "q \<in> y_pub y \<or> (\<exists>j. q \<in> cleared (y_prod y j) \<and> q \<notin> unwritten (y_prod y j))"
      by (auto split: if_splits)
    then show "y_sent ?z q \<noteq> None" using E(3,4)[of q] by auto
  qed
  moreover have "static_ok W ?z = static_ok W y" "flags_ok ?z = flags_ok y"
      "consumers_ok W ?z = consumers_ok W y" "delivery_ok W ?z = delivery_ok W y"
    by (simp_all add: static_ok_def flags_ok_def consumers_ok_def delivery_ok_def)
  ultimately show ?thesis using I unfolding sys_inv_def by blast
qed

abbreviation y_publish :: "nat \<Rightarrow> int \<Rightarrow> int \<Rightarrow> 'e system \<Rightarrow> 'e system" where
  "y_publish i k hi y \<equiv> y\<lparr>y_ring := (y_ring y)\<lparr>rb_sequencer := setAvailable k (y_sq y)\<rparr>,
     y_prod := (y_prod y)(i := PPublishing (k + 1) hi), y_pub := insert k (y_pub y)\<rparr>"

lemma publish_flags:
  assumes "sys_inv W y" and pc: "y_prod y i = PPublishing k hi" and "k \<le> hi"
  shows "flags_ok (y_publish i k hi y)" (is "flags_ok ?z")
  unfolding flags_ok_def
proof (intro allI impI)
  note I = sys_inv_D[OF assms(1)]
  note S = static_D[OF I(1)]
  fix j assume "0 \<le> j \<and> j < y_size ?z"
  then have j: "0 \<le> j" "j < y_size y" by simp_all
  have k: "k \<in> cleared (y_prod y i)" using pc assms(3) by simp
  have flags: "availableBuffer (y_sq ?z) =
      (availableBuffer (y_sq y))[nat (k mod y_size y) := wrap32 (k div y_size y)]"
    using availableBuffer_setAvailable[OF S(1)] by simp
  have len: "nat (k mod y_size y) < length (availableBuffer (y_sq y))"
    using S(1,3) pos_mod_bound[OF S(3), of k] pos_mod_sign[OF S(3), of k] by (simp add: mp_wf_def nat_less_iff)
  have "slot_flag_ok (availableBuffer (y_sq ?z)) (y_size y) (insert k (y_pub y)) j"
  proof (cases "k mod y_size y = j")
    case True
    obtain c where c: "c < w_consumers W" using S(5) by blast
    have above: "y_at W y c < k" and "0 \<le> k"
      using pending_above[OF I(2,4) _ c, of k i] pc assms(3) by simp_all
    have "q \<le> k" if "q \<in> y_pub y" "q mod y_size y = j" for q
    proof (rule ccontr)
      assume "\<not> q \<le> k"
      then have "q = k" using unique_slot[OF assms(1) k c, of q] above that True by simp
      then show False using \<open>\<not> q \<le> k\<close> by simp
    qed
    then show ?thesis
      unfolding slot_flag_ok_def using True \<open>0 \<le> k\<close> S(3) flags len by (intro exI[of _ k]) auto
  next
    case False
    have "nat (k mod y_size y) \<noteq> nat j" using False j pos_mod_sign[OF S(3), of k] by (simp add: eq_nat_nat_iff)
    then have same: "availableBuffer (y_sq ?z) ! nat j = availableBuffer (y_sq y) ! nat j"
      unfolding flags by simp
    have "slot_flag_ok (availableBuffer (y_sq y)) (y_size y) (y_pub y) j"
      using I(5) j by (simp add: flags_ok_def)
    then show ?thesis unfolding slot_flag_ok_def same using False by auto
  qed
  then show "slot_flag_ok (availableBuffer (y_sq ?z)) (y_size ?z) (y_pub ?z) j" by simp
qed

lemma publish_claims:
  assumes "claims_ok W y" and "i < w_producers W" and pc: "y_prod y i = PPublishing k hi" and "k \<le> hi"
  shows "claims_ok W (y_publish i k hi y)" (is "claims_ok W ?z")
proof -
  note C = claims_D[OF assms(1)]
  have mine: "pending (y_prod y i) = insert k {k + 1..hi}" using pc assms(4) by auto
  have pend: "pending (y_prod ?z j) = (if j = i then {k + 1..hi} else pending (y_prod y j))" for j by simp
  have sub: "pending (y_prod ?z j) \<subseteq> pending (y_prod y j)" for j using pend mine by auto
  show ?thesis
    unfolding claims_ok_def
  proof (intro conjI allI impI)
    show "y_prod ?z j = PIdle" if "w_producers W \<le> j" for j using that C(8) assms(2) by simp
    show "producer_ok (gates (y_sq ?z)) (y_size ?z) (y_store ?z) (y_prod ?z j)" for j using C(3)[of j] by simp
    show "pending (y_prod ?z j) \<inter> pending (y_prod ?z l) = {}" if "j \<noteq> l" for j l
      using sub C(4)[OF that] by blast
    show "pending (y_prod ?z j) \<inter> (y_pub ?z \<union> y_lost ?z) = {}" for j
      unfolding pend using C(5)[of j] C(4)[of j i] mine C(5)[of i] by auto
    show "y_pub ?z \<inter> y_lost ?z = {}" using C(6) C(5)[of i] mine by auto
    have "(\<Union>j. pending (y_prod y j)) = insert k (\<Union>j. pending (y_prod ?z j))"
      unfolding pend using mine by (auto split: if_splits)
    then have "y_pub ?z \<union> y_lost ?z \<union> (\<Union>j. pending (y_prod ?z j)) = {0..y_cursor y}" using C(1) by auto
    then show "{0..y_cursor ?z} = y_pub ?z \<union> y_lost ?z \<union> (\<Union>j. pending (y_prod ?z j))" by simp
    show "- 1 \<le> y_cursor ?z" using C(2) by simp
  qed
qed

lemma publish_inv:
  assumes "sys_inv W y" and "i < w_producers W" and pc: "y_prod y i = PPublishing k hi" and "k \<le> hi"
  shows "sys_inv W (y_publish i k hi y)" (is "sys_inv W ?z")
proof -
  note I = sys_inv_D[OF assms(1)]
  note S = static_D[OF I(1)]
  have k: "k \<in> cleared (y_prod y i)" using pc assms(4) by simp
  have cl: "cleared (y_prod ?z j) \<subseteq> cleared (y_prod y j)" for j using pc by auto
  have mine: "cleared (y_prod y i) \<subseteq> insert k (cleared (y_prod ?z i))" using pc by auto
  have "rb_ok mp_ops (y_ring ?z)"
    using rb_ok_sequencer_update[of mp_ops "setAvailable k (y_sq y)" "y_ring y"] S(2)
    by (simp add: mp_ops_def getBufferSize_def)
  then have "static_ok W ?z" using I(1) unfolding static_ok_def wiring_ok_def by simp
  moreover have "cleared_ok W ?z"
  proof -
    have "y_pub ?z \<union> y_lost ?z \<union> (\<Union>j. cleared (y_prod ?z j)) \<subseteq> y_pub y \<union> y_lost y \<union> (\<Union>j. cleared (y_prod y j))"
      using cl k by auto
    note sub = this
    have "q \<le> y_at W y c + y_size y" if "c < w_consumers W"
      "q \<in> y_pub ?z \<union> y_lost ?z \<union> (\<Union>j. cleared (y_prod ?z j))" for c q
      using I(3) subsetD[OF sub that(2)] that(1) unfolding cleared_ok_def by blast
    moreover have "mp_cache_ok (y_store ?z) (y_sq ?z)"
      using I(3) by (simp add: cleared_ok_def mp_cache_ok_def)
    ultimately show ?thesis unfolding cleared_ok_def by simp
  qed
  moreover have "consumers_ok W ?z"
    unfolding consumers_ok_def
  proof (intro allI impI)
    fix c assume c: "c < w_consumers W"
    have "consumer_ok (y_at W y c) (deps_of W (y_sq y) c) (y_store y) (insert k (y_pub y)) (y_cons y c)"
      by (rule consumer_ok_mono[of _ _ _ "y_pub y"]) (use I(4) c in \<open>auto simp: consumers_ok_def\<close>)
    then show "- 1 \<le> y_at W ?z c \<and> {0..y_at W ?z c} \<subseteq> y_pub ?z \<and>
        consumer_ok (y_at W ?z c) (deps_of W (y_sq ?z) c) (y_store ?z) (y_pub ?z) (y_cons ?z c) \<and>
        (\<forall>d\<in>deps_of W (y_sq ?z) c. y_at W ?z c \<le> y_store ?z d)"
      using I(4) c by (auto simp: consumers_ok_def deps_of_def)
  qed
  moreover have "events_ok ?z"
    unfolding events_ok_def
  proof (intro conjI allI impI ballI)
    note E = events_D[OF I(6)]
    fix q j assume q: "y_sent ?z q \<noteq> None"
    then have "q \<in> y_pub y \<union> y_lost y \<union> (\<Union>j. cleared (y_prod y j))" using E(1)[of q] by simp
    moreover have "cleared (y_prod y j) \<subseteq> insert k (cleared (y_prod ?z j))" for j
      using pc by (cases "j = i") auto
    moreover have "y_pub ?z = insert k (y_pub y)" "y_lost ?z = y_lost y" by simp_all
    ultimately show "q \<in> y_pub ?z \<union> y_lost ?z \<union> (\<Union>j. cleared (y_prod ?z j))" by blast
    show "q \<notin> unwritten (y_prod ?z j)" using E(2)[of q j] q by simp
  next
    note E = events_D[OF I(6)]
    fix q assume "q \<in> y_pub ?z \<union> (\<Union>j. cleared (y_prod ?z j) - unwritten (y_prod ?z j))"
    then consider "q = k" | "q \<in> y_pub y" | j where "q \<in> cleared (y_prod y j)" "q \<notin> unwritten (y_prod ?z j)"
      using cl by auto
    then have "q \<in> y_pub y \<or> (\<exists>j. q \<in> cleared (y_prod y j) \<and> q \<notin> unwritten (y_prod y j))"
    proof cases
      case 1
      then show ?thesis using k pc by (intro disjI2 exI[of _ i]) simp
    next
      case 3
      then show ?thesis using pc by (intro disjI2 exI[of _ j]) (simp split: if_splits)
    qed simp
    then show "y_sent ?z q \<noteq> None" using E(3,4)[of q] by auto
  qed
  moreover have "delivery_ok W ?z = delivery_ok W y" by (simp add: delivery_ok_def)
  ultimately show ?thesis
    using I publish_flags[OF assms(1) pc assms(4)] publish_claims[OF I(2) assms(2) pc assms(4)]
    unfolding sys_inv_def by blast
qed

lemma slot_value:
  assumes "sys_inv W y" and "c < w_consumers W" and "y_cons y c = CReading q a" and "q \<le> a"
  shows "rb_get (y_ring y) q = the (y_sent y q)" and "y_at W y c < q" and "q \<in> y_pub y"
proof -
  note I = sys_inv_D[OF assms(1)]
  have "consumer_ok (y_at W y c) (deps_of W (y_sq y) c) (y_store y) (y_pub y) (CReading q a)"
    using I(4) assms(2,3) unfolding consumers_ok_def by metis
  then show below: "y_at W y c < q" and pub: "q \<in> y_pub y" using assms(4) by auto
  obtain e where e: "y_sent y q = Some e" using events_D(3)[OF I(6) pub] by blast
  then have "rb_get (y_ring y) q = e" using I(7) assms(2) below unfolding delivery_ok_def by blast
  then show "rb_get (y_ring y) q = the (y_sent y q)" using e by simp
qed

lemma upto_snoc: "0 \<le> q \<Longrightarrow> [0..q] = [0..q - 1] @ [q]" for q :: int
  using upto_rec2 by simp

lemma seen_snoc:
  assumes "sys_inv W y" and "c < w_consumers W" and "y_cons y c = CReading q a" and "q \<le> a"
  shows "y_seen y c @ [rb_get (y_ring y) q] = map (\<lambda>q. the (y_sent y q)) [0..q]"
proof -
  note I = sys_inv_D[OF assms(1)]
  have "- 1 \<le> y_at W y c" using I(4) assms(2) unfolding consumers_ok_def by blast
  then have "0 \<le> q" using slot_value(2)[OF assms] by linarith
  then show ?thesis
    using delivery_seen[OF I(7) assms(2)] slot_value(1)[OF assms] upto_snoc[of q] assms(3) by simp
qed

lemma deliver_inv:
  assumes "sys_inv W y" and c: "c < w_consumers W" and pc: "y_cons y c = CReading q a" and "q \<le> a"
  shows "sys_inv W (y\<lparr>y_cons := (y_cons y)(c := CReading (q + 1) a),
      y_seen := (y_seen y)(c := y_seen y c @ [rb_get (y_ring y) q])\<rparr>)" (is "sys_inv W ?z")
proof -
  note I = sys_inv_D[OF assms(1)]
  have "static_ok W ?z = static_ok W y" "claims_ok W ?z = claims_ok W y" "cleared_ok W ?z = cleared_ok W y"
      "flags_ok ?z = flags_ok y" "events_ok ?z = events_ok y"
    by (simp_all add: static_ok_def claims_ok_def cleared_ok_def flags_ok_def events_ok_def)
  moreover have "consumers_ok W ?z"
  proof -
    have "consumer_ok (y_at W y c) (deps_of W (y_sq y) c) (y_store y) (y_pub y) (CReading q a)"
      using I(4) c pc unfolding consumers_ok_def by metis
    then have "consumer_ok (y_at W y c) (deps_of W (y_sq y) c) (y_store y) (y_pub y) (CReading (q + 1) a)"
      using assms(4) by simp
    then show ?thesis using I(4) unfolding consumers_ok_def by simp
  qed
  moreover have "delivery_ok W ?z"
    by (rule delivery_mono[OF I(7)])
      (use seen_snoc[OF assms(1) c pc assms(4)] delivery_seen[OF I(7)] in auto)
  ultimately show ?thesis using I unfolding sys_inv_def by blast
qed

text \<open>Every step of a producer keeps the invariant.\<close>

lemma enter_writing:
  assumes "sys_inv W y" and "i < w_producers W" and "pending (y_prod y i) = {current + 1..current + n}"
    and "cleared (y_prod y i) = {}" and "unwritten (y_prod y i) = pending (y_prod y i)"
    and "\<forall>c<w_consumers W. current + n - y_size y \<le> y_at W y c"
  shows "sys_inv W (y\<lparr>y_prod := (y_prod y)(i := PWriting (current + 1) (current + n) (current + 1))\<rparr>)"
proof (rule producer_pc_inv[OF assms(1,2)])
  show "\<forall>c<w_consumers W. \<forall>q\<in>cleared (PWriting (current + 1) (current + n) (current + 1)).
      q \<le> y_at W y c + y_size y"
    using assms(6) by fastforce
qed (use assms in simp_all)

lemma enter_scanning:
  assumes "sys_inv W y" and "i < w_producers W" and "pending (y_prod y i) = {current + 1..current + n}"
    and "cleared (y_prod y i) = {}" and "unwritten (y_prod y i) = pending (y_prod y i)" and "n \<le> y_size y"
    and "\<forall>g\<in>gates (y_sq y) - ptrs xs. m \<le> y_store y g"
  shows "sys_inv W (y\<lparr>y_prod := (y_prod y)(i := PScanning current n xs m)\<rparr>)"
  by (rule producer_pc_inv[OF assms(1,2)]) (use assms(3-7) in simp_all)

lemma restart_scan:
  assumes "sys_inv W y" and "i < w_producers W" and "pending (y_prod y i) = {current + 1..current + n}"
    and "cleared (y_prod y i) = {}" and "unwritten (y_prod y i) = pending (y_prod y i)" and "n \<le> y_size y"
    and "mp_gating_vector (y_sq y) = (Some xs, s)"
  shows "sys_inv W (y\<lparr>y_ring := (y_ring y)\<lparr>rb_sequencer := s\<rparr>,
      y_prod := (y_prod y)(i := PScanning current n xs current)\<rparr>)"
proof -
  note V = gating_vector_inv[OF assms(1,7)]
  show ?thesis
    using enter_scanning[OF V(1) assms(2), of current n xs current] assms(3-6) V(2-4) by simp
qed

lemma producer_step_inv:
  assumes "sys_inv W y" and i: "i < w_producers W" and "producer_step i y z"
  shows "sys_inv W z"
  using assms(3)
proof cases
  note I = sys_inv_D[OF assms(1)]
  note P = claims_D(3)[OF I(2), of i]
  {
    case (claim n current \<sigma>)
    then have "current = y_cursor y" and "\<sigma> = (y_store y)(cursor (y_sq y) := y_cursor y + n)"
      by (auto simp: seq_getAndAdd_def)
    then show ?thesis using claim_inv[OF assms(1) i claim(2-4)] claim(1) by simp
  next
    case (fast current n cached)
    have "\<forall>g\<in>gates (y_sq y). current + n - y_size y \<le> y_store y g"
      using fast(3,4) I(3) by (fastforce simp: cleared_ok_def mp_cache_ok_def seq_get_def)
    then have "\<forall>c<w_consumers W. current + n - y_size y \<le> y_at W y c"
      using gate_bound[OF I(1,4)] by blast
    then show ?thesis using enter_writing[OF assms(1) i, of current n] fast(1,2) by simp
  next
    case (slow current n cached xs s)
    then show ?thesis using restart_scan[OF assms(1) i, of current n xs s] P by simp
  next
    case (scan_null current n xs m)
    then show ?thesis using enter_scanning[OF assms(1) i, of current n xs m] P by simp
  next
    case (scan current n g xs m)
    have "\<forall>h\<in>gates (y_sq y) - ptrs xs. min m (seq_get (y_store y) g) \<le> y_store y h"
      using P scan(2) by (auto simp: seq_get_def min_le_iff_disj)
    then show ?thesis using enter_scanning[OF assms(1) i, of current n xs] P scan(1,2) by simp
  next
    case (park current n m xs s)
    then show ?thesis using restart_scan[OF assms(1) i, of current n xs s] P by simp
  next
    case (settle current n m)
    let ?y = "y\<lparr>y_store := (y_store y)(gatingSequenceCache (y_sq y) := m)\<rparr>"
    have m: "\<forall>g\<in>gates (y_sq y). m \<le> y_store y g" using P settle(2) by simp
    then have "\<forall>c<w_consumers W. current + n - y_size y \<le> y_at W ?y c"
      using gate_bound[OF I(1,4) m] static_D(9)[OF I(1)] settle(3) by fastforce
    then show ?thesis
      using enter_writing[OF cache_inv[OF assms(1) m] i, of current n] settle(1,2) by (simp add: seq_set_def)
  next
    case (fill lo hi k ev)
    then show ?thesis using fill_inv[OF assms(1) i fill(2,3)] by simp
  next
    case (throw lo hi k)
    then show ?thesis using throw_inv[OF assms(1) i throw(2)] by simp
  next
    case (written lo hi k)
    have "\<forall>c<w_consumers W. \<forall>q\<in>cleared (PPublishing lo hi). q \<le> y_at W y c + y_size y"
    proof -
      have "cleared (PPublishing lo hi) = cleared (y_prod y i)" using written(2) by simp
      then show ?thesis using I(3) unfolding cleared_ok_def by blast
    qed
    then show ?thesis unfolding written(1)
      by (intro producer_pc_inv[OF assms(1) i]) (use written(2,3) in auto)
  next
    case (publish k hi)
    then show ?thesis using publish_inv[OF assms(1) i publish(2,3)] by simp
  next
    case (published k hi)
    have "sys_inv W (y\<lparr>y_ring := (y_ring y)\<lparr>rb_sequencer := signalAll (y_sq y)\<rparr>\<rparr>)" (is "sys_inv W ?y")
      by (rule sequencer_inv[OF assms(1)]) (use static_D(1)[OF I(1)] in \<open>simp_all, simp add: signalAll_def\<close>)
    then have "sys_inv W (?y\<lparr>y_prod := (y_prod ?y)(i := PIdle)\<rparr>)"
      by (rule producer_pc_inv[OF _ i]) (use published(2,3) in auto)
    then show ?thesis using published(1) by simp
  }
qed

text \<open>So does every step of a consumer.\<close>

lemma consumer_below_cursor:
  assumes "sys_inv W y" and "c < w_consumers W"
    and "\<forall>d\<in>deps_of W (y_sq y) c. m \<le> y_store y d"
  shows "m \<le> y_cursor y"
proof -
  note I = sys_inv_D[OF assms(1)]
  have all: "y_at W y b \<le> y_cursor y" if "b < w_consumers W" for b
  proof -
    have "- 1 \<le> y_at W y b" "{0..y_at W y b} \<subseteq> {0..y_cursor y}"
      using I(4) claims_D(1,2)[OF I(2)] that unfolding consumers_ok_def by blast+
    then show ?thesis using claims_D(2)[OF I(2)] by (cases "0 \<le> y_at W y b") auto
  qed
  have "deps_of W (y_sq y) c \<noteq> {}" by (simp add: deps_of_def)
  then obtain d where d: "d \<in> deps_of W (y_sq y) c" by blast
  then have "y_store y d \<le> y_cursor y" using deps_cases[OF I(1) assms(2) d] all by auto
  then show ?thesis using assms(3) d by force
qed

lemma consumer_step_inv:
  assumes "sys_inv W y" and c: "c < w_consumers W" and "consumer_step W c y z"
  shows "sys_inv W z"
  using assms(3)
proof cases
  note I = sys_inv_D[OF assms(1)]
  note pc_inv = consumer_pc_inv[OF assms(1) c]
  have at: "- 1 \<le> y_at W y c" "{0..y_at W y c} \<subseteq> y_pub y" "\<forall>d\<in>deps_of W (y_sq y) c. y_at W y c \<le> y_store y d"
    and ok: "consumer_ok (y_at W y c) (deps_of W (y_sq y) c) (y_store y) (y_pub y) (y_cons y c)"
    using I(4) c unfolding consumers_ok_def by blast+
  have limit: "0 \<le> w_limit W c" using static_D(7)[OF I(1)] c by (simp add: wiring_ok_def)
  {
    case (begin_wait "next" ds)
    then have "deps_of W (y_sq y) c - set ds = {}" by (simp add: deps_of_def)
    then have "consumer_ok (y_at W y c) (deps_of W (y_sq y) c) (y_store y) (y_pub y) (CBound next ds int64_max)"
      using ok begin_wait(2) by auto
    then show ?thesis unfolding begin_wait(1) by (rule pc_inv) (simp add: begin_wait(2))
  next
    case (depend "next" d ds m)
    then have "consumer_ok (y_at W y c) (deps_of W (y_sq y) c) (y_store y) (y_pub y)
        (CBound next ds (min m (seq_get (y_store y) d)))"
      using ok by (auto simp: seq_get_def min_le_iff_disj)
    then show ?thesis unfolding depend(1) by (rule pc_inv) (simp add: depend(2))
  next
    case (wait_again "next" ds m)
    then show ?thesis using pc_inv[of "CIdle next"] ok by simp
  next
    case (bound "next" m)
    then show ?thesis using pc_inv[of "CScan next next m"] ok by simp
  next
    case (available "next" l m)
    have l: "next \<le> l" "next = y_at W y c + 1" "{next..l - 1} \<subseteq> y_pub y" "\<forall>d\<in>deps_of W (y_sq y) c. m \<le> y_store y d"
      using ok available(2) by auto
    have "l \<le> y_cursor y" using consumer_below_cursor[OF assms(1) c l(4)] available(3) by simp
    then have "l \<in> y_pub y" using available_iff[OF assms(1) c] available(4) l(1,2) by auto
    moreover have "{next..l} = insert l {next..l - 1}" using l(1) by auto
    ultimately have "{next..l} \<subseteq> y_pub y" using l(3) by simp
    then show ?thesis using pc_inv[of "CScan next (l + 1) m"] available l by simp
  next
    case (insufficient "next" l m)
    then show ?thesis using pc_inv[of "CIdle next"] ok by simp
  next
    case (batch "next" l m availableSequence)
    let ?a = "min (next + w_limit W c) availableSequence"
    have l: "next = y_at W y c + 1" "l \<le> m + 1" "{next..l - 1} \<subseteq> y_pub y"
        "\<forall>d\<in>deps_of W (y_sq y) c. m \<le> y_store y d"
      using ok batch(2) by auto
    have "availableSequence = l - 1" "availableSequence \<le> m" using batch(4) l(2) by (auto split: if_splits)
    then have "{next..?a} \<subseteq> y_pub y" and "\<forall>d\<in>deps_of W (y_sq y) c. ?a \<le> y_store y d"
      using subset_trans[OF _ l(3), of "{next..?a}"] l(4) by fastforce+
    then have "consumer_ok (y_at W y c) (deps_of W (y_sq y) c) (y_store y) (y_pub y) (CReading next ?a)"
      using l(1) limit batch(5) by simp
    then show ?thesis unfolding batch(1) by (rule pc_inv) (simp add: batch(2) l(1))
  next
    case (deliver q a)
    then show ?thesis using deliver_inv[OF assms(1) c deliver(2,3)] by simp
  next
    case (deliver_throws q a)
    have "y_at W y c \<le> q" "{y_at W y c + 1..q} \<subseteq> y_pub y" "\<forall>d\<in>deps_of W (y_sq y) c. q \<le> y_store y d"
      using ok deliver_throws(2,3) by auto
    note A = advance_inv[OF assms(1) c this refl seen_snoc[OF assms(1) c deliver_throws(2,3)]]
    show ?thesis using A unfolding deliver_throws(1) by (simp add: seq_set_def)
  next
    case (finish q a)
    have q: "y_at W y c \<le> a" "{y_at W y c + 1..a} \<subseteq> y_pub y" "\<forall>d\<in>deps_of W (y_sq y) c. a \<le> y_store y d" "q = a + 1"
      using ok finish(2,3) by auto
    have "y_seen y c = map (\<lambda>q. the (y_sent y q)) [0..a]"
      using delivery_seen[OF I(7) c] finish(2) q(4) by simp
    note A = advance_inv[OF assms(1) c q(1-3) refl this]
    then show ?thesis unfolding finish(1) by (simp add: seq_set_def q(4))
  }
qed

lemma sys_step_inv: "sys_step W y z \<Longrightarrow> sys_inv W y \<Longrightarrow> sys_inv W z"
  by (induction rule: sys_step.induct) (auto intro: producer_step_inv consumer_step_inv)

lemma sys_start_inv:
  assumes "sys_start W y"
  shows "sys_inv W y"
proof -
  have st: "static_ok W y" using assms by (simp add: sys_start_def static_ok_def)
  note S = static_D[OF st]
  have "claims_ok W y" "events_ok y" "delivery_ok W y"
    using assms by (simp_all add: sys_start_def claims_ok_def events_ok_def delivery_ok_def INITIAL_VALUE_def)
  moreover have "cleared_ok W y"
  proof -
    have "y_store y g = INITIAL_VALUE" if "g \<in> gates (y_sq y)" for g
      using gates_cases[OF st that] assms by (auto simp: sys_start_def)
    then show ?thesis using assms by (simp add: sys_start_def cleared_ok_def mp_cache_ok_def)
  qed
  moreover have "consumers_ok W y"
    unfolding consumers_ok_def
  proof (intro allI impI)
    fix c assume c: "c < w_consumers W"
    have "y_store y d = - 1" if "d \<in> deps_of W (y_sq y) c" for d
      using deps_cases[OF st c that] assms by (auto simp: sys_start_def INITIAL_VALUE_def)
    then show "- 1 \<le> y_at W y c \<and> {0..y_at W y c} \<subseteq> y_pub y \<and>
        consumer_ok (y_at W y c) (deps_of W (y_sq y) c) (y_store y) (y_pub y) (y_cons y c) \<and>
        (\<forall>d\<in>deps_of W (y_sq y) c. y_at W y c \<le> y_store y d)"
      using assms c by (simp add: sys_start_def INITIAL_VALUE_def)
  qed
  moreover have "flags_ok y"
    unfolding flags_ok_def
  proof (intro allI impI)
    fix i assume i: "0 \<le> i \<and> i < y_size y"
    have "(i - y_size y) div y_size y = - 1" and "(i - y_size y) mod y_size y = i"
      using i S(3) div_mult_self1[of "y_size y" i "- 1"] by (simp_all add: div_pos_pos_trivial)
    then show "slot_flag_ok (availableBuffer (y_sq y)) (y_size y) (y_pub y) i"
      unfolding slot_flag_ok_def using assms i
      by (intro exI[of _ "i - y_size y"]) (simp add: sys_start_def nat_less_iff wrap32_id)
  qed
  ultimately show ?thesis using st by (simp add: sys_inv_def)
qed

lemma sys_reach_inv: "sys_reach W y0 y \<Longrightarrow> sys_start W y0 \<Longrightarrow> sys_inv W y"
  by (induction rule: sys_reach.induct) (auto intro: sys_start_inv sys_step_inv)

text \<open>What holds in every reachable state.\<close>

lemma seen_length:
  assumes "sys_inv W y" and "c < w_consumers W"
  shows "int (length (y_seen y c)) = reads_from (y_at W y c) (y_cons y c)"
proof -
  note I = sys_inv_D[OF assms(1)]
  have "- 1 \<le> y_at W y c"
    and "consumer_ok (y_at W y c) (deps_of W (y_sq y) c) (y_store y) (y_pub y) (y_cons y c)"
    using I(4) assms(2) unfolding consumers_ok_def by blast+
  then have "0 \<le> reads_from (y_at W y c) (y_cons y c)" by (cases "y_cons y c") auto
  then show ?thesis using delivery_seen[OF I(7) assms(2)] by simp
qed

lemma seen_eq:
  assumes "sys_inv W y" and "c < w_consumers W"
  shows "y_seen y c = map (\<lambda>q. the (y_sent y q)) [0..int (length (y_seen y c)) - 1]"
  using delivery_seen[OF sys_inv_D(7)[OF assms(1)] assms(2)] seen_length[OF assms] by simp

lemma seen_published:
  assumes "sys_inv W y" and "c < w_consumers W" and "0 \<le> q" and "q < int (length (y_seen y c))"
  shows "q \<in> y_pub y" and "y_sent y q \<noteq> None"
proof -
  note I = sys_inv_D[OF assms(1)]
  show pub: "q \<in> y_pub y"
    using reads_published[OF I(4) assms(2)] seen_length[OF assms(1,2)] assms(3,4) by auto
  show "y_sent y q \<noteq> None" using events_D(3)[OF I(6) pub] .
qed

lemma seen_after_dependents:
  assumes "sys_inv W y" and "a < w_consumers W" and "b < w_consumers W" and "w_seq W b \<in> set (w_deps W a)"
  shows "int (length (y_seen y a)) \<le> y_at W y b + 1"
proof -
  note I = sys_inv_D[OF assms(1)]
  have d: "w_seq W b \<in> deps_of W (y_sq y) a" using assms(4) by (auto simp: deps_of_def)
  have "y_at W y a \<le> y_at W y b"
    and "consumer_ok (y_at W y a) (deps_of W (y_sq y) a) (y_store y) (y_pub y) (y_cons y a)"
    using I(4) assms(2) d unfolding consumers_ok_def by blast+
  then have "reads_from (y_at W y a) (y_cons y a) \<le> y_at W y b + 1"
    using d by (cases "y_cons y a") fastforce+
  then show ?thesis using seen_length[OF assms(1,2)] by simp
qed

lemma step_history:
  assumes "sys_step W y z" and "sys_inv W y"
  shows "y_lost y \<subseteq> y_lost z" and "y_sent y \<subseteq>\<^sub>m y_sent z" and "prefix (y_seen y c) (y_seen z c)"
proof -
  have new: "y_sent y k = None" if "y_prod y i = PWriting lo hi k" "k \<le> hi" for i lo hi k
    using events_D(2)[OF sys_inv_D(6)[OF assms(2)], of k i] that by fastforce
  show "y_lost y \<subseteq> y_lost z" using assms(1) by (auto elim!: sys_step.cases producer_step.cases consumer_step.cases)
  show "y_sent y \<subseteq>\<^sub>m y_sent z"
    using assms(1) by (auto elim!: sys_step.cases producer_step.cases consumer_step.cases simp: map_le_def)
      (metis new option.distinct(1))
  show "prefix (y_seen y c) (y_seen z c)"
    using assms(1) by (auto elim!: sys_step.cases producer_step.cases consumer_step.cases)
qed

lemma reach_history:
  assumes "sys_reach W y z" and "sys_inv W y"
  shows "sys_inv W z \<and> y_lost y \<subseteq> y_lost z \<and> y_sent y \<subseteq>\<^sub>m y_sent z \<and> prefix (y_seen y c) (y_seen z c)"
  using assms
proof (induction rule: sys_reach.induct)
  case (step x z)
  then have x: "sys_inv W x" by simp
  have "y_sent y \<subseteq>\<^sub>m y_sent z"
    using step map_le_trans[OF _ step_history(2)[OF step(2) x]] by blast
  moreover have "prefix (y_seen y c) (y_seen z c)"
    using step prefix_order.trans[OF _ step_history(3)[OF step(2) x]] by blast
  ultimately show ?case
    using step step_history(1)[OF step(2) x] sys_step_inv[OF step(2) x] by blast
qed simp

text \<open>A run of one producer and one consumer on a ring of one slot, for the witnesses: event 7 is
  claimed, written, published, found and delivered.\<close>

definition demo_wiring :: wiring where
  "demo_wiring = \<lparr>w_producers = 1, w_consumers = 1, w_seq = (\<lambda>_. 2), w_deps = (\<lambda>_. []), w_limit = (\<lambda>_. 0)\<rparr>"

definition demo_entries :: "nat list" where
  "demo_entries = replicate 65 0"

definition demo_state ::
  "int \<Rightarrow> producer_pc \<Rightarrow> reader_pc \<Rightarrow> int \<Rightarrow> nat \<Rightarrow> (int \<Rightarrow> nat option) \<Rightarrow> int set \<Rightarrow> nat list \<Rightarrow> nat system" where
  "demo_state c p k f ev sent pub seen = \<lparr>y_store = (\<lambda>_. - 1)(0 := c),
     y_ring = \<lparr>rb_indexMask = 0, rb_entries = demo_entries[32 := ev], rb_bufferSize = 1,
       rb_sequencer = demo_sequencer\<lparr>availableBuffer := [f]\<rparr>\<rparr>,
     y_prod = (\<lambda>_. PIdle)(0 := p), y_cons = (\<lambda>_. CIdle 0)(0 := k), y_sent = sent, y_pub = pub, y_lost = {},
     y_seen = (\<lambda>_. [])(0 := seen)\<rparr>"

definition demo_system :: "nat system" where
  "demo_system = demo_state (- 1) PIdle (CIdle 0) (- 1) 0 (\<lambda>_. None) {} []"

lemma demo_wiring_simps [simp]:
  "w_producers demo_wiring = 1" "w_consumers demo_wiring = 1" "w_seq demo_wiring c = 2"
  "w_deps demo_wiring c = []" "w_limit demo_wiring c = 0"
  by (simp_all add: demo_wiring_def)

lemma demo_start: "sys_start demo_wiring demo_system"
proof -
  have wf: "mp_wf (demo_sequencer\<lparr>availableBuffer := [- 1]\<rparr>)" by (rule demo_sequencer_wf)
  have "wiring_ok demo_wiring (demo_sequencer\<lparr>availableBuffer := [- 1]\<rparr>)"
    unfolding wiring_ok_def by (auto simp: inj_on_def)
  then show ?thesis
    using wf unfolding sys_start_def
    by (simp add: demo_system_def demo_state_def demo_entries_def INITIAL_VALUE_def rb_ok_def mp_ops_def
        getBufferSize_def BUFFER_PAD_def is_pow2_def fun_upd_idem)
qed

lemma demo_ring:
  "rb_put 0 ev \<lparr>rb_indexMask = 0, rb_entries = demo_entries[32 := x], rb_bufferSize = n, rb_sequencer = s\<rparr> =
     \<lparr>rb_indexMask = 0, rb_entries = demo_entries[32 := ev], rb_bufferSize = n, rb_sequencer = s\<rparr>"
  "rb_get \<lparr>rb_indexMask = 0, rb_entries = demo_entries[32 := x], rb_bufferSize = n, rb_sequencer = s\<rparr> 0 = x"
  by (simp_all add: rb_put_def rb_get_def elementAt_def rb_slot_def BUFFER_PAD_def wrap32_id demo_entries_def)

lemma demo_flags:
  "mp_isAvailable 0 (demo_sequencer\<lparr>availableBuffer := [f]\<rparr>) \<longleftrightarrow> f = 0"
  "setAvailable 0 (demo_sequencer\<lparr>availableBuffer := [f]\<rparr>) = demo_sequencer\<lparr>availableBuffer := [0]\<rparr>"
  by (simp_all add: mp_isAvailable_def setAvailable_def setAvailableBufferValue_def calculateIndex_def
      calculateAvailabilityFlag_def wrap32_id)

lemmas demo_simps = demo_state_def seq_getAndAdd_def seq_get_def demo_ring demo_flags
  in_int64_def int64_min_def int64_max_def

lemma demo_producer_step:
  assumes "sys_reach demo_wiring y0 y" and "producer_step 0 y y'" and "y' = z"
  shows "sys_reach demo_wiring y0 z"
  using sys_reach.step[OF assms(1) sys_step.producer[of 0 demo_wiring, OF _ assms(2)]] assms(3) by simp

lemma demo_consumer_step:
  assumes "sys_reach demo_wiring y0 y" and "consumer_step demo_wiring 0 y y'" and "y' = z"
  shows "sys_reach demo_wiring y0 z"
  using sys_reach.step[OF assms(1) sys_step.consumer[of 0 demo_wiring, OF _ assms(2)]] assms(3) by simp

lemma demo_written:
  "sys_reach demo_wiring demo_system
     (demo_state 0 (PWriting 0 0 1) (CIdle 0) (- 1) 7 [0 \<mapsto> 7] {} [])"
proof -
  have "sys_reach demo_wiring demo_system
      (demo_state 0 (PClaimed (- 1) 1) (CIdle 0) (- 1) 0 (\<lambda>_. None) {} [])"
    by (rule demo_producer_step[OF sys_reach.start producer_step.claim[where n = 1 and current = "- 1"
          and \<sigma> = "(\<lambda>_. - 1)(0 := 0)"]]) (auto simp: demo_system_def demo_simps)
  then have "sys_reach demo_wiring demo_system
      (demo_state 0 (PWriting 0 0 0) (CIdle 0) (- 1) 0 (\<lambda>_. None) {} [])"
    by (rule demo_producer_step[OF _ producer_step.fast[where current = "- 1" and n = 1]]) (auto simp: demo_simps)
  then show ?thesis
    by (rule demo_producer_step[OF _ producer_step.fill[where ev = 7]]) (auto simp: demo_simps)
qed

lemma demo_published:
  "sys_reach demo_wiring demo_system
     (demo_state 0 (PPublishing 1 0) (CIdle 0) 0 7 [0 \<mapsto> 7] {0} [])"
proof -
  have "sys_reach demo_wiring demo_system
      (demo_state 0 (PPublishing 0 0) (CIdle 0) (- 1) 7 [0 \<mapsto> 7] {} [])"
    by (rule demo_producer_step[OF demo_written producer_step.written]) (auto simp: demo_simps)
  then show ?thesis
    by (rule demo_producer_step[OF _ producer_step.publish]) (auto simp: demo_simps)
qed

lemma demo_delivered:
  "sys_reach demo_wiring demo_system
     (demo_state 0 (PPublishing 1 0) (CReading 1 0) 0 7 [0 \<mapsto> 7] {0} [7])"
proof -
  let ?y = "\<lambda>k seen. demo_state 0 (PPublishing 1 0) k 0 7 [0 \<mapsto> 7] {0} seen"
  let ?r = "sys_reach demo_wiring demo_system"
  have "?r (?y (CBound 0 [0] int64_max) [])"
    by (rule demo_consumer_step[OF demo_published consumer_step.begin_wait]) (auto simp: demo_simps)
  then have "?r (?y (CBound 0 [] 0) [])"
    by (rule demo_consumer_step[OF _ consumer_step.depend]) (auto simp: demo_simps)
  then have "?r (?y (CScan 0 0 0) [])"
    by (rule demo_consumer_step[OF _ consumer_step.bound]) (auto simp: demo_simps)
  then have "?r (?y (CScan 0 1 0) [])"
    by (rule demo_consumer_step[OF _ consumer_step.available]) (auto simp: demo_simps)
  then have "?r (?y (CReading 0 0) [])"
    by (rule demo_consumer_step[OF _ consumer_step.batch]) (auto simp: demo_simps)
  then show ?thesis
    by (rule demo_consumer_step[OF _ consumer_step.deliver]) (auto simp: demo_simps)
qed

section \<open>Properties\<close>





text \<open>C4: A consumer that depends on another receives an event only after the other has finished
  with it, and a gating consumer therefore bounds what every producer may overwrite: a sequence
  that a producer may write is at most one buffer ahead of every consumer.\<close>

theorem system_dependencies:
  assumes "sys_start W y0" and "sys_reach W y0 y"
  shows "(\<forall>a b. a < w_consumers W \<longrightarrow> b < w_consumers W \<longrightarrow> w_seq W b \<in> set (w_deps W a) \<longrightarrow>
      int (length (y_seen y a)) \<le> y_at W y b + 1) \<and>
    (\<forall>i c. c < w_consumers W \<longrightarrow> (\<forall>q\<in>cleared (y_prod y i). y_at W y c < q \<and> q \<le> y_at W y c + y_size y))"
proof -
  note inv = sys_reach_inv[OF assms(2,1)]
  note I = sys_inv_D[OF inv]
  have "y_at W y c < q \<and> q \<le> y_at W y c + y_size y"
    if "c < w_consumers W" and "q \<in> cleared (y_prod y i)" for i c q
  proof
    show "y_at W y c < q" using pending_above(1)[OF I(2,4), of q i c] that cleared_pending by blast
    show "q \<le> y_at W y c + y_size y" using I(3) that unfolding cleared_ok_def by blast
  qed
  then show ?thesis using seen_after_dependents[OF inv] by blast
qed

lemma system_dependencies_witness:
  "\<exists>q. q \<in> cleared (y_prod (demo_state 0 (PWriting 0 0 1) (CIdle 0) (- 1) 7 [0 \<mapsto> 7] {} []) 0) \<and>
     y_at demo_wiring (demo_state 0 (PWriting 0 0 1) (CIdle 0) (- 1) 7 [0 \<mapsto> 7] {} []) 0 < q \<and>
     q \<le> y_at demo_wiring (demo_state 0 (PWriting 0 0 1) (CIdle 0) (- 1) 7 [0 \<mapsto> 7] {} []) 0 +
       y_size (demo_state 0 (PWriting 0 0 1) (CIdle 0) (- 1) 7 [0 \<mapsto> 7] {} [])"
proof -
  have "0 \<in> cleared (y_prod (demo_state 0 (PWriting 0 0 1) (CIdle 0) (- 1) 7 [0 \<mapsto> 7] {} []) 0)"
    by (simp add: demo_state_def)
  then show ?thesis using system_dependencies[OF demo_start demo_written] by (intro exI[of _ 0]) simp
qed



end
