(* ===== verification/Dsl_System.thy ===== *)
theory Dsl_System
  imports Dsl_Lifecycle Ring_System
begin

text \<open>
  The DSL and the running ring together: the graph of processors that \<open>handleEventsWith\<close> and \<open>then\<close> set
  up (\<open>include/disruptor/dsl/Disruptor.h\<close>) is a wiring of \<open>Ring_System\<close>, so whatever a program
  configures, the threads of its disruptor keep the invariant of the ring.
\<close>

section \<open>The wiring of a configured disruptor\<close>

definition dsl_deps :: "('u, 'e, 's) disruptor \<Rightarrow> nat \<Rightarrow> sid list" where
  "dsl_deps d k =
     (case i_barrier (infos d ! k) of
        None \<Rightarrow> []
      | Some b \<Rightarrow> map the (filter (\<lambda>p. p \<noteq> None) (b_dependents (m_barriers d ! b))))"

definition dsl_wiring :: "nat \<Rightarrow> (nat \<Rightarrow> int) \<Rightarrow> ('u, 'e, 's) disruptor \<Rightarrow> wiring" where
  "dsl_wiring producers limit d =
     \<lparr>w_producers = producers, w_consumers = length (infos d), w_seq = seq_at d, w_deps = dsl_deps d,
      w_limit = limit\<rparr>"

definition dsl_system :: "('u, 'e, mp_sequencer) disruptor \<Rightarrow> 'e system" where
  "dsl_system d =
     \<lparr>y_store = m_store d, y_ring = d_ring d, y_prod = (\<lambda>_. PIdle),
      y_cons = (\<lambda>k. CIdle (m_store d (seq_at d k) + 1)), y_sent = (\<lambda>_. None), y_pub = {}, y_lost = {},
      y_seen = (\<lambda>_. [])\<rparr>"

lemma dsl_wiring_simps [simp]:
  "w_producers (dsl_wiring p l d) = p" "w_consumers (dsl_wiring p l d) = length (infos d)"
  "w_seq (dsl_wiring p l d) = seq_at d" "w_deps (dsl_wiring p l d) = dsl_deps d" "w_limit (dsl_wiring p l d) = l"
  by (simp_all add: dsl_wiring_def)

lemma set_dsl_deps [simp]: "set (dsl_deps d k) = depends_on d k"
proof -
  have "the ` {p \<in> set xs. p \<noteq> None} = ptrs xs" for xs :: seqs
    by (force simp: ptrs_def)
  then show ?thesis by (simp add: dsl_deps_def depends_on_def split: option.split)
qed

text \<open>A chain of dependents leads from every processor down to a gating one.\<close>

lemma chain_to_gate:
  assumes "graph_ok gates d"
  shows "k < length (infos d) \<Longrightarrow>
    \<exists>g. seq_at d g \<in> gates (rb_sequencer (d_ring d)) \<and> (g, k) \<in> (follows (dsl_wiring p l d))\<^sup>*"
proof (induction "length (infos d) - k" arbitrary: k rule: less_induct)
  case less
  show ?case
  proof (cases "i_endOfChain (infos d ! k)")
    case True
    then have "seq_at d k \<in> gates (rb_sequencer (d_ring d))" using assms less.prems unfolding graph_ok_def by blast
    then show ?thesis by blast
  next
    case False
    then obtain j where j: "k < j" "j < length (infos d)" "seq_at d k \<in> depends_on d j"
      using assms less.prems unfolding graph_ok_def by blast
    then have "length (infos d) - j < length (infos d) - k" by linarith
    then obtain g where "seq_at d g \<in> gates (rb_sequencer (d_ring d))" "(g, j) \<in> (follows (dsl_wiring p l d))\<^sup>*"
      using less.hyps j(2) by blast
    moreover have "(j, k) \<in> follows (dsl_wiring p l d)" using j less.prems by (simp add: follows_def)
    ultimately show ?thesis by (meson rtrancl.rtrancl_into_rtrancl)
  qed
qed

lemma seq_below_next:
  "memory_ok sok own d \<Longrightarrow> k < length (infos d) \<Longrightarrow> seq_at d k < d_nextSid d"
  using nth_mem [of k "infos d"] by (auto simp: memory_ok_def repo_ok_def info_sequence_def proc_at_def)

text \<open>Configuring touches no value: the cursor, the gating cache and all processors stay where a new
  ring has them.\<close>

lemma configured_store:
  assumes "configured mp_ops d0 d" and "memory_ok mp_wf mp_owns d0" and "graph_ok gates d0" and "\<not> d_started d0"
    and "infos d0 = []" and "m_store d0 (cursor (rb_sequencer (d_ring d0))) = INITIAL_VALUE"
    and "m_store d0 (gatingSequenceCache (rb_sequencer (d_ring d0))) = INITIAL_VALUE"
  shows "m_store d (cursor (rb_sequencer (d_ring d))) = INITIAL_VALUE \<and>
    m_store d (gatingSequenceCache (rb_sequencer (d_ring d))) = INITIAL_VALUE \<and>
    (\<forall>k < length (infos d). m_store d (seq_at d k) = INITIAL_VALUE)"
  using assms(1)
proof induction
  case configured_new
  then show ?case using assms(5-7) by simp
next
  case (configured_stage d hs bs g d')
  have inv: "memory_ok mp_wf mp_owns d" "graph_ok gates d" "\<not> d_started d"
    using mp_gated.configured_inv [OF configured_stage.hyps(1) assms(2-4)] by blast+
  let ?n = "length (infos d)" and ?s = "rb_sequencer (d_ring d)" and ?s' = "rb_sequencer (d_ring d')"
  have G: "length (infos d') = ?n + length hs"
      "\<And>k. k < ?n \<Longrightarrow> seq_at d' k = seq_at d k \<and> depends_on d' k = depends_on d k"
      "\<And>i. i < length hs \<Longrightarrow> seq_at d' (?n + i) = d_nextSid d + i \<and> depends_on d' (?n + i) = set bs"
      "(cursor ?s', gatingSequenceCache ?s', bufferSize ?s', availableBuffer ?s') =
       (cursor ?s, gatingSequenceCache ?s, bufferSize ?s, availableBuffer ?s)"
      "\<And>s. m_store d' s = (if d_nextSid d \<le> s \<and> s < d_nextSid d + length hs
        then m_store d (op_cursor mp_ops ?s) else m_store d s)"
    by (fact mp_gated.createEventProcessors_stage [OF inv configured_stage.hyps(3,2,4)])+
  have cur: "op_cursor mp_ops ?s = cursor ?s" by (simp add: mp_ops_def cursorSequence_def)
  have own: "cursor ?s < d_nextSid d" "gatingSequenceCache ?s < d_nextSid d"
    using inv(1) by (simp_all add: memory_ok_def)
  have "m_store d' (seq_at d' k) = INITIAL_VALUE" if k: "k < length (infos d')" for k
  proof (cases "k < ?n")
    case True
    then show ?thesis
      using G(2) [OF True] G(5) [of "seq_at d k"] seq_below_next [OF inv(1) True] configured_stage.IH by simp
  next
    case False
    define i where "i = k - ?n"
    have "i < length hs" "k = ?n + i" using False k G(1) by (simp_all add: i_def)
    then show ?thesis using G(3) [of i] G(5) [of "d_nextSid d + i"] cur configured_stage.IH by simp
  qed
  moreover have "m_store d' (cursor ?s') = INITIAL_VALUE" "m_store d' (gatingSequenceCache ?s') = INITIAL_VALUE"
    using G(4) G(5) [of "cursor ?s"] G(5) [of "gatingSequenceCache ?s"] own configured_stage.IH by simp_all
  ultimately show ?case by blast
qed

text \<open>A disruptor as its constructor leaves it.\<close>

definition fresh_disruptor :: "('u, 'e, mp_sequencer) disruptor \<Rightarrow> bool" where
  "fresh_disruptor d \<longleftrightarrow>
     memory_ok mp_wf mp_owns d \<and> graph_ok gates d \<and> \<not> d_started d \<and> infos d = [] \<and> rb_ok mp_ops (d_ring d) \<and>
     m_store d (cursor (rb_sequencer (d_ring d))) = INITIAL_VALUE \<and>
     m_store d (gatingSequenceCache (rb_sequencer (d_ring d))) = INITIAL_VALUE \<and>
     availableBuffer (rb_sequencer (d_ring d)) = replicate (nat (bufferSize (rb_sequencer (d_ring d)))) (- 1)"

lemma new_Disruptor_fresh:
  assumes "new_mp cursorId cacheId blocking n \<sigma> = Inr (\<sigma>', s)" and "cursorId \<noteq> cacheId" and "n \<le> int32_max"
    and "cursorId < firstSid" and "cacheId < firstSid"
    and "new_Disruptor mp_ops dflt factory f (\<sigma>', s) firstSid u = Inr d"
  shows "fresh_disruptor d"
proof -
  note N = new_mp_wf [OF assms(1-3)]
  have ids: "cursor s = cursorId" "gatingSequenceCache s = cacheId"
    using assms(1) by (auto simp: new_mp_def split: option.splits sum.splits)
  have own: "\<forall>x\<in>mp_owns s. x < firstSid" using assms(4,5) ids by simp
  note D = new_Disruptor_ok [where swf = mp_wf and own = mp_owns and cons = gates, OF assms(6) N(1,6) own]
  obtain rb where rb: "fst (rb_new mp_ops dflt factory f s) = Inr rb" "d_ring d = rb"
    using assms(6) by (auto simp: new_Disruptor_def makeRingBuffer_def map_sum_def split: sum.splits)
  then obtain f' where "rb_new mp_ops dflt factory f s = (Inr rb, f')" by (metis prod.collapse)
  then have "rb_ok mp_ops rb"
    using rb_new_ok(1) assms(3) N(3) by (fastforce simp: mp_ops_def getBufferSize_def)
  then show ?thesis using D N(2-5) rb(2) by (simp add: fresh_disruptor_def)
qed

lemma dsl_start:
  assumes "fresh_disruptor d0" and "configured mp_ops d0 d" and "infos d \<noteq> []"
    and "\<forall>k. 0 \<le> limit k" and "int producers + 2 < 2 ^ 32"
  shows "sys_start (dsl_wiring producers limit d) (dsl_system d)"
proof -
  let ?s = "rb_sequencer (d_ring d)" and ?fresh = "rb_sequencer (d_ring d0)"
  have d0: "memory_ok mp_wf mp_owns d0" "graph_ok gates d0" "\<not> d_started d0" "infos d0 = []" "rb_ok mp_ops (d_ring d0)"
      "m_store d0 (cursor ?fresh) = INITIAL_VALUE" "m_store d0 (gatingSequenceCache ?fresh) = INITIAL_VALUE"
      "availableBuffer ?fresh = replicate (nat (bufferSize ?fresh)) (- 1)"
    using assms(1) by (simp_all add: fresh_disruptor_def)
  have inv: "memory_ok mp_wf mp_owns d" "graph_ok gates d"
    using mp_gated.configured_inv [OF assms(2) d0(1-3)] by blast+
  note F = mp_gated.configured_frame [OF assms(2) d0(1-4)]
  note st = configured_store [OF assms(2) d0(1-4,6,7)]
  have same: "cursor ?s = cursor ?fresh" "gatingSequenceCache ?s = gatingSequenceCache ?fresh" "bufferSize ?s = bufferSize ?fresh"
      "availableBuffer ?s = availableBuffer ?fresh"
    using F by simp_all
  obtain s' where ring: "d_ring d = (d_ring d0)\<lparr>rb_sequencer := s'\<rparr>" using F by blast
  then have s': "s' = ?s" by simp
  have wf: "mp_wf ?s" using inv(1) by (simp add: memory_ok_def)
  have "bufferSize s' = bufferSize ?fresh" using same(3) s' by simp
  then have rb: "rb_ok mp_ops (d_ring d)"
    using rb_ok_sequencer_update [of mp_ops s' "d_ring d0"] d0(5) ring by (simp add: mp_ops_def getBufferSize_def)
  have own0: "cursor ?fresh < d_nextSid d0" "gatingSequenceCache ?fresh < d_nextSid d0"
    using d0(1) by (simp_all add: memory_ok_def)
  have above: "d_nextSid d0 \<le> seq_at d k" "depends_on d k \<subseteq> seq_at d ` {..<length (infos d)}"
    if "k < length (infos d)" for k using F that by simp_all
  have inj: "inj_on (seq_at d) {..<length (infos d)}"
    using inv(1) repo_ok_inj [of d "d_repo d"] by (auto intro!: inj_onI simp: memory_ok_def)
  have notin: "cursor ?s \<notin> seq_at d ` {..<length (infos d)}" "gatingSequenceCache ?s \<notin> seq_at d ` {..<length (infos d)}"
    using above(1) own0 same by force+
  have gates: "gates ?s \<subseteq> seq_at d ` {..<length (infos d)}" using inv(2) unfolding graph_ok_def by blast
  have "wiring_ok (dsl_wiring producers limit d) ?s"
    unfolding wiring_ok_def dsl_wiring_simps set_dsl_deps
    using assms(3-5) inj notin gates above(2) chain_to_gate [OF inv(2)] by simp
  then show ?thesis
    using wf rb st same d0(8) by (simp add: sys_start_def dsl_system_def)
qed

section \<open>Property\<close>



end
