(* ===== verification/Bytes.thy ===== *)
theory Bytes
  imports Prelude
begin

text \<open>
  Memory as a list of bytes, for the components that copy and parse bytes: the byte ring of the
  Unity bridge and the shared-memory bus.  A copy outside the memory has no result.  Numbers are
  stored in little-endian order.
\<close>

type_synonym byte = "8 word"

text \<open>\<open>memcpy\<close> into and out of a memory.\<close>

definition mem_write :: "nat \<Rightarrow> byte list \<Rightarrow> byte list \<Rightarrow> byte list option" where
  "mem_write pos src buf =
     (if pos + length src \<le> length buf then Some (take pos buf @ src @ drop (pos + length src) buf) else None)"

definition mem_read :: "nat \<Rightarrow> nat \<Rightarrow> byte list \<Rightarrow> byte list option" where
  "mem_read pos n buf = (if pos + n \<le> length buf then Some (take n (drop pos buf)) else None)"

definition slice :: "byte list \<Rightarrow> nat \<Rightarrow> nat \<Rightarrow> byte list" where
  "slice buf pos n = take n (drop pos buf)"

lemma mem_write_Some:
  assumes "mem_write pos src buf = Some buf'"
  shows "length buf' = length buf" and "slice buf' pos (length src) = src"
    and "a + n \<le> pos \<or> pos + length src \<le> a \<Longrightarrow> slice buf' a n = slice buf a n"
proof -
  from assms have buf': "buf' = take pos buf @ src @ drop (pos + length src) buf"
    and le: "pos + length src \<le> length buf"
    by (auto simp: mem_write_def split: if_splits)
  show len: "length buf' = length buf" using le by (simp add: buf')
  show "slice buf' pos (length src) = src" using le by (simp add: slice_def buf')
  show "slice buf' a n = slice buf a n" if d: "a + n \<le> pos \<or> pos + length src \<le> a"
  proof (rule nth_equalityI)
    show "length (slice buf' a n) = length (slice buf a n)" by (simp add: slice_def len)
    fix i
    assume "i < length (slice buf' a n)"
    then have i: "i < n" "a + i < length buf" by (auto simp: slice_def len)
    have "buf' ! (a + i) = buf ! (a + i)"
      using d i le by (auto simp: buf' nth_append)
    then show "slice buf' a n ! i = slice buf a n ! i"
      using i by (simp add: slice_def len)
  qed
qed

text \<open>Little-endian numbers of \<open>k\<close> bytes.\<close>

fun le_bytes :: "nat \<Rightarrow> nat \<Rightarrow> byte list" where
  "le_bytes 0 n = []"
| "le_bytes (Suc k) n = word_of_nat (n mod 256) # le_bytes k (n div 256)"

fun le_nat :: "byte list \<Rightarrow> nat" where
  "le_nat [] = 0"
| "le_nat (b # bs) = unat b + 256 * le_nat bs"

lemma length_le_bytes [simp]: "length (le_bytes k n) = k"
  by (induction k n rule: le_bytes.induct) simp_all

lemma unat_byte: "n < 256 \<Longrightarrow> unat (word_of_nat n :: byte) = n"
  by (simp add: unat_of_nat)

lemma le_nat_le_bytes: "n < 256 ^ k \<Longrightarrow> le_nat (le_bytes k n) = n"
proof (induction k n rule: le_bytes.induct)
  case (2 k n)
  have "n div 256 < 256 ^ k"
    using "2.prems" by (simp add: less_mult_imp_div_less mult.commute)
  with "2.IH" show ?case by (simp add: unat_byte)
qed simp

lemma le_nat_bound: "le_nat bs < 256 ^ length bs"
proof (induction bs)
  case (Cons b bs)
  have "unat b < 256" using unsigned_less [of b, where 'a = nat] by simp
  moreover have "256 * le_nat bs + 256 \<le> 256 * 256 ^ length bs"
    using Cons.IH by (metis Suc_leI mult_Suc_right mult_le_mono2 add.commute)
  ultimately show ?case by simp
qed simp

end
