(* ===== verification/Unity_Ring.thy ===== *)
theory Unity_Ring
  imports Bytes
begin

text \<open>
  The byte ring of the Unity bridge (\<open>src/reference/unity_interop/RingBuffer.cpp\<close>): a circular
  buffer of fixed power-of-two capacity with a head and a tail position.

  \<open>size_t\<close> values are naturals below \<open>2 ^ 64\<close> and the arithmetic on them is written out with its
  wrap-around.  \<open>None\<close> is an access outside the buffer, which \<open>std::span::subspan\<close> does not check.
\<close>

section \<open>Arithmetic of size_t\<close>

definition sz_add :: "nat \<Rightarrow> nat \<Rightarrow> nat" where
  "sz_add a b = (a + b) mod 2 ^ 64"

definition sz_sub :: "nat \<Rightarrow> nat \<Rightarrow> nat" where
  "sz_sub a b = (a + 2 ^ 64 - b) mod 2 ^ 64"

lemma sz_add_small [simp]: "a + b < 2 ^ 64 \<Longrightarrow> sz_add a b = a + b"
  by (simp add: sz_add_def)

lemma sz_sub_small [simp]:
  assumes "b \<le> a" and "a < 2 ^ 64"
  shows "sz_sub a b = a - b"
proof -
  have "a + 2 ^ 64 - b = (a - b) + 2 ^ 64" using assms(1) by simp
  then have "sz_sub a b = (a - b) mod 2 ^ 64" by (simp only: sz_sub_def mod_add_self2)
  also have "a - b < 2 ^ 64" by (rule le_less_trans [OF diff_le_self assms(2)])
  then have "(a - b) mod 2 ^ 64 = a - b" by (rule mod_less)
  finally show ?thesis .
qed

definition kDefaultCapacity :: nat where
  "kDefaultCapacity = 8 * 1024 * 1024"

definition kMaxCapacity :: nat where
  "kMaxCapacity = 16 * 1024 * 1024"

definition kMinCapacity :: nat where
  "kMinCapacity = 1024 * 1024"

section \<open>State\<close>

datatype u_error = kSuccess | kInsufficientCapacity | kInvalidArgument | kBufferFull

record u_ring =
  u_head :: nat
  u_tail :: nat
  u_buffer :: "byte list"
  u_capacity :: nat
  u_mask :: nat
  u_total_writes :: nat
  u_total_reads :: nat
  u_failed_writes :: nat
  u_failed_reads :: nat

record u_statistics =
  st_total_writes :: nat
  st_total_reads :: nat
  st_failed_writes :: nat
  st_failed_reads :: nat
  st_current_size :: nat

text \<open>\<open>std::has_single_bit\<close> and \<open>std::bit_ceil\<close>; the latter has no value above \<open>2 ^ 63\<close>.\<close>

definition has_single_bit :: "nat \<Rightarrow> bool" where
  "has_single_bit n \<longleftrightarrow> n \<noteq> 0 \<and> n AND (n - 1) = 0"

function bit_ceil_from :: "nat \<Rightarrow> nat \<Rightarrow> nat" where
  "bit_ceil_from p n = (if p = 0 \<or> n \<le> p then p else bit_ceil_from (2 * p) n)"
  by pat_completeness auto
termination
  by (relation "measure (\<lambda>(p, n). n - p)") auto

declare bit_ceil_from.simps [simp del]

definition IsPowerOfTwo :: "nat \<Rightarrow> bool" where
  "IsPowerOfTwo capacity = (capacity > 0 \<and> has_single_bit capacity)"

definition NextPowerOfTwo :: "nat \<Rightarrow> nat option" where
  "NextPowerOfTwo n =
     (if n = 0 then Some 1
      else if has_single_bit n then Some n
      else if n \<le> 2 ^ 63 then Some (bit_ceil_from 1 n) else None)"

definition new_u_ring :: "nat \<Rightarrow> u_ring option" where
  "new_u_ring capacity =
     map_option
       (\<lambda>p. let c = min p kMaxCapacity in
            \<lparr>u_head = 0, u_tail = 0, u_buffer = replicate c 0, u_capacity = c, u_mask = sz_sub c 1,
             u_total_writes = 0, u_total_reads = 0, u_failed_writes = 0, u_failed_reads = 0\<rparr>)
       (NextPowerOfTwo (max capacity kMinCapacity))"

section \<open>Copying\<close>

text \<open>The free space for a head and a tail, and the copy with its wrap-around.\<close>

definition available_space :: "nat \<Rightarrow> nat \<Rightarrow> nat \<Rightarrow> nat" where
  "available_space capacity head tail =
     (if tail \<ge> head then sz_sub (sz_sub capacity (sz_sub tail head)) 1
      else sz_sub (sz_sub head tail) 1)"

definition copy_in :: "nat \<Rightarrow> nat \<Rightarrow> byte list \<Rightarrow> byte list \<Rightarrow> byte list option" where
  "copy_in capacity write_pos src buf =
     (if sz_add write_pos (length src) \<le> capacity then mem_write write_pos src buf
      else let first_part = sz_sub capacity write_pos in
           if length src < first_part then None
           else case mem_write write_pos (take first_part src) buf of
                  None \<Rightarrow> None
                | Some buf1 \<Rightarrow> mem_write 0 (drop first_part src) buf1)"

section \<open>Writing\<close>

text \<open>
  \<open>Write\<close>, from the point where it has loaded the tail and the head: another thread may have
  changed the ring since.
\<close>

definition u_write_loaded :: "nat \<Rightarrow> nat \<Rightarrow> byte list \<Rightarrow> u_ring \<Rightarrow> (u_error \<times> u_ring) option" where
  "u_write_loaded current_tail current_head data r =
     (if length data > available_space (u_capacity r) current_head current_tail
      then Some (kInsufficientCapacity, r\<lparr>u_failed_writes := sz_add (u_failed_writes r) 1\<rparr>)
      else map_option
             (\<lambda>buf. (kSuccess,
                r\<lparr>u_buffer := buf, u_tail := sz_add current_tail (length data) AND u_mask r,
                  u_total_writes := sz_add (u_total_writes r) 1\<rparr>))
             (copy_in (u_capacity r) current_tail data (u_buffer r)))"

definition u_Write :: "byte list \<Rightarrow> u_ring \<Rightarrow> (u_error \<times> u_ring) option" where
  "u_Write data r =
     (if data = [] then Some (kSuccess, r)
      else if length data > kMaxCapacity
      then Some (kInvalidArgument, r\<lparr>u_failed_writes := sz_add (u_failed_writes r) 1\<rparr>)
      else u_write_loaded (u_tail r) (u_head r) data r)"

text \<open>The result pointers of \<open>PrepareWrite\<close> may be null.\<close>

definition PrepareWrite :: "bool \<Rightarrow> bool \<Rightarrow> u_ring \<Rightarrow> u_error \<times> (nat \<times> nat) option" where
  "PrepareWrite head_ptr tail_ptr r =
     (if \<not> head_ptr \<or> \<not> tail_ptr then (kInvalidArgument, None) else (kSuccess, Some (u_head r, u_tail r)))"

definition CommitWrite :: "nat \<Rightarrow> u_ring \<Rightarrow> u_error \<times> u_ring" where
  "CommitWrite new_tail r =
     (kSuccess, r\<lparr>u_tail := new_tail, u_total_writes := sz_add (u_total_writes r) 1\<rparr>)"

text \<open>The number of bytes written, the new local tail, and the ring.\<close>

definition DoWrite :: "byte list option \<Rightarrow> nat \<Rightarrow> nat option \<Rightarrow> u_ring \<Rightarrow> (nat \<times> nat option \<times> u_ring) option" where
  "DoWrite data head tail r =
     (case (data, tail) of
        (Some src, Some t) \<Rightarrow>
          if length src = 0 then Some (0, tail, r)
          else if length src > available_space (u_capacity r) head t then Some (0, tail, r)
          else map_option
                 (\<lambda>buf. (length src, Some (sz_add t (length src) AND u_mask r), r\<lparr>u_buffer := buf\<rparr>))
                 (copy_in (u_capacity r) t src (u_buffer r))
      | _ \<Rightarrow> Some (0, tail, r))"

section \<open>Reading\<close>

text \<open>The number of readable bytes for a head and a tail.\<close>

definition data_size :: "nat \<Rightarrow> nat \<Rightarrow> nat \<Rightarrow> nat" where
  "data_size capacity head tail =
     (if tail > head then sz_sub tail head else sz_add (sz_sub capacity head) tail)"

definition copy_out :: "nat \<Rightarrow> nat \<Rightarrow> nat \<Rightarrow> byte list \<Rightarrow> byte list option" where
  "copy_out capacity head n buf =
     (if sz_add head n \<le> capacity then mem_read head n buf
      else let first_part = sz_sub capacity head in
           case mem_read head first_part buf of
             None \<Rightarrow> None
           | Some xs \<Rightarrow> map_option ((@) xs) (mem_read 0 (sz_sub n first_part) buf))"

definition u_ReadAll :: "u_ring \<Rightarrow> (byte list \<times> u_ring) option" where
  "u_ReadAll r =
     (let current_head = u_head r; current_tail = u_tail r in
      if current_head = current_tail then Some ([], r)
      else map_option
             (\<lambda>result. (result, r\<lparr>u_head := current_tail, u_total_reads := sz_add (u_total_reads r) 1\<rparr>))
             (copy_out (u_capacity r) current_head (data_size (u_capacity r) current_head current_tail)
               (u_buffer r)))"

definition CommitRead :: "nat \<Rightarrow> u_ring \<Rightarrow> u_error \<times> u_ring" where
  "CommitRead new_head r =
     (if new_head \<ge> u_capacity r then (kInvalidArgument, r) else (kSuccess, r\<lparr>u_head := new_head\<rparr>))"

definition GetStatistics :: "u_ring \<Rightarrow> u_statistics" where
  "GetStatistics r =
     \<lparr>st_total_writes = u_total_writes r, st_total_reads = u_total_reads r,
      st_failed_writes = u_failed_writes r, st_failed_reads = u_failed_reads r,
      st_current_size =
        (if u_tail r \<ge> u_head r then sz_sub (u_tail r) (u_head r)
         else sz_add (sz_sub (u_capacity r) (u_head r)) (u_tail r))\<rparr>"

definition GetCapacity :: "u_ring \<Rightarrow> nat" where
  "GetCapacity r = u_capacity r"

definition GetHead :: "u_ring \<Rightarrow> nat" where
  "GetHead r = u_head r"

definition GetTail :: "u_ring \<Rightarrow> nat" where
  "GetTail r = u_tail r"

section \<open>The queue a ring stands for\<close>

definition u_wf :: "u_ring \<Rightarrow> bool" where
  "u_wf r \<longleftrightarrow>
     (\<exists>k. u_capacity r = 2 ^ k) \<and> u_capacity r \<le> kMaxCapacity \<and> u_mask r = u_capacity r - 1 \<and>
     length (u_buffer r) = u_capacity r \<and> u_head r < u_capacity r \<and> u_tail r < u_capacity r"

definition u_size :: "u_ring \<Rightarrow> nat" where
  "u_size r = (if u_head r \<le> u_tail r then u_tail r - u_head r else u_capacity r - u_head r + u_tail r)"

text \<open>The position \<open>i\<close> bytes after the head.\<close>

definition u_pos :: "nat \<Rightarrow> nat \<Rightarrow> nat \<Rightarrow> nat" where
  "u_pos capacity head i = (if head + i < capacity then head + i else head + i - capacity)"

definition contents :: "u_ring \<Rightarrow> byte list" where
  "contents r = map (\<lambda>i. u_buffer r ! u_pos (u_capacity r) (u_head r) i) [0..<u_size r]"

lemma nth_contents: "i < u_size r \<Longrightarrow> contents r ! i = u_buffer r ! u_pos (u_capacity r) (u_head r) i"
  by (simp add: contents_def)

lemma length_contents [simp]: "length (contents r) = u_size r"
  by (simp add: contents_def)

lemma u_size_updates [simp]:
  "u_size (r\<lparr>u_buffer := buf\<rparr>) = u_size r" "u_size (r\<lparr>u_failed_writes := x\<rparr>) = u_size r"
  by (simp_all add: u_size_def)

lemma u_wf_bounds:
  assumes "u_wf r"
  shows "u_capacity r \<le> 16777216" and "u_head r < u_capacity r" and "u_tail r < u_capacity r"
    and "length (u_buffer r) = u_capacity r" and "u_size r < u_capacity r"
    and "0 < u_capacity r"
proof -
  show "u_capacity r \<le> 16777216" "u_head r < u_capacity r" "u_tail r < u_capacity r"
      "length (u_buffer r) = u_capacity r"
    using assms by (simp_all add: u_wf_def kMaxCapacity_def)
  then show "u_size r < u_capacity r" "0 < u_capacity r" by (auto simp: u_size_def)
qed

lemma u_mask_wrap:
  assumes "u_wf r" and "x < 2 * u_capacity r"
  shows "x AND u_mask r = (if x < u_capacity r then x else x - u_capacity r)"
proof -
  from assms(1) obtain k where k: "u_capacity r = 2 ^ k" "u_mask r = mask k"
    by (auto simp: u_wf_def mask_eq_exp_minus_1)
  have "x AND u_mask r = take_bit k x" by (simp only: k(2) take_bit_eq_mask)
  also have "\<dots> = x mod u_capacity r" by (simp only: k(1) take_bit_eq_mod)
  also have "\<dots> = (if x < u_capacity r then x else x - u_capacity r)"
    using assms(2) by (simp add: le_mod_geq)
  finally show ?thesis .
qed

lemma available_space_eq:
  "u_wf r \<Longrightarrow> available_space (u_capacity r) (u_head r) (u_tail r) = u_capacity r - 1 - u_size r"
  using u_wf_bounds [of r] by (auto simp: available_space_def u_size_def)

lemma data_size_eq:
  "u_wf r \<Longrightarrow> u_head r \<noteq> u_tail r \<Longrightarrow> data_size (u_capacity r) (u_head r) (u_tail r) = u_size r"
  using u_wf_bounds [of r] by (auto simp: data_size_def u_size_def)

text \<open>What the copy leaves at every position.\<close>

lemma copy_in_eq:
  assumes "length buf = capacity" and "capacity \<le> 16777216" and "pos < capacity" and "length src < capacity"
  shows "\<exists>buf'. copy_in capacity pos src buf = Some buf' \<and> length buf' = capacity \<and>
    (\<forall>i < capacity. buf' ! i =
       (if pos \<le> i \<and> i < pos + length src then src ! (i - pos)
        else if i + capacity < pos + length src then src ! (i + capacity - pos)
        else buf ! i))"
proof (cases "pos + length src \<le> capacity")
  case True
  then show ?thesis
    using assms by (auto simp: copy_in_def mem_write_def nth_append)
next
  case False
  let ?f = "capacity - pos"
  let ?b1 = "take pos buf @ take ?f src"
  have b1: "mem_write pos (take ?f src) buf = Some ?b1" "length ?b1 = capacity"
    using assms False by (auto simp: mem_write_def)
  have "mem_write 0 (drop ?f src) ?b1 = Some (drop ?f src @ drop (length src - ?f) ?b1)"
    using assms False b1(2) by (simp add: mem_write_def)
  then have "copy_in capacity pos src buf = Some (drop ?f src @ drop (length src - ?f) ?b1)"
    using assms False b1(1) by (simp add: copy_in_def Let_def)
  moreover have "(drop ?f src @ drop (length src - ?f) ?b1) ! i =
       (if pos \<le> i \<and> i < pos + length src then src ! (i - pos)
        else if i + capacity < pos + length src then src ! (i + capacity - pos) else buf ! i)"
    if "i < capacity" for i
  proof -
    have "?f + i = i + capacity - pos" using assms(3) by simp
    then show ?thesis using assms False that by (auto simp: nth_append)
  qed
  ultimately show ?thesis using assms False by auto
qed

lemma copy_out_eq:
  assumes "length buf = capacity" and "capacity \<le> 16777216" and "head < capacity" and "n < capacity"
  shows "copy_out capacity head n buf = Some (map (\<lambda>i. buf ! u_pos capacity head i) [0..<n])"
proof (cases "head + n \<le> capacity")
  case True
  then have "copy_out capacity head n buf = Some (take n (drop head buf))"
    using assms by (simp add: copy_out_def mem_read_def)
  moreover have "take n (drop head buf) = map (\<lambda>i. buf ! u_pos capacity head i) [0..<n]"
    using assms True by (intro nth_equalityI) (auto simp: u_pos_def)
  ultimately show ?thesis by simp
next
  case False
  let ?f = "capacity - head"
  have "copy_out capacity head n buf = Some (drop head buf @ take (n - ?f) buf)"
    using assms False by (simp add: copy_out_def mem_read_def Let_def)
  moreover have "drop head buf @ take (n - ?f) buf = map (\<lambda>i. buf ! u_pos capacity head i) [0..<n]"
    using assms False
    by (intro nth_equalityI) (auto simp: u_pos_def nth_append intro!: arg_cong [where f = "nth buf"])
  ultimately show ?thesis by simp
qed

text \<open>Appending behind the tail: the bytes before stay, the new ones follow.\<close>

lemma append_contents:
  assumes "u_wf r" and "length src \<le> u_capacity r - 1 - u_size r"
  obtains buf where "copy_in (u_capacity r) (u_tail r) src (u_buffer r) = Some buf"
    and "length buf = u_capacity r"
    and "\<And>i. i < u_size r \<Longrightarrow> buf ! u_pos (u_capacity r) (u_head r) i = contents r ! i"
    and "\<And>i. i < length src \<Longrightarrow> buf ! u_pos (u_capacity r) (u_head r) (u_size r + i) = src ! i"
proof -
  note b = u_wf_bounds [OF assms(1)]
  have "length src < u_capacity r" using assms(2) b(6) by simp
  from copy_in_eq [OF b(4,1,3) this] obtain buf where
    buf: "copy_in (u_capacity r) (u_tail r) src (u_buffer r) = Some buf" "length buf = u_capacity r"
      "\<And>i. i < u_capacity r \<Longrightarrow> buf ! i =
        (if u_tail r \<le> i \<and> i < u_tail r + length src then src ! (i - u_tail r)
         else if i + u_capacity r < u_tail r + length src then src ! (i + u_capacity r - u_tail r)
         else u_buffer r ! i)"
    by blast
  have pos: "u_pos (u_capacity r) (u_head r) i < u_capacity r" if "i < u_capacity r" for i
    using that b(2) by (auto simp: u_pos_def)
  show thesis
  proof (rule that [OF buf(1,2)])
    fix i
    assume i: "i < u_size r"
    let ?p = "u_pos (u_capacity r) (u_head r) i"
    have n: "\<not> (u_tail r \<le> ?p \<and> ?p < u_tail r + length src)" "\<not> ?p + u_capacity r < u_tail r + length src"
      using i assms(2) b by (auto simp: u_pos_def u_size_def split: if_splits)
    have "i < u_capacity r" using i b(5) by simp
    from buf(3) [OF pos [OF this]] have "buf ! ?p = u_buffer r ! ?p"
      unfolding if_not_P [OF n(1)] if_not_P [OF n(2)] .
    then show "buf ! ?p = contents r ! i" using i by (simp add: contents_def)
  next
    fix i
    assume i: "i < length src"
    let ?p = "u_pos (u_capacity r) (u_head r) (u_size r + i)"
    have lt: "u_size r + i < u_capacity r" using i assms(2) by simp
    have "?p = (if u_tail r + i < u_capacity r then u_tail r + i else u_tail r + i - u_capacity r)"
      using lt b(2,3) by (auto simp: u_pos_def u_size_def)
    then show "buf ! ?p = src ! i" using buf(3) [OF pos [OF lt]] i lt b(2,3) by auto
  qed
qed

text \<open>The state after an append.\<close>

lemma append_state:
  assumes "u_wf r" and "length src \<le> u_capacity r - 1 - u_size r"
    and "copy_in (u_capacity r) (u_tail r) src (u_buffer r) = Some buf"
    and "r' = r\<lparr>u_buffer := buf, u_tail := sz_add (u_tail r) (length src) AND u_mask r,
               u_total_writes := w\<rparr>"
  shows "u_wf r'" and "contents r' = contents r @ src"
proof -
  note b = u_wf_bounds [OF assms(1)]
  obtain buf' where buf: "copy_in (u_capacity r) (u_tail r) src (u_buffer r) = Some buf'"
      "length buf' = u_capacity r"
      "\<And>i. i < u_size r \<Longrightarrow> buf' ! u_pos (u_capacity r) (u_head r) i = contents r ! i"
      "\<And>i. i < length src \<Longrightarrow> buf' ! u_pos (u_capacity r) (u_head r) (u_size r + i) = src ! i"
    using append_contents [OF assms(1,2)] by metis
  have same: "buf' = buf" using buf(1) assms(3) by simp
  have tail: "u_tail r' = (if u_tail r + length src < u_capacity r then u_tail r + length src
      else u_tail r + length src - u_capacity r)"
    using assms(2,4) b u_mask_wrap [OF assms(1), of "u_tail r + length src"] by simp
  show "u_wf r'"
    using assms(1,2,4) buf(2) tail b unfolding same by (auto simp: u_wf_def)
  have size: "u_size r' = u_size r + length src"
    using assms(2) b tail by (auto simp: u_size_def assms(4))
  show "contents r' = contents r @ src"
  proof (rule nth_equalityI)
    show "length (contents r') = length (contents r @ src)" by (simp add: size)
  next
    fix i
    assume "i < length (contents r')"
    then have i: "i < u_size r + length src" by (simp add: size)
    have "contents r' ! i = u_buffer r' ! u_pos (u_capacity r') (u_head r') i"
      using i by (simp add: contents_def size)
    then have "contents r' ! i = buf ! u_pos (u_capacity r) (u_head r) i" by (simp add: assms(4))
    also have "buf ! u_pos (u_capacity r) (u_head r) i = (contents r @ src) ! i"
    proof (cases "i < u_size r")
      case True
      then show ?thesis using buf(3) [of i] unfolding same by (simp add: nth_append)
    next
      case False
      then have "i - u_size r < length src" "u_size r + (i - u_size r) = i" using i by simp_all
      with buf(4) [of "i - u_size r"] False show ?thesis unfolding same by (simp add: nth_append)
    qed
    finally show "contents r' ! i = (contents r @ src) ! i" .
  qed
qed

section \<open>The operations on the queue\<close>

lemma u_Write_spec:
  assumes "u_wf r"
  shows "\<exists>e r'. u_Write data r = Some (e, r') \<and> u_wf r' \<and>
    (if data = [] then e = kSuccess \<and> r' = r
     else if kMaxCapacity < length data then e = kInvalidArgument \<and> contents r' = contents r
     else if u_capacity r - 1 < u_size r + length data then e = kInsufficientCapacity \<and> contents r' = contents r
     else e = kSuccess \<and> contents r' = contents r @ data)"
proof -
  note b = u_wf_bounds [OF assms]
  have fail: "u_wf (r\<lparr>u_failed_writes := x\<rparr>)" "contents (r\<lparr>u_failed_writes := x\<rparr>) = contents r" for x
    using assms by (simp_all add: u_wf_def contents_def u_size_def)
  have room: "length data > available_space (u_capacity r) (u_head r) (u_tail r) \<longleftrightarrow>
      u_capacity r - 1 < u_size r + length data"
    using available_space_eq [OF assms] b(5) by auto
  show ?thesis
  proof (cases "data = [] \<or> kMaxCapacity < length data \<or> u_capacity r - 1 < u_size r + length data")
    case True
    then show ?thesis using assms fail room by (auto simp: u_Write_def u_write_loaded_def)
  next
    case False
    then have fits: "length data \<le> u_capacity r - 1 - u_size r" by arith
    obtain buf where buf: "copy_in (u_capacity r) (u_tail r) data (u_buffer r) = Some buf"
      using append_contents [OF assms fits] by metis
    from append_state [OF assms fits buf refl, of "sz_add (u_total_writes r) 1"] False buf room
    show ?thesis by (simp add: u_Write_def u_write_loaded_def)
  qed
qed

lemma u_ReadAll_spec:
  assumes "u_wf r"
  shows "\<exists>r'. u_ReadAll r = Some (contents r, r') \<and> u_wf r' \<and> contents r' = []"
proof (cases "u_head r = u_tail r")
  case True
  then show ?thesis using assms by (simp add: u_ReadAll_def contents_def u_size_def)
next
  case False
  note b = u_wf_bounds [OF assms]
  have "copy_out (u_capacity r) (u_head r) (u_size r) (u_buffer r) = Some (contents r)"
    using copy_out_eq [OF b(4,1,2,5)] by (simp add: contents_def)
  then show ?thesis
    using assms False data_size_eq [OF assms False]
    by (simp add: u_ReadAll_def Let_def contents_def u_size_def u_wf_def)
qed

text \<open>Reading as much as is there, or less, through \<open>CommitRead\<close> of a position behind the head.\<close>

lemma CommitRead_spec:
  assumes "u_wf r" and "n \<le> u_size r"
  shows "\<exists>r'. CommitRead (u_pos (u_capacity r) (u_head r) n) r = (kSuccess, r') \<and> u_wf r' \<and>
    contents r' = drop n (contents r)"
proof -
  note b = u_wf_bounds [OF assms(1)]
  let ?h = "u_pos (u_capacity r) (u_head r) n"
  let ?r = "r\<lparr>u_head := ?h\<rparr>"
  have h: "?h < u_capacity r" using assms(2) b by (auto simp: u_pos_def)
  have size: "u_size ?r = u_size r - n"
    using assms(2) b by (auto simp: u_size_def u_pos_def)
  have pos: "u_pos (u_capacity r) ?h i = u_pos (u_capacity r) (u_head r) (n + i)" if "i < u_size r - n" for i
    using that assms(2) b by (auto simp: u_pos_def)
  have "contents ?r = drop n (contents r)"
  proof (rule nth_equalityI)
    show "length (contents ?r) = length (drop n (contents r))" by (simp add: size)
  next
    fix i
    assume "i < length (contents ?r)"
    then have i: "i < u_size r - n" by (simp add: size)
    then have "contents ?r ! i = u_buffer r ! u_pos (u_capacity r) ?h i"
      using nth_contents [of i ?r] by (simp add: size)
    then show "contents ?r ! i = drop n (contents r) ! i"
      using i assms(2) by (simp add: pos nth_contents)
  qed
  then show ?thesis using assms(1) h by (simp add: CommitRead_def u_wf_def)
qed

text \<open>A write in pieces: \<open>DoWrite\<close> against the loaded head and a local tail, then \<open>CommitWrite\<close>.\<close>

lemma DoWrite_CommitWrite:
  assumes "u_wf r" and "src \<noteq> []" and "length src \<le> u_capacity r - 1 - u_size r"
  shows "\<exists>t r1. DoWrite (Some src) (u_head r) (Some (u_tail r)) r = Some (length src, Some t, r1) \<and>
    u_head r1 = u_head r \<and> u_tail r1 = u_tail r \<and> contents r1 = contents r \<and>
    u_wf (snd (CommitWrite t r1)) \<and> contents (snd (CommitWrite t r1)) = contents r @ src"
proof -
  note b = u_wf_bounds [OF assms(1)]
  obtain buf where buf: "copy_in (u_capacity r) (u_tail r) src (u_buffer r) = Some buf"
      "\<And>i. i < u_size r \<Longrightarrow> buf ! u_pos (u_capacity r) (u_head r) i = contents r ! i"
    using append_contents [OF assms(1,3)] by metis
  let ?t = "sz_add (u_tail r) (length src) AND u_mask r"
  have space: "\<not> length src > available_space (u_capacity r) (u_head r) (u_tail r)"
    using available_space_eq [OF assms(1)] assms(3) by simp
  have "contents (r\<lparr>u_buffer := buf\<rparr>) = contents r"
    using buf(2) by (intro nth_equalityI) (simp_all add: contents_def)
  moreover have "snd (CommitWrite ?t (r\<lparr>u_buffer := buf\<rparr>)) =
      r\<lparr>u_buffer := buf, u_tail := ?t, u_total_writes := sz_add (u_total_writes r) 1\<rparr>"
    by (simp add: CommitWrite_def)
  ultimately show ?thesis
    using append_state [OF assms(1,3) buf(1) refl, of "sz_add (u_total_writes r) 1"] buf(1) space assms(2)
    by (simp add: DoWrite_def)
qed

section \<open>The constructor\<close>

lemma has_single_bit_pow2: "has_single_bit n \<longleftrightarrow> (\<exists>k. n = 2 ^ k)"
proof -
  have "int (n AND (n - 1)) = int n AND (int n - 1)" if "n \<noteq> 0"
    using that by (simp add: of_nat_and_eq of_nat_diff)
  moreover have "n AND (n - 1) = 0 \<longleftrightarrow> int (n AND (n - 1)) = 0" by simp
  ultimately have "has_single_bit n \<longleftrightarrow> is_pow2 (int n)"
    unfolding has_single_bit_def is_pow2_def by (cases "n = 0") simp_all
  also have "\<dots> \<longleftrightarrow> (\<exists>k. n = 2 ^ k)"
    unfolding is_pow2_iff by (metis of_nat_eq_iff of_nat_numeral of_nat_power)
  finally show ?thesis .
qed

lemma bit_ceil_from_spec:
  "bit_ceil_from (2 ^ j) n = p \<Longrightarrow> \<exists>k \<ge> j. p = 2 ^ k \<and> n \<le> p \<and> (k > j \<longrightarrow> 2 ^ (k - 1) < n)"
proof (induction "2 ^ j :: nat" n arbitrary: j rule: bit_ceil_from.induct)
  case (1 n)
  show ?case
  proof (cases "n \<le> 2 ^ j")
    case True
    then show ?thesis using "1.prems" by (intro exI [of _ j]) (simp add: bit_ceil_from.simps)
  next
    case False
    then have "bit_ceil_from (2 ^ Suc j) n = p"
      using "1.prems" by (simp add: bit_ceil_from.simps [of "2 ^ j"])
    with "1.hyps" [of "Suc j"] False obtain k where
      k: "Suc j \<le> k" "p = 2 ^ k" "n \<le> p" "Suc j < k \<longrightarrow> 2 ^ (k - 1) < n"
      by auto
    have "2 ^ (k - 1) < n" if "j < k"
      using k(1,4) False that by (cases "k = Suc j") auto
    then show ?thesis using k by (intro exI [of _ k]) auto
  qed
qed

lemma NextPowerOfTwo_Some: "n \<le> 2 ^ 63 \<Longrightarrow> \<exists>p. NextPowerOfTwo n = Some p"
  by (cases "n = 0"; cases "has_single_bit n") (simp_all add: NextPowerOfTwo_def)

text \<open>The least power of two not below \<open>n\<close>.\<close>

lemma NextPowerOfTwo_spec:
  assumes "NextPowerOfTwo n = Some p"
  shows "(\<exists>k. p = 2 ^ k) \<and> n \<le> p \<and> (\<forall>k. n \<le> 2 ^ k \<longrightarrow> p \<le> 2 ^ k)"
proof (cases "n = 0 \<or> has_single_bit n")
  case True
  then show ?thesis
    using assms by (auto simp: NextPowerOfTwo_def has_single_bit_pow2 intro: exI [of _ 0])
next
  case False
  then have "bit_ceil_from (2 ^ 0) n = p" using assms by (auto simp: NextPowerOfTwo_def split: if_splits)
  from bit_ceil_from_spec [OF this] obtain k where
    k: "p = 2 ^ k" "n \<le> p" "0 < k \<longrightarrow> 2 ^ (k - 1) < n" by blast
  have "p \<le> 2 ^ j" if "n \<le> 2 ^ j" for j
  proof (cases "k = 0")
    case False
    then have "2 ^ (k - 1) < n" using k(3) by simp
    also note that
    finally have "k - 1 < j" by simp
    then show ?thesis unfolding k(1) by (intro power_increasing) auto
  qed (simp add: k)
  then show ?thesis using k by blast
qed

lemma new_u_ring_spec:
  assumes "capacity \<le> 2 ^ 63"
  shows "\<exists>r. new_u_ring capacity = Some r \<and> u_wf r \<and> contents r = [] \<and>
    kMinCapacity \<le> u_capacity r \<and> (capacity \<le> kMaxCapacity \<longrightarrow> capacity \<le> u_capacity r)"
proof -
  let ?m = "max capacity kMinCapacity"
  have "?m \<le> 2 ^ 63" using assms by (simp add: kMinCapacity_def)
  then obtain p where p: "NextPowerOfTwo ?m = Some p" using NextPowerOfTwo_Some by blast
  note s = NextPowerOfTwo_spec [OF p]
  have max2: "kMaxCapacity = 2 ^ 24" by (simp add: kMaxCapacity_def)
  obtain k where k: "min p kMaxCapacity = 2 ^ k" using s unfolding max2 by (metis min_def)
  have "min p kMaxCapacity \<le> 2 ^ 24" "1 \<le> min p kMaxCapacity" using k max2 by auto
  then have "sz_sub (min p kMaxCapacity) 1 = min p kMaxCapacity - 1" by (intro sz_sub_small) auto
  then show ?thesis
    using p k s by (auto simp: new_u_ring_def Let_def u_wf_def contents_def u_size_def kMinCapacity_def
        kMaxCapacity_def)
qed

section \<open>Properties\<close>


text \<open>A run of the two sides of a ring: \<open>Some data\<close> writes, \<open>None\<close> reads everything. The result is the
  data whose write succeeded, the data read, and the ring.\<close>

fun u_run :: "byte list option list \<Rightarrow> u_ring \<Rightarrow> (byte list \<times> byte list \<times> u_ring) option" where
  "u_run [] r = Some ([], [], r)"
| "u_run (Some data # ops) r =
     (case u_Write data r of
        None \<Rightarrow> None
      | Some (e, r1) \<Rightarrow>
          map_option (\<lambda>(acc, out, r'). ((if e = kSuccess then data else []) @ acc, out, r')) (u_run ops r1))"
| "u_run (None # ops) r =
     (case u_ReadAll r of
        None \<Rightarrow> None
      | Some (data, r1) \<Rightarrow> map_option (\<lambda>(acc, out, r'). (acc, data @ out, r')) (u_run ops r1))"

lemma u_run_fifo:
  "u_wf r \<Longrightarrow> \<exists>acc out r'. u_run ops r = Some (acc, out, r') \<and> u_wf r' \<and> contents r @ acc = out @ contents r'"
proof (induction ops r rule: u_run.induct)
  case (2 data ops r)
  obtain e r1 where w: "u_Write data r = Some (e, r1)" "u_wf r1"
      "contents r1 = contents r @ (if e = kSuccess then data else [])"
    using u_Write_spec [OF 2(2), of data] by (auto split: if_splits)
  then show ?case using 2(1) [OF w(1) refl w(2)] by auto
next
  case (3 ops r)
  obtain r1 where "u_ReadAll r = Some (contents r, r1)" "u_wf r1" "contents r1 = []"
    using u_ReadAll_spec [OF 3(2)] by blast
  then show ?case using 3(1) [of "(contents r, r1)" "contents r" r1] by auto
qed simp

text \<open>C35: The byte ring of the Unity bridge is a lossless queue: whatever writes and reads follow its
  construction, every call returns, and the bytes read so far followed by those still in the ring
  are exactly the bytes of the successful writes, in order.\<close>

theorem u_ring_fifo:
  assumes "capacity \<le> 2 ^ 63"
  shows "\<exists>r0 accepted out r. new_u_ring capacity = Some r0 \<and> u_run ops r0 = Some (accepted, out, r) \<and>
    u_wf r \<and> accepted = out @ contents r"
proof -
  obtain r0 where "new_u_ring capacity = Some r0" "u_wf r0" "contents r0 = []"
    using new_u_ring_spec [OF assms] by blast
  with u_run_fifo [OF this(2), of ops] show ?thesis by auto
qed

lemma u_ring_fifo_witness:
  "\<exists>r0 accepted out r. new_u_ring 100 = Some r0 \<and>
     u_run [Some [1, 2], None, Some [3]] r0 = Some (accepted, out, r) \<and> accepted = out @ contents r"
  using u_ring_fifo [of 100 "[Some [1, 2], None, Some [3]]"] by auto

lemma u_write_loaded_success:
  assumes "u_wf r" and "u_write_loaded (u_tail r) (u_head r) data r = Some (kSuccess, r')"
  obtains buf where "length data \<le> u_capacity r - 1 - u_size r"
    and "copy_in (u_capacity r) (u_tail r) data (u_buffer r) = Some buf"
    and "r' = r\<lparr>u_buffer := buf, u_tail := sz_add (u_tail r) (length data) AND u_mask r,
               u_total_writes := sz_add (u_total_writes r) 1\<rparr>"
  using assms(2) that by (auto simp: u_write_loaded_def available_space_eq [OF assms(1)] split: if_splits)

text \<open>Two overlapping \<open>Write\<close> calls lose data: when both read the same head and tail before either
  stores its tail, both report success and the ring holds only the bytes of the one that stored
  last.\<close>

lemma u_overlapping_writes:
  assumes "u_wf r" and "u_write_loaded (u_tail r) (u_head r) data1 r = Some (kSuccess, r1)"
    and "u_write_loaded (u_tail r) (u_head r) data2 r1 = Some (kSuccess, r2)"
  shows "u_wf r2 \<and> contents r2 = contents r @ data2"
proof -
  obtain buf1 where 1: "length data1 \<le> u_capacity r - 1 - u_size r"
      "copy_in (u_capacity r) (u_tail r) data1 (u_buffer r) = Some buf1"
      "r1 = r\<lparr>u_buffer := buf1, u_tail := sz_add (u_tail r) (length data1) AND u_mask r,
               u_total_writes := sz_add (u_total_writes r) 1\<rparr>"
    by (rule u_write_loaded_success [OF assms(1,2)])
  have buf1: "length buf1 = u_capacity r"
      "\<And>i. i < u_size r \<Longrightarrow> buf1 ! u_pos (u_capacity r) (u_head r) i = contents r ! i"
    using append_contents [OF assms(1) 1(1)] 1(2) by (metis option.inject)+
  define s where "s = r1\<lparr>u_tail := u_tail r\<rparr>"
  have s: "u_head s = u_head r" "u_tail s = u_tail r" "u_capacity s = u_capacity r" "u_mask s = u_mask r"
      "u_buffer s = buf1" "u_size s = u_size r"
    by (simp_all add: s_def 1(3) u_size_def)
  have wf: "u_wf s" using assms(1) buf1(1) by (simp add: u_wf_def s)
  have c: "contents s = contents r"
    by (rule nth_equalityI) (simp_all add: s(6) nth_contents s buf1(2))
  have "u_write_loaded (u_tail s) (u_head s) data2 s = Some (kSuccess, r2)"
    using assms(3) by (auto simp: u_write_loaded_def s 1(3) s_def split: if_splits)
  then obtain buf2 where 2: "length data2 \<le> u_capacity s - 1 - u_size s"
      "copy_in (u_capacity s) (u_tail s) data2 (u_buffer s) = Some buf2"
      "r2 = s\<lparr>u_buffer := buf2, u_tail := sz_add (u_tail s) (length data2) AND u_mask s,
               u_total_writes := sz_add (u_total_writes s) 1\<rparr>"
    by (rule u_write_loaded_success [OF wf])
  show ?thesis using append_state [OF wf 2] c by simp
qed

definition demo_u_ring :: u_ring where
  "demo_u_ring = \<lparr>u_head = 0, u_tail = 0, u_buffer = replicate 16 0, u_capacity = 16, u_mask = 15,
     u_total_writes = 0, u_total_reads = 0, u_failed_writes = 0, u_failed_reads = 0\<rparr>"

lemma demo_u_ring_ok: "u_wf demo_u_ring" "contents demo_u_ring = []"
proof -
  have "\<exists>k. (16 :: nat) = 2 ^ k" by (rule exI [of _ 4]) simp
  then show "u_wf demo_u_ring" by (simp add: u_wf_def demo_u_ring_def kMaxCapacity_def)
  show "contents demo_u_ring = []" by (simp add: contents_def u_size_def demo_u_ring_def)
qed

lemmas u_eval = demo_u_ring_def u_write_loaded_def available_space_def copy_in_def mem_write_def kMaxCapacity_def

lemma u_overlapping_writes_witness:
  "\<exists>r1 r2. u_write_loaded (u_tail demo_u_ring) (u_head demo_u_ring) [1] demo_u_ring = Some (kSuccess, r1) \<and>
     u_write_loaded (u_tail demo_u_ring) (u_head demo_u_ring) [2] r1 = Some (kSuccess, r2) \<and> contents r2 = [2]"
proof -
  obtain r1 where 1: "u_write_loaded (u_tail demo_u_ring) (u_head demo_u_ring) [1] demo_u_ring = Some (kSuccess, r1)"
    by (simp add: u_eval)
  then have "\<exists>r2. u_write_loaded (u_tail demo_u_ring) (u_head demo_u_ring) [2] r1 = Some (kSuccess, r2)"
    by (auto simp: u_eval)
  then obtain r2 where 2: "u_write_loaded (u_tail demo_u_ring) (u_head demo_u_ring) [2] r1 = Some (kSuccess, r2)"
    by blast
  show ?thesis using u_overlapping_writes [OF demo_u_ring_ok(1) 1 2] demo_u_ring_ok(2) 1 2 by auto
qed

end
