(* ===== verification/Unity_Context.thy ===== *)
theory Unity_Context
  imports Unity_Ring
begin

text \<open>
  \<open>UnityBattleContext\<close> (\<open>src/reference/unity_interop/UnityBattleContext.cpp\<close>): the life cycle of a
  battle with its two rings, and the splitting of the input bytes into messages.

  The battle, the message factory and the protobuf classes are not part of the repository; the
  record \<open>battle_env\<close> holds what the code calls of them, on a battle of any type \<open>'b\<close> and messages of
  any type \<open>'m\<close>.  The battle writes its output through the pointer to the output ring it is given.
  Sixteen-bit fields are read in little-endian order, as on the platforms the bridge is built for.
  Logging is left out.
\<close>

section \<open>The code outside the repository\<close>

type_synonym 'b battle_call = "'b \<times> u_ring option \<Rightarrow> exn option \<times> 'b \<times> u_ring option"

record ('b, 'm) battle_env =
  be_parseEnterInfo :: "byte list \<Rightarrow> bool"
  be_createEnterInfo :: "byte list \<Rightarrow> exn + bool"
  be_createBattle :: "byte list \<Rightarrow> exn + 'b"
  be_update :: "'b battle_call"
  be_pause :: "'b battle_call"
  be_resume :: "'b battle_call"
  be_headerSize :: nat
  be_createMessage :: "nat \<Rightarrow> 'm option"
  be_parseMessage :: "'m \<Rightarrow> byte list \<Rightarrow> 'm option"
  be_hasDispatcher :: "'b \<Rightarrow> bool"
  be_dispatch :: "nat \<Rightarrow> 'm \<Rightarrow> 'b battle_call"

section \<open>State\<close>

record 'b u_context =
  c_battle :: "'b option"
  c_input :: "u_ring option"
  c_output :: "u_ring option"
  c_initialized :: bool

definition new_UnityBattleContext :: "'b u_context" where
  "new_UnityBattleContext = \<lparr>c_battle = None, c_input = None, c_output = None, c_initialized = False\<rparr>"

definition Cleanup :: "'b u_context \<Rightarrow> 'b u_context" where
  "Cleanup c =
     (if \<not> c_initialized c then c
      else c\<lparr>c_battle := None, c_input := None, c_output := None, c_initialized := False\<rparr>)"

text \<open>\<open>catch (...)\<close> cleans up, whatever was thrown.\<close>

definition u_Initialize :: "('b, 'm) battle_env \<Rightarrow> byte list \<Rightarrow> 'b u_context \<Rightarrow> bool \<times> 'b u_context" where
  "u_Initialize env enterInfo c =
     (if c_initialized c then (True, c)
      else if \<not> be_parseEnterInfo env enterInfo then (False, c)
      else let c1 = c\<lparr>c_input := new_u_ring kDefaultCapacity, c_output := new_u_ring kDefaultCapacity\<rparr> in
           case be_createEnterInfo env enterInfo of
             Inl e \<Rightarrow> (False, Cleanup c1)
           | Inr False \<Rightarrow> (False, c1)
           | Inr True \<Rightarrow>
               (case be_createBattle env enterInfo of
                  Inl e \<Rightarrow> (False, Cleanup c1)
                | Inr b \<Rightarrow> (True, c1\<lparr>c_battle := Some b, c_initialized := True\<rparr>)))"

section \<open>Messages\<close>

definition on_battle :: "'b battle_call \<Rightarrow> 'b \<Rightarrow> 'b u_context \<Rightarrow> exn option \<times> 'b u_context" where
  "on_battle f b c =
     (let (x, b', out) = f (b, c_output c) in (x, c\<lparr>c_battle := Some b', c_output := out\<rparr>))"

definition parseAndDispatchMessage ::
  "('b, 'm) battle_env \<Rightarrow> nat \<Rightarrow> byte list \<Rightarrow> 'b u_context \<Rightarrow> (exn + bool) \<times> 'b u_context" where
  "parseAndDispatchMessage env messageId messageBody c =
     (case c_battle c of
        None \<Rightarrow> (Inr False, c)
      | Some b \<Rightarrow>
          (case be_createMessage env messageId of
             None \<Rightarrow> (Inr False, c)
           | Some m \<Rightarrow>
               (case be_parseMessage env m messageBody of
                  None \<Rightarrow> (Inr False, c)
                | Some message \<Rightarrow>
                    if be_hasDispatcher env b
                    then (case on_battle (be_dispatch env messageId message) b c of
                            (Some e, c') \<Rightarrow> (Inl e, c')
                          | (None, c') \<Rightarrow> (Inr True, c'))
                    else (Inr False, c))))"

definition read_u16 :: "byte list \<Rightarrow> nat \<Rightarrow> nat" where
  "read_u16 data i = unat (data ! i) + 256 * unat (data ! (i + 1))"

text \<open>The loop over the messages; the offset is where it stops.\<close>

function message_loop ::
  "('b, 'm) battle_env \<Rightarrow> byte list \<Rightarrow> nat \<Rightarrow> 'b u_context \<Rightarrow> exn option \<times> nat \<times> 'b u_context" where
  "message_loop env data offset c =
     (if offset < length data
      then if offset + be_headerSize env > length data then (None, offset, c)
           else if offset + 4 > length data then (Some OutOfBounds, offset, c)
           else let messageSize = read_u16 data offset;
                    messageId = read_u16 data (offset + 2)
                in if messageSize = 0 \<or> messageSize > 65535 then (None, offset, c)
                   else let totalMessageSize = be_headerSize env + messageSize in
                        if offset + totalMessageSize > length data then (None, offset, c)
                        else (case parseAndDispatchMessage env messageId
                                     (take messageSize (drop (offset + be_headerSize env) data)) c of
                                (Inl e, c') \<Rightarrow> (Some e, offset, c')
                              | (Inr parsed, c') \<Rightarrow> message_loop env data (offset + totalMessageSize) c')
      else (None, offset, c))"
  by pat_completeness auto
termination
  by (relation "measure (\<lambda>(env, data, offset, c). length data - offset)") auto

declare message_loop.simps [simp del]

text \<open>\<open>None\<close> is an access outside the ring.\<close>

definition ProcessIncomingMessages ::
  "('b, 'm) battle_env \<Rightarrow> 'b u_context \<Rightarrow> (exn option \<times> 'b u_context) option" where
  "ProcessIncomingMessages env c =
     (case (c_input c, c_battle c) of
        (Some ring, Some b) \<Rightarrow>
          (case u_ReadAll ring of
             None \<Rightarrow> None
           | Some (data, ring') \<Rightarrow>
               let c1 = c\<lparr>c_input := Some ring'\<rparr> in
               if data = [] then Some (None, c1)
               else (case message_loop env data 0 c1 of (x, _, c2) \<Rightarrow> Some (x, c2)))
      | _ \<Rightarrow> Some (None, c))"

section \<open>Update, pause, resume\<close>

definition Update :: "('b, 'm) battle_env \<Rightarrow> 'b u_context \<Rightarrow> (exn option \<times> 'b u_context) option" where
  "Update env c =
     (if \<not> c_initialized c \<or> c_battle c = None then Some (None, c)
      else case ProcessIncomingMessages env c of
             None \<Rightarrow> None
           | Some (Some e, c1) \<Rightarrow> Some (Some e, c1)
           | Some (None, c1) \<Rightarrow>
               (case c_battle c1 of None \<Rightarrow> Some (None, c1) | Some b \<Rightarrow> Some (on_battle (be_update env) b c1)))"

definition guarded :: "'b battle_call \<Rightarrow> 'b u_context \<Rightarrow> exn option \<times> 'b u_context" where
  "guarded f c =
     (if \<not> c_initialized c then (None, c)
      else case c_battle c of None \<Rightarrow> (None, c) | Some b \<Rightarrow> on_battle f b c)"

definition Pause :: "('b, 'm) battle_env \<Rightarrow> 'b u_context \<Rightarrow> exn option \<times> 'b u_context" where
  "Pause env c = guarded (be_pause env) c"

definition Resume :: "('b, 'm) battle_env \<Rightarrow> 'b u_context \<Rightarrow> exn option \<times> 'b u_context" where
  "Resume env c = guarded (be_resume env) c"

record buffer_info =
  bi_connected :: bool
  bi_total_size :: nat
  bi_input_stats :: u_statistics
  bi_output_stats :: u_statistics

definition no_statistics :: u_statistics where
  "no_statistics = \<lparr>st_total_writes = 0, st_total_reads = 0, st_failed_writes = 0, st_failed_reads = 0,
     st_current_size = 0\<rparr>"

definition GetBufferInfo :: "'b u_context \<Rightarrow> buffer_info" where
  "GetBufferInfo c =
     (case (c_initialized c, c_input c, c_output c) of
        (True, Some i, Some out) \<Rightarrow>
          \<lparr>bi_connected = True, bi_total_size = kDefaultCapacity * 2,
           bi_input_stats = GetStatistics i, bi_output_stats = GetStatistics out\<rparr>
      | _ \<Rightarrow> \<lparr>bi_connected = False, bi_total_size = 0, bi_input_stats = no_statistics,
               bi_output_stats = no_statistics\<rparr>)"

definition GetBufferTotalSize :: "'b u_context \<Rightarrow> nat" where
  "GetBufferTotalSize c = kDefaultCapacity"

section \<open>The life cycle\<close>

text \<open>An initialized context has a battle and both rings.\<close>

definition context_ok :: "'b u_context \<Rightarrow> bool" where
  "context_ok c \<longleftrightarrow>
     (c_initialized c \<longrightarrow> c_battle c \<noteq> None \<and> c_output c \<noteq> None \<and> (\<exists>r. c_input c = Some r \<and> u_wf r)) \<and>
     (\<not> c_initialized c \<longrightarrow> c_battle c = None)"

lemma context_ok_new: "context_ok new_UnityBattleContext"
  by (simp add: context_ok_def new_UnityBattleContext_def)

lemma default_ring: "\<exists>r. new_u_ring kDefaultCapacity = Some r \<and> u_wf r \<and> contents r = []"
  using new_u_ring_spec [of kDefaultCapacity] by (auto simp: kDefaultCapacity_def)

lemma context_ok_Initialize:
  assumes "context_ok c"
  shows "context_ok (snd (u_Initialize env info c))"
    and "fst (u_Initialize env info c) = c_initialized (snd (u_Initialize env info c))"
  using assms default_ring
  by (auto simp: u_Initialize_def context_ok_def Cleanup_def Let_def split: sum.splits bool.splits)

lemma context_ok_Cleanup: "context_ok c \<Longrightarrow> context_ok (Cleanup c) \<and> \<not> c_initialized (Cleanup c)"
  by (auto simp: context_ok_def Cleanup_def)

section \<open>Framing\<close>

definition u16_bytes :: "nat \<Rightarrow> byte list" where
  "u16_bytes n = [word_of_nat (n mod 256), word_of_nat (n div 256)]"

text \<open>A message as the other side writes it.\<close>

definition frame :: "nat \<times> byte list \<Rightarrow> byte list" where
  "frame m = u16_bytes (length (snd m)) @ u16_bytes (fst m) @ snd m"

definition frame_ok :: "nat \<times> byte list \<Rightarrow> bool" where
  "frame_ok m \<longleftrightarrow> fst m < 65536 \<and> 0 < length (snd m) \<and> length (snd m) < 65536"

text \<open>The beginning of a message that is not all there.\<close>

definition incomplete :: "byte list \<Rightarrow> bool" where
  "incomplete rest \<longleftrightarrow> (\<exists>m n. frame_ok m \<and> n < length (frame m) \<and> rest = take n (frame m))"

text \<open>The messages handled one after the other, until a handler throws.\<close>

fun handle_all ::
  "('b, 'm) battle_env \<Rightarrow> (nat \<times> byte list) list \<Rightarrow> 'b u_context \<Rightarrow> exn option \<times> 'b u_context" where
  "handle_all env [] c = (None, c)"
| "handle_all env (m # ms) c =
     (case parseAndDispatchMessage env (fst m) (snd m) c of
        (Inl e, c') \<Rightarrow> (Some e, c')
      | (Inr _, c') \<Rightarrow> handle_all env ms c')"

lemma read_u16_bytes:
  assumes "n < 65536" and "i + 2 \<le> length pre + 2" and "i = length pre"
  shows "read_u16 (pre @ u16_bytes n @ post) i = n"
proof -
  have "n mod 256 < 2 ^ 8" "n div 256 < 2 ^ 8" using assms(1) by simp_all
  then have "unat (word_of_nat (n mod 256) :: byte) = n mod 256"
      "unat (word_of_nat (n div 256) :: byte) = n div 256"
    by (simp_all add: unat_of_nat)
  then show ?thesis using assms(3) by (simp add: read_u16_def u16_bytes_def nth_append)
qed

lemma length_u16 [simp]: "length (u16_bytes n) = 2"
  by (simp add: u16_bytes_def)

lemma take_u16: "2 \<le> k \<Longrightarrow> take k (u16_bytes n) = u16_bytes n"
  by simp

lemma drop_frame [simp]: "drop 4 (frame m) = snd m"
  by (simp add: frame_def u16_bytes_def)

lemma length_frame [simp]: "length (frame m) = 4 + length (snd m)"
  by (simp add: frame_def u16_bytes_def)

lemma message_loop_incomplete:
  assumes "be_headerSize env = 4" and "incomplete rest"
  shows "message_loop env (pre @ rest) (length pre) c = (None, length pre, c)"
proof -
  obtain m n where m: "frame_ok m" "n < length (frame m)" "rest = take n (frame m)"
    using assms(2) by (auto simp: incomplete_def)
  show ?thesis
  proof (cases "n < 4")
    case True
    then show ?thesis using assms(1) m by (auto simp: message_loop.simps [of env])
  next
    case False
    then have "rest = u16_bytes (length (snd m)) @ take (n - 2) (u16_bytes (fst m) @ snd m)"
      using False by (simp add: m(3) frame_def take_append length_u16 take_u16)
    then have "read_u16 (pre @ rest) (length pre) = length (snd m)"
      using read_u16_bytes [of "length (snd m)" "length pre" pre] m(1) by (simp add: frame_ok_def)
    then show ?thesis
      using assms(1) m False by (simp add: message_loop.simps [of env] Let_def)
  qed
qed

text \<open>The loop hands every complete message over, in order, and drops an incomplete last one.\<close>

lemma message_loop_frames:
  assumes "be_headerSize env = 4" and "\<forall>m\<in>set ms. frame_ok m" and "incomplete rest"
  shows "\<exists>k. message_loop env (pre @ concat (map frame ms) @ rest) (length pre) c =
    (case handle_all env ms c of (x, c') \<Rightarrow> (x, k, c'))"
  using assms(2)
proof (induction ms arbitrary: pre c)
  case Nil
  then show ?case using message_loop_incomplete [OF assms(1,3)] by simp
next
  case (Cons m ms)
  let ?tl = "concat (map frame ms) @ rest"
  let ?data = "pre @ frame m @ ?tl"
  have ok: "fst m < 65536" "0 < length (snd m)" "length (snd m) < 65536"
    using Cons.prems by (simp_all add: frame_ok_def)
  have size: "read_u16 ?data (length pre) = length (snd m)"
    using read_u16_bytes [OF ok(3), of "length pre" pre] by (simp add: frame_def)
  have "?data = (pre @ u16_bytes (length (snd m))) @ u16_bytes (fst m) @ snd m @ ?tl"
    by (simp add: frame_def)
  then have mid: "read_u16 ?data (length pre + 2) = fst m"
    using read_u16_bytes [OF ok(1), of "length pre + 2" "pre @ u16_bytes (length (snd m))"]
    by (simp add: u16_bytes_def)
  have step: "message_loop env ?data (length pre) c =
      (case parseAndDispatchMessage env (fst m) (snd m) c of
         (Inl e, c') \<Rightarrow> (Some e, length pre, c')
       | (Inr parsed, c') \<Rightarrow> message_loop env ?data (length pre + (4 + length (snd m))) c')"
    using ok assms(1) by (simp add: message_loop.simps [of env ?data "length pre"] Let_def size mid [simplified])
  show ?case
  proof (cases "parseAndDispatchMessage env (fst m) (snd m) c")
    case (Pair r c')
    show ?thesis
    proof (cases r)
      case (Inl e)
      then show ?thesis using step Pair by simp
    next
      case (Inr parsed)
      have "\<exists>k. message_loop env ((pre @ frame m) @ ?tl) (length (pre @ frame m)) c' =
          (case handle_all env ms c' of (x, c') \<Rightarrow> (x, k, c'))"
        using Cons.IH [of "pre @ frame m" c'] Cons.prems by simp
      then show ?thesis using step Pair Inr by simp
    qed
  qed
qed

lemma incomplete_Nil: "incomplete []"
  unfolding incomplete_def
  by (rule exI [of _ "(0, [0])"], rule exI [of _ 0]) (simp add: frame_ok_def)

text \<open>One update: the input ring is emptied, its messages handled, then the battle moves on.\<close>

lemma handle_all_input: "c_input (snd (handle_all env ms c)) = c_input c"
proof (induction env ms c rule: handle_all.induct)
  case (2 env m ms c)
  have "c_input (snd (parseAndDispatchMessage env (fst m) (snd m) c)) = c_input c"
    by (auto simp: parseAndDispatchMessage_def on_battle_def split: option.split prod.split)
  with 2 show ?case by (auto split: prod.splits sum.splits)
qed simp

lemma Update_messages:
  assumes "context_ok c" and "c_initialized c" and "c_input c = Some ring"
    and "contents ring = concat (map frame ms) @ rest" and "contents ring \<noteq> []"
    and "be_headerSize env = 4" and "\<forall>m\<in>set ms. frame_ok m" and "incomplete rest"
  shows "\<exists>ring'. u_wf ring' \<and> contents ring' = [] \<and>
    Update env c =
      (case handle_all env ms (c\<lparr>c_input := Some ring'\<rparr>) of
         (Some e, c1) \<Rightarrow> Some (Some e, c1)
       | (None, c1) \<Rightarrow>
           (case c_battle c1 of None \<Rightarrow> Some (None, c1) | Some b \<Rightarrow> Some (on_battle (be_update env) b c1)))"
proof -
  have wf: "u_wf ring" and battle: "c_battle c \<noteq> None"
    using assms(1-3) by (simp_all add: context_ok_def)
  obtain ring' where ring': "u_ReadAll ring = Some (contents ring, ring')" "u_wf ring'" "contents ring' = []"
    using u_ReadAll_spec [OF wf] by blast
  let ?c1 = "c\<lparr>c_input := Some ring'\<rparr>"
  obtain k where k: "message_loop env (contents ring) 0 ?c1 =
      (case handle_all env ms ?c1 of (x, c') \<Rightarrow> (x, k, c'))"
    using message_loop_frames [OF assms(6-8), of "[]" ?c1] assms(4) by auto
  have "Update env c =
      (case handle_all env ms ?c1 of
         (Some e, c1) \<Rightarrow> Some (Some e, c1)
       | (None, c1) \<Rightarrow>
           (case c_battle c1 of None \<Rightarrow> Some (None, c1) | Some b \<Rightarrow> Some (on_battle (be_update env) b c1)))"
    using assms(2,3,5) battle ring'(1) k
    by (auto simp: Update_def ProcessIncomingMessages_def Let_def split: option.splits prod.splits)
  then show ?thesis using ring'(2,3) by blast
qed

section \<open>Property\<close>

text \<open>C36: \<open>Update\<close> recovers the messages written to the input ring: framed as size, id and body, they
  are dispatched one by one in the order written, whatever incomplete message follows them, and
  then the battle itself is updated.\<close>

theorem update_messages:
  assumes "context_ok c" and "c_initialized c" and "c_input c = Some ring" and "contents ring = []"
    and "u_Write (concat (map frame ms) @ rest) ring = Some (kSuccess, ring1)" and "ms \<noteq> []"
    and "be_headerSize env = 4" and "\<forall>m\<in>set ms. frame_ok m" and "incomplete rest"
  shows "\<exists>ring'. contents ring' = [] \<and>
    Update env (c\<lparr>c_input := Some ring1\<rparr>) =
      (case handle_all env ms (c\<lparr>c_input := Some ring'\<rparr>) of
         (Some e, c1) \<Rightarrow> Some (Some e, c1)
       | (None, c1) \<Rightarrow>
           (case c_battle c1 of None \<Rightarrow> Some (None, c1) | Some b \<Rightarrow> Some (on_battle (be_update env) b c1)))"
proof -
  have wf: "u_wf ring" using assms(1-3) by (auto simp: context_ok_def)
  have ring1: "u_wf ring1" "contents ring1 = concat (map frame ms) @ rest"
    using u_Write_spec [OF wf, of "concat (map frame ms) @ rest"] assms(4,5) by (auto split: if_splits)
  have "context_ok (c\<lparr>c_input := Some ring1\<rparr>)" using assms(1) ring1(1) by (auto simp: context_ok_def)
  moreover have "contents ring1 \<noteq> []" using ring1(2) assms(6) by (cases ms) (auto simp: frame_def u16_bytes_def)
  ultimately show ?thesis
    using Update_messages [of "c\<lparr>c_input := Some ring1\<rparr>" ring1 ms rest env] assms(2,7-9) ring1(2) by auto
qed

definition demo_battle_env :: "((nat \<times> byte list) list, byte list) battle_env" where
  "demo_battle_env = \<lparr>be_parseEnterInfo = (\<lambda>_. True), be_createEnterInfo = (\<lambda>_. Inr True),
     be_createBattle = (\<lambda>_. Inr []), be_update = (\<lambda>(b, q). (None, b, q)), be_pause = (\<lambda>(b, q). (None, b, q)),
     be_resume = (\<lambda>(b, q). (None, b, q)), be_headerSize = 4, be_createMessage = (\<lambda>_. Some []),
     be_parseMessage = (\<lambda>_ bytes. Some bytes), be_hasDispatcher = (\<lambda>_. True),
     be_dispatch = (\<lambda>i m (b, q). (None, b @ [(i, m)], q))\<rparr>"

lemma update_messages_witness:
  "\<exists>ring1 ring'. u_Write (frame (1, [9])) demo_u_ring = Some (kSuccess, ring1) \<and>
     Update demo_battle_env \<lparr>c_battle = Some [], c_input = Some ring1, c_output = Some demo_u_ring, c_initialized = True\<rparr> =
       Some (None, \<lparr>c_battle = Some [(1, [9])], c_input = Some ring', c_output = Some demo_u_ring, c_initialized = True\<rparr>)"
proof -
  let ?c = "\<lparr>c_battle = Some [], c_input = Some demo_u_ring, c_output = Some demo_u_ring, c_initialized = True\<rparr>"
  have "frame (1, [9]) = [1, 0, 1, 0, 9]" by (simp add: frame_def u16_bytes_def)
  then obtain ring1 where w: "u_Write (frame (1, [9])) demo_u_ring = Some (kSuccess, ring1)"
    by (simp add: u_Write_def u_eval)
  have c: "context_ok ?c" using demo_u_ring_ok by (simp add: context_ok_def)
  show ?thesis
    using update_messages [OF c _ _ demo_u_ring_ok(2), of "[(1, [9])]" "[]" ring1 demo_battle_env] w incomplete_Nil
    by (auto simp: demo_battle_env_def frame_ok_def parseAndDispatchMessage_def on_battle_def)
qed

end
