(* ===== verification/Unity_Export.thy ===== *)
theory Unity_Export
  imports Unity_Context
begin

text \<open>
  The C interface of the Unity bridge (\<open>src/reference/unity_interop/UnityExport.cpp\<close>): functions on
  an opaque handle that turn exceptions and misuse into result codes, and the last error.

  Objects are known by address; a null pointer is \<open>None\<close>.  A function returns \<open>Inl\<close> when it does
  not return at all: an access through a null or dangling pointer, or outside a ring.  The
  configuration managers are not part of the repository; \<open>x_env\<close> holds what is called of them.
\<close>

section \<open>State\<close>

datatype hgame_result =
    HGAME_BATTLE_SUCCESS
  | HGAME_BATTLE_ERROR_INVALID_PARAM
  | HGAME_BATTLE_ERROR_INIT_FAILED
  | HGAME_BATTLE_ERROR_NOT_INITIALIZED
  | HGAME_BATTLE_ERROR_UPDATE_FAILED
  | HGAME_BATTLE_ERROR_PAUSE_FAILED
  | HGAME_BATTLE_ERROR_RESUME_FAILED

fun result_code :: "hgame_result \<Rightarrow> int" where
  "result_code HGAME_BATTLE_SUCCESS = 0"
| "result_code HGAME_BATTLE_ERROR_INVALID_PARAM = -1"
| "result_code HGAME_BATTLE_ERROR_INIT_FAILED = -2"
| "result_code HGAME_BATTLE_ERROR_NOT_INITIALIZED = -3"
| "result_code HGAME_BATTLE_ERROR_UPDATE_FAILED = -4"
| "result_code HGAME_BATTLE_ERROR_PAUSE_FAILED = -5"
| "result_code HGAME_BATTLE_ERROR_RESUME_FAILED = -6"

text \<open>\<open>x_handle\<close> are the \<open>HGameBattleContext\<close> objects, \<open>x_contexts\<close> the live \<open>UnityBattleContext\<close> ones.\<close>

record ('b, 'g) x_world =
  x_handle :: "nat \<Rightarrow> nat option"
  x_contexts :: "nat \<rightharpoonup> 'b u_context"
  x_nextContext :: nat
  x_lastError :: string
  x_lastErrorCode :: hgame_result
  x_logCallback :: "nat option"
  x_log :: "(nat \<times> string \<times> int \<times> nat) list"
  x_config :: 'g
  x_hashResult :: string

record 'g x_env =
  xe_LoadConfigFromBytes :: "string \<Rightarrow> byte list \<Rightarrow> int \<Rightarrow> int \<Rightarrow> int \<Rightarrow> 'g \<Rightarrow> (exn + bool) \<times> 'g"
  xe_getTotalConfigHash :: "'g \<Rightarrow> exn + string"
  xe_setSkillJson :: "string \<Rightarrow> string \<Rightarrow> 'g \<Rightarrow> exn option \<times> 'g"
  xe_setEnabled :: "bool \<Rightarrow> 'g \<Rightarrow> exn option \<times> 'g"

section \<open>The last error\<close>

definition SetLastError :: "string \<Rightarrow> hgame_result \<Rightarrow> ('b, 'g) x_world \<Rightarrow> ('b, 'g) x_world" where
  "SetLastError error errorCode w = w\<lparr>x_lastError := error, x_lastErrorCode := errorCode\<rparr>"

definition ClearLastError :: "('b, 'g) x_world \<Rightarrow> ('b, 'g) x_world" where
  "ClearLastError w = w\<lparr>x_lastError := [], x_lastErrorCode := HGAME_BATTLE_SUCCESS\<rparr>"

definition HGameBattle_GetLastErrorCode :: "('b, 'g) x_world \<Rightarrow> int" where
  "HGameBattle_GetLastErrorCode w = result_code (x_lastErrorCode w)"

definition HGameBattle_GetLastErrorMessage :: "('b, 'g) x_world \<Rightarrow> string" where
  "HGameBattle_GetLastErrorMessage w = x_lastError w"

text \<open>Failing with a message, and the two \<open>catch\<close> clauses of every function.\<close>

definition fail_with ::
  "string \<Rightarrow> hgame_result \<Rightarrow> ('b, 'g) x_world \<Rightarrow> (exn + hgame_result) \<times> ('b, 'g) x_world" where
  "fail_with msg code w = (Inr code, SetLastError msg code w)"

definition catch_all ::
  "string \<Rightarrow> hgame_result \<Rightarrow> exn \<Rightarrow> ('b, 'g) x_world \<Rightarrow> (exn + hgame_result) \<times> ('b, 'g) x_world" where
  "catch_all doing code e w =
     (if is_std_exception e then fail_with (''Exception '' @ doing @ '': '' @ exn_what e) code w
      else if is_thrown e then fail_with (''Unknown exception '' @ doing) code w
      else (Inl e, w))"

text \<open>The handle of a valid context.\<close>

definition ValidateContext :: "nat option \<Rightarrow> ('b, 'g) x_world \<Rightarrow> nat option \<times> ('b, 'g) x_world" where
  "ValidateContext ctx w =
     (case ctx of
        None \<Rightarrow> (None, SetLastError ''Invalid context or handle'' HGAME_BATTLE_ERROR_INVALID_PARAM w)
      | Some a \<Rightarrow>
          (case x_handle w a of
             None \<Rightarrow> (None, SetLastError ''Invalid context or handle'' HGAME_BATTLE_ERROR_INVALID_PARAM w)
           | Some h \<Rightarrow> (Some h, w)))"

text \<open>A method of the context called through a pointer.\<close>

definition call_context ::
  "string \<Rightarrow> hgame_result \<Rightarrow> ('b u_context \<Rightarrow> (exn option \<times> 'b u_context) option) \<Rightarrow> nat option
     \<Rightarrow> ('b, 'g) x_world \<Rightarrow> (exn + hgame_result) \<times> ('b, 'g) x_world" where
  "call_context doing code f handle w =
     (case handle of
        None \<Rightarrow> (Inl UseAfterFree, w)
      | Some h \<Rightarrow>
          (case x_contexts w h of
             None \<Rightarrow> (Inl UseAfterFree, w)
           | Some c \<Rightarrow>
               (case f c of
                  None \<Rightarrow> (Inl OutOfBounds, w)
                | Some (x, c') \<Rightarrow>
                    let w' = w\<lparr>x_contexts := (x_contexts w)(h \<mapsto> c')\<rparr> in
                    (case x of
                       None \<Rightarrow> (Inr HGAME_BATTLE_SUCCESS, w')
                     | Some e \<Rightarrow> catch_all doing code e w'))))"

section \<open>Life cycle\<close>

definition HGameBattle_Initialize ::
  "('b, 'm) battle_env \<Rightarrow> nat option \<Rightarrow> byte list \<Rightarrow> ('b, 'g) x_world
     \<Rightarrow> (exn + hgame_result) \<times> ('b, 'g) x_world" where
  "HGameBattle_Initialize env ctx enterInfo w =
     (case ctx of
        None \<Rightarrow> fail_with ''Invalid context parameter'' HGAME_BATTLE_ERROR_INVALID_PARAM w
      | Some a \<Rightarrow>
          let w1 = ClearLastError w in
          (case u_Initialize env enterInfo new_UnityBattleContext of
             (False, _) \<Rightarrow>
               fail_with ''Failed to initialize battle context'' HGAME_BATTLE_ERROR_INIT_FAILED w1
           | (True, c) \<Rightarrow>
               let h = x_nextContext w1 in
               (Inr HGAME_BATTLE_SUCCESS,
                w1\<lparr>x_handle := (x_handle w1)(a := Some h), x_contexts := (x_contexts w1)(h \<mapsto> c),
                   x_nextContext := Suc h\<rparr>)))"

definition HGameBattle_Shutdown ::
  "nat option \<Rightarrow> ('b, 'g) x_world \<Rightarrow> (exn + hgame_result) \<times> ('b, 'g) x_world" where
  "HGameBattle_Shutdown ctx w =
     (case (ctx, ValidateContext ctx w) of
        (Some a, Some h, w1) \<Rightarrow>
          let w2 = ClearLastError w1 in
          (case x_contexts w2 h of
             None \<Rightarrow> (Inl UseAfterFree, w2)
           | Some c \<Rightarrow>
               (Inr HGAME_BATTLE_SUCCESS,
                w2\<lparr>x_contexts := (x_contexts w2)(h := None), x_handle := (x_handle w2)(a := None)\<rparr>))
      | (_, _, w1) \<Rightarrow> (Inr HGAME_BATTLE_ERROR_INVALID_PARAM, w1))"

text \<open>Of the frame time only the sign is looked at.\<close>

definition HGameBattle_Update ::
  "('b, 'm) battle_env \<Rightarrow> nat option \<Rightarrow> bool \<Rightarrow> ('b, 'g) x_world \<Rightarrow> (exn + hgame_result) \<times> ('b, 'g) x_world" where
  "HGameBattle_Update env ctx negativeDelta w =
     (case ValidateContext ctx w of
        (None, w1) \<Rightarrow> (Inr HGAME_BATTLE_ERROR_INVALID_PARAM, w1)
      | (Some h, w1) \<Rightarrow>
          if negativeDelta then fail_with ''Invalid delta time'' HGAME_BATTLE_ERROR_INVALID_PARAM w1
          else call_context ''during update'' HGAME_BATTLE_ERROR_UPDATE_FAILED (Update env) (Some h)
                 (ClearLastError w1))"

definition HGameBattle_Pause ::
  "('b, 'm) battle_env \<Rightarrow> nat option \<Rightarrow> ('b, 'g) x_world \<Rightarrow> (exn + hgame_result) \<times> ('b, 'g) x_world" where
  "HGameBattle_Pause env ctx w =
     (case ValidateContext ctx w of
        (None, w1) \<Rightarrow> (Inr HGAME_BATTLE_ERROR_INVALID_PARAM, w1)
      | (Some h, w1) \<Rightarrow>
          call_context ''during pause'' HGAME_BATTLE_ERROR_PAUSE_FAILED (\<lambda>c. Some (Pause env c)) (Some h)
            (ClearLastError w1))"

text \<open>\<open>Resume\<close> does not validate its context.\<close>

definition HGameBattle_Resume ::
  "('b, 'm) battle_env \<Rightarrow> nat option \<Rightarrow> ('b, 'g) x_world \<Rightarrow> (exn + hgame_result) \<times> ('b, 'g) x_world" where
  "HGameBattle_Resume env ctx w =
     (let w1 = ClearLastError w in
      case ctx of
        None \<Rightarrow> (Inl UseAfterFree, w1)
      | Some a \<Rightarrow>
          call_context ''during resume'' HGAME_BATTLE_ERROR_RESUME_FAILED (\<lambda>c. Some (Resume env c))
            (x_handle w1 a) w1)"

section \<open>Queries\<close>

record buffer_stats =
  bs_connected :: int
  bs_inputCapacity :: nat
  bs_outputCapacity :: nat
  bs_input :: u_statistics
  bs_output :: u_statistics

definition HGameBattle_GetBufferInfo ::
  "nat option \<Rightarrow> bool \<Rightarrow> ('b, 'g) x_world \<Rightarrow> (exn + hgame_result) \<times> buffer_stats option \<times> ('b, 'g) x_world" where
  "HGameBattle_GetBufferInfo ctx stats w =
     (case ValidateContext ctx w of
        (None, w1) \<Rightarrow> (Inr HGAME_BATTLE_ERROR_INVALID_PARAM, None, w1)
      | (Some h, w1) \<Rightarrow>
          if \<not> stats then (Inr HGAME_BATTLE_ERROR_INVALID_PARAM, None, w1)
          else let w2 = ClearLastError w1 in
               (case x_contexts w2 h of
                  None \<Rightarrow> (Inl UseAfterFree, None, w2)
                | Some c \<Rightarrow>
                    let info = GetBufferInfo c;
                        cap = (\<lambda>r. if bi_connected info then (case r of None \<Rightarrow> 0 | Some ring \<Rightarrow> GetCapacity ring) else 0)
                    in (Inr HGAME_BATTLE_SUCCESS,
                        Some \<lparr>bs_connected = (if bi_connected info then 1 else 0),
                              bs_inputCapacity = cap (c_input c), bs_outputCapacity = cap (c_output c),
                              bs_input = bi_input_stats info, bs_output = bi_output_stats info\<rparr>, w2)))"

definition HGameBattle_CheckStatus ::
  "nat option \<Rightarrow> ('b, 'g) x_world \<Rightarrow> (exn + hgame_result) \<times> ('b, 'g) x_world" where
  "HGameBattle_CheckStatus ctx w =
     (case ValidateContext ctx w of
        (None, w1) \<Rightarrow> (Inr HGAME_BATTLE_ERROR_INVALID_PARAM, w1)
      | (Some h, w1) \<Rightarrow>
          let w2 = ClearLastError w1 in
          (case x_contexts w2 h of
             None \<Rightarrow> (Inl UseAfterFree, w2)
           | Some c \<Rightarrow>
               if \<not> bi_connected (GetBufferInfo c)
               then fail_with ''Buffer not connected'' HGAME_BATTLE_ERROR_NOT_INITIALIZED w2
               else (Inr HGAME_BATTLE_SUCCESS, w2)))"

section \<open>Configuration\<close>

definition HGameBattle_LoadConfig ::
  "'g x_env \<Rightarrow> string option \<Rightarrow> byte list option \<Rightarrow> int \<Rightarrow> int \<Rightarrow> int \<Rightarrow> ('b, 'g) x_world
     \<Rightarrow> (exn + hgame_result) \<times> ('b, 'g) x_world" where
  "HGameBattle_LoadConfig xe configName configData dataSize startIndex endIndex w =
     (case (configName, configData) of
        (Some name, Some data) \<Rightarrow>
          if dataSize \<le> 0
          then fail_with
                 ''Invalid parameters: configName, configData cannot be null, dataSize must be positive''
                 HGAME_BATTLE_ERROR_INVALID_PARAM w
          else let w1 = ClearLastError w;
                   (r, g) = xe_LoadConfigFromBytes xe name data dataSize startIndex endIndex (x_config w1);
                   w2 = w1\<lparr>x_config := g\<rparr>
               in (case r of
                     Inl e \<Rightarrow> catch_all ''during load config'' HGAME_BATTLE_ERROR_UPDATE_FAILED e w2
                   | Inr False \<Rightarrow> fail_with ''Failed to load config'' HGAME_BATTLE_ERROR_UPDATE_FAILED w2
                   | Inr True \<Rightarrow> (Inr HGAME_BATTLE_SUCCESS, w2))
      | _ \<Rightarrow> fail_with
               ''Invalid parameters: configName, configData cannot be null, dataSize must be positive''
               HGAME_BATTLE_ERROR_INVALID_PARAM w)"

text \<open>The result is kept in a static variable; after an exception it is the empty string.\<close>

definition HGameBattle_GetTotalConfigHash ::
  "'g x_env \<Rightarrow> ('b, 'g) x_world \<Rightarrow> (exn + string) \<times> ('b, 'g) x_world" where
  "HGameBattle_GetTotalConfigHash xe w =
     (let w1 = ClearLastError w in
      case xe_getTotalConfigHash xe (x_config w1) of
        Inl e \<Rightarrow>
          (case catch_all ''during get total config hash'' HGAME_BATTLE_ERROR_UPDATE_FAILED e w1 of
             (Inl e', w2) \<Rightarrow> (Inl e', w2)
           | (Inr _, w2) \<Rightarrow> (Inr [], w2))
      | Inr hash \<Rightarrow> (Inr hash, w1\<lparr>x_hashResult := hash\<rparr>))"

definition call_config ::
  "string \<Rightarrow> ('g \<Rightarrow> exn option \<times> 'g) \<Rightarrow> ('b, 'g) x_world \<Rightarrow> (exn + hgame_result) \<times> ('b, 'g) x_world" where
  "call_config doing f w =
     (let w1 = ClearLastError w; (x, g) = f (x_config w1); w2 = w1\<lparr>x_config := g\<rparr> in
      case x of
        None \<Rightarrow> (Inr HGAME_BATTLE_SUCCESS, w2)
      | Some e \<Rightarrow> catch_all doing HGAME_BATTLE_ERROR_UPDATE_FAILED e w2)"

definition HGameBattle_SetSkillJson ::
  "'g x_env \<Rightarrow> string option \<Rightarrow> string option \<Rightarrow> ('b, 'g) x_world
     \<Rightarrow> (exn + hgame_result) \<times> ('b, 'g) x_world" where
  "HGameBattle_SetSkillJson xe skillName skillJson w =
     (case (skillName, skillJson) of
        (Some name, Some json) \<Rightarrow> call_config ''during set skill JSON'' (xe_setSkillJson xe name json) w
      | _ \<Rightarrow> fail_with ''Invalid parameters: skillName, skillJson cannot be null''
               HGAME_BATTLE_ERROR_INVALID_PARAM w)"

definition HGameBattle_SetDebugDrawEnabled ::
  "'g x_env \<Rightarrow> bool \<Rightarrow> ('b, 'g) x_world \<Rightarrow> (exn + hgame_result) \<times> ('b, 'g) x_world" where
  "HGameBattle_SetDebugDrawEnabled xe enabled w =
     call_config ''during set debug draw enabled'' (xe_setEnabled xe enabled) w"

section \<open>Logging\<close>

definition SendLogToUnity :: "string \<Rightarrow> int \<Rightarrow> ('b, 'g) x_world \<Rightarrow> ('b, 'g) x_world" where
  "SendLogToUnity message level w =
     (case x_logCallback w of
        None \<Rightarrow> w
      | Some cb \<Rightarrow> w\<lparr>x_log := x_log w @ [(cb, message, level, length message)]\<rparr>)"

definition HGameBattle_RegisterLogCallback :: "nat option \<Rightarrow> ('b, 'g) x_world \<Rightarrow> ('b, 'g) x_world" where
  "HGameBattle_RegisterLogCallback callback w =
     (let w1 = w\<lparr>x_logCallback := callback\<rparr> in
      if callback \<noteq> None then SendLogToUnity ''C++ log callback registered successfully'' 0 w1 else w1)"

section \<open>Direct access to the rings\<close>

text \<open>
  The four functions below go through the handle themselves and leave the last error alone.
  \<open>with_handle\<close> is their common beginning.
\<close>

definition with_handle ::
  "nat option \<Rightarrow> bool \<Rightarrow> ('b u_context \<Rightarrow> u_ring option) \<Rightarrow> ('b, 'g) x_world
     \<Rightarrow> (exn + hgame_result) + nat \<times> 'b u_context \<times> u_ring" where
  "with_handle ctx outputs ring w =
     (case ctx of
        None \<Rightarrow> Inl (Inr HGAME_BATTLE_ERROR_INVALID_PARAM)
      | Some a \<Rightarrow>
          if \<not> outputs then Inl (Inr HGAME_BATTLE_ERROR_INVALID_PARAM)
          else (case x_handle w a of
                  None \<Rightarrow> Inl (Inr HGAME_BATTLE_ERROR_NOT_INITIALIZED)
                | Some h \<Rightarrow>
                    (case x_contexts w h of
                       None \<Rightarrow> Inl (Inl UseAfterFree)
                     | Some c \<Rightarrow>
                         (case ring c of
                            None \<Rightarrow> Inl (Inr HGAME_BATTLE_ERROR_INVALID_PARAM)
                          | Some r \<Rightarrow> Inr (h, c, r)))))"

text \<open>Capacity, head and tail are the results besides the address of the buffer.\<close>

definition HGameBattle_GetInputBufferState ::
  "nat option \<Rightarrow> bool \<Rightarrow> ('b, 'g) x_world \<Rightarrow> (exn + hgame_result) \<times> (nat \<times> nat \<times> nat) option" where
  "HGameBattle_GetInputBufferState ctx outputs w =
     (case with_handle ctx outputs c_input w of
        Inl r \<Rightarrow> (r, None)
      | Inr (h, c, ring) \<Rightarrow>
          (case PrepareWrite True True ring of
             (kSuccess, Some (head, tail)) \<Rightarrow> (Inr HGAME_BATTLE_SUCCESS, Some (GetCapacity ring, head, tail))
           | _ \<Rightarrow> (Inr HGAME_BATTLE_ERROR_INVALID_PARAM, None)))"

definition HGameBattle_CommitInputWrite ::
  "nat option \<Rightarrow> nat \<Rightarrow> ('b, 'g) x_world \<Rightarrow> (exn + hgame_result) \<times> ('b, 'g) x_world" where
  "HGameBattle_CommitInputWrite ctx newTail w =
     (case with_handle ctx True c_input w of
        Inl r \<Rightarrow> (r, w)
      | Inr (h, c, ring) \<Rightarrow>
          (case CommitWrite newTail ring of
             (res, ring') \<Rightarrow>
               (Inr (if res = kSuccess then HGAME_BATTLE_SUCCESS else HGAME_BATTLE_ERROR_INVALID_PARAM),
                w\<lparr>x_contexts := (x_contexts w)(h \<mapsto> c\<lparr>c_input := Some ring'\<rparr>)\<rparr>)))"

definition HGameBattle_GetOutputBufferState ::
  "nat option \<Rightarrow> bool \<Rightarrow> ('b, 'g) x_world \<Rightarrow> (exn + hgame_result) \<times> (nat \<times> nat \<times> nat) option" where
  "HGameBattle_GetOutputBufferState ctx outputs w =
     (case with_handle ctx outputs c_output w of
        Inl r \<Rightarrow> (r, None)
      | Inr (h, c, ring) \<Rightarrow> (Inr HGAME_BATTLE_SUCCESS, Some (GetCapacity ring, GetHead ring, GetTail ring)))"

definition HGameBattle_CommitOutputRead ::
  "nat option \<Rightarrow> nat \<Rightarrow> ('b, 'g) x_world \<Rightarrow> (exn + hgame_result) \<times> ('b, 'g) x_world" where
  "HGameBattle_CommitOutputRead ctx newHead w =
     (case with_handle ctx True c_output w of
        Inl r \<Rightarrow> (r, w)
      | Inr (h, c, ring) \<Rightarrow>
          (case CommitRead newHead ring of
             (res, ring') \<Rightarrow>
               (Inr (if res = kSuccess then HGAME_BATTLE_SUCCESS else HGAME_BATTLE_ERROR_INVALID_PARAM),
                w\<lparr>x_contexts := (x_contexts w)(h \<mapsto> c\<lparr>c_output := Some ring'\<rparr>)\<rparr>)))"

section \<open>Handles\<close>

text \<open>
  Every handle is null or leads to a live context of its own, and live contexts are initialized.
\<close>

definition handles_ok :: "('b, 'g) x_world \<Rightarrow> bool" where
  "handles_ok w \<longleftrightarrow>
     (\<forall>a h. x_handle w a = Some h \<longrightarrow>
        h < x_nextContext w \<and> (\<exists>c. x_contexts w h = Some c \<and> context_ok c \<and> c_initialized c)) \<and>
     (\<forall>a b h. x_handle w a = Some h \<longrightarrow> x_handle w b = Some h \<longrightarrow> a = b)"

lemma last_error_simps [simp]:
  "x_handle (SetLastError m k w) = x_handle w" "x_contexts (SetLastError m k w) = x_contexts w"
  "x_nextContext (SetLastError m k w) = x_nextContext w" "x_handle (ClearLastError w) = x_handle w"
  "x_contexts (ClearLastError w) = x_contexts w" "x_nextContext (ClearLastError w) = x_nextContext w"
  "x_lastErrorCode (SetLastError m k w) = k" "x_lastErrorCode (ClearLastError w) = HGAME_BATTLE_SUCCESS"
  "handles_ok (SetLastError m k w) = handles_ok w" "handles_ok (ClearLastError w) = handles_ok w"
  "x_lastError (SetLastError m k w) = m" "x_lastError (ClearLastError w) = []"
  by (simp_all add: SetLastError_def ClearLastError_def handles_ok_def)

lemma catch_all_frame [simp]:
  "x_handle (snd (catch_all d k e w)) = x_handle w" "x_contexts (snd (catch_all d k e w)) = x_contexts w"
  "x_nextContext (snd (catch_all d k e w)) = x_nextContext w"
  by (simp_all add: catch_all_def fail_with_def)

lemma ValidateContext_frame [simp]:
  "x_handle (snd (ValidateContext ctx w)) = x_handle w" "x_contexts (snd (ValidateContext ctx w)) = x_contexts w"
  by (auto simp: ValidateContext_def split: option.split)

lemma ValidateContext_Some: "ValidateContext ctx w = (Some h, w1) \<longleftrightarrow> w1 = w \<and> (\<exists>a. ctx = Some a \<and> x_handle w a = Some h)"
  by (auto simp: ValidateContext_def split: option.splits)

lemma ValidateContext_None:
  "ValidateContext ctx w = (None, w1) \<longleftrightarrow>
     w1 = SetLastError ''Invalid context or handle'' HGAME_BATTLE_ERROR_INVALID_PARAM w \<and>
     (\<forall>a. ctx = Some a \<longrightarrow> x_handle w a = None)"
  by (auto simp: ValidateContext_def split: option.splits)

lemma handles_ok_context:
  "handles_ok w \<Longrightarrow> x_handle w a = Some h \<Longrightarrow> \<exists>c. x_contexts w h = Some c \<and> context_ok c \<and> c_initialized c"
  by (simp add: handles_ok_def)

lemma Initialize_spec:
  assumes "handles_ok w"
  shows "\<exists>r w'. HGameBattle_Initialize env ctx info w = (Inr r, w') \<and>
    (x_handle w' = x_handle w \<and> r \<noteq> HGAME_BATTLE_SUCCESS \<and> x_lastErrorCode w' = r \<or>
     r = HGAME_BATTLE_SUCCESS \<and> x_lastErrorCode w' = r \<and>
       (\<exists>a. ctx = Some a \<and> x_handle w' = (x_handle w)(a := Some (x_nextContext w)))) \<and> handles_ok w'"
proof (cases ctx)
  case None
  then show ?thesis using assms by (simp add: HGameBattle_Initialize_def fail_with_def)
next
  case (Some a)
  obtain b c where i: "u_Initialize env info new_UnityBattleContext = (b, c)" by fastforce
  have c: "context_ok c" "b = c_initialized c"
    using context_ok_Initialize [OF context_ok_new, of env info] i by simp_all
  show ?thesis
  proof (cases b)
    case False
    then show ?thesis using Some i assms by (simp add: HGameBattle_Initialize_def fail_with_def)
  next
    case True
    let ?h = "x_nextContext w"
    let ?w = "(ClearLastError w)\<lparr>x_handle := (x_handle w)(a := Some ?h),
        x_contexts := (x_contexts w)(?h \<mapsto> c), x_nextContext := Suc ?h\<rparr>"
    have run: "HGameBattle_Initialize env ctx info w = (Inr HGAME_BATTLE_SUCCESS, ?w)"
      using Some i True by (simp add: HGameBattle_Initialize_def Let_def)
    have old: "h < ?h \<and> (\<exists>c. x_contexts w h = Some c \<and> context_ok c \<and> c_initialized c)"
      if "x_handle w a' = Some h" for a' h
      using assms that unfolding handles_ok_def by blast
    have inj: "a' = b'" if "x_handle w a' = Some h" "x_handle w b' = Some h" for a' b' h
      using assms that unfolding handles_ok_def by blast
    have "handles_ok ?w"
      unfolding handles_ok_def
    proof (intro conjI allI impI)
      fix a' h
      assume h: "x_handle ?w a' = Some h"
      show "h < x_nextContext ?w"
        using h old [of a' h] by (simp split: if_splits)
      show "\<exists>c. x_contexts ?w h = Some c \<and> context_ok c \<and> c_initialized c"
        using h old [of a' h] c True by (simp split: if_splits) 
    next
      fix a' b' h
      assume "x_handle ?w a' = Some h" "x_handle ?w b' = Some h"
      then show "a' = b'" using old [of a' h] old [of b' h] inj [of a' h b'] by (simp split: if_splits)
    qed
    then show ?thesis using run Some by simp
  qed
qed

lemma Shutdown_spec:
  assumes "handles_ok w"
  shows "\<exists>r w'. HGameBattle_Shutdown ctx w = (Inr r, w') \<and> handles_ok w' \<and>
    (case ctx of None \<Rightarrow> r = HGAME_BATTLE_ERROR_INVALID_PARAM
     | Some a \<Rightarrow> x_handle w' a = None \<and>
         r = (if x_handle w a = None then HGAME_BATTLE_ERROR_INVALID_PARAM else HGAME_BATTLE_SUCCESS))"
proof (cases "\<exists>a h. ctx = Some a \<and> x_handle w a = Some h")
  case True
  then obtain a h where ah: "ctx = Some a" "x_handle w a = Some h" by blast
  obtain c where "x_contexts w h = Some c" using handles_ok_context [OF assms ah(2)] by blast
  then show ?thesis
    using ah assms
    by (auto simp: HGameBattle_Shutdown_def ValidateContext_def Let_def handles_ok_def ClearLastError_def)
next
  case False
  then show ?thesis
    using assms by (auto simp: HGameBattle_Shutdown_def ValidateContext_def split: option.splits)
qed

section \<open>Property\<close>

text \<open>C37: The life of a handle of the C interface: after a successful \<open>Initialize\<close> the status is good and
  \<open>Shutdown\<close> succeeds, frees this handle and no other; from then on every call that validates its
  handle is refused with the invalid-parameter code and the last error set, without touching freed
  memory, while \<open>Resume\<close>, which does not validate, dereferences the null handle.\<close>

theorem export_lifecycle:
  assumes "handles_ok w" and "HGameBattle_Initialize env (Some a) info w = (Inr HGAME_BATTLE_SUCCESS, w1)"
    and "HGameBattle_Shutdown (Some a) w1 = (r, w2)"
  shows "fst (HGameBattle_CheckStatus (Some a) w1) = Inr HGAME_BATTLE_SUCCESS \<and>
    r = Inr HGAME_BATTLE_SUCCESS \<and> handles_ok w2 \<and> x_handle w2 = (x_handle w)(a := None) \<and>
    fst (HGameBattle_Shutdown (Some a) w2) = Inr HGAME_BATTLE_ERROR_INVALID_PARAM \<and>
    fst (HGameBattle_CheckStatus (Some a) w2) = Inr HGAME_BATTLE_ERROR_INVALID_PARAM \<and>
    fst (HGameBattle_Update env (Some a) negative w2) = Inr HGAME_BATTLE_ERROR_INVALID_PARAM \<and>
    fst (HGameBattle_Pause env (Some a) w2) = Inr HGAME_BATTLE_ERROR_INVALID_PARAM \<and>
    x_lastErrorCode (snd (HGameBattle_Update env (Some a) negative w2)) = HGAME_BATTLE_ERROR_INVALID_PARAM \<and>
    fst (HGameBattle_Resume env (Some a) w2) = Inl UseAfterFree"
proof -
  have init: "handles_ok w1" "x_handle w1 = (x_handle w)(a := Some (x_nextContext w))"
    using Initialize_spec [OF assms(1), of env "Some a" info] assms(2) by auto
  obtain c where c: "x_contexts w1 (x_nextContext w) = Some c" "context_ok c" "c_initialized c"
    using handles_ok_context [OF init(1), of a] init(2) by auto
  have status: "fst (HGameBattle_CheckStatus (Some a) w1) = Inr HGAME_BATTLE_SUCCESS"
    using c init(2) by (auto simp: HGameBattle_CheckStatus_def ValidateContext_def GetBufferInfo_def context_ok_def Let_def)
  have shut: "r = Inr HGAME_BATTLE_SUCCESS" "handles_ok w2" "x_handle w2 a = None"
    using Shutdown_spec [OF init(1), of "Some a"] assms(3) init(2) by auto
  moreover have "x_handle w2 = (x_handle w)(a := None)"
    using assms(3) c(1) init(2) by (auto simp: HGameBattle_Shutdown_def ValidateContext_def Let_def)
  moreover have "ValidateContext (Some a) w2 =
      (None, SetLastError ''Invalid context or handle'' HGAME_BATTLE_ERROR_INVALID_PARAM w2)"
    using shut(3) by (simp add: ValidateContext_def)
  ultimately show ?thesis using status
    by (simp add: HGameBattle_Shutdown_def HGameBattle_CheckStatus_def HGameBattle_Update_def HGameBattle_Pause_def
        HGameBattle_Resume_def call_context_def Let_def)
qed

definition demo_x_world :: "((nat \<times> byte list) list, unit) x_world" where
  "demo_x_world = \<lparr>x_handle = (\<lambda>_. None), x_contexts = Map.empty, x_nextContext = 0, x_lastError = [],
     x_lastErrorCode = HGAME_BATTLE_SUCCESS, x_logCallback = None, x_log = [], x_config = (), x_hashResult = []\<rparr>"

lemma export_lifecycle_witness:
  "\<exists>w1 w2. HGameBattle_Initialize demo_battle_env (Some 3) [] demo_x_world = (Inr HGAME_BATTLE_SUCCESS, w1) \<and>
     HGameBattle_Shutdown (Some 3) w1 = (Inr HGAME_BATTLE_SUCCESS, w2) \<and>
     fst (HGameBattle_Pause demo_battle_env (Some 3) w2) = Inr HGAME_BATTLE_ERROR_INVALID_PARAM"
proof -
  have ok: "handles_ok demo_x_world" by (simp add: handles_ok_def demo_x_world_def)
  obtain w1 where 1: "HGameBattle_Initialize demo_battle_env (Some 3) [] demo_x_world = (Inr HGAME_BATTLE_SUCCESS, w1)"
    by (simp add: HGameBattle_Initialize_def u_Initialize_def new_UnityBattleContext_def demo_battle_env_def Let_def)
  obtain r w2 where 2: "HGameBattle_Shutdown (Some 3) w1 = (r, w2)" by (cases "HGameBattle_Shutdown (Some 3) w1")
  show ?thesis using export_lifecycle [OF ok 1 2] 1 2 by auto
qed

end
