(* ===== verification/Tbus.thy ===== *)
theory Tbus
  imports Bytes
begin

text \<open>
  The shared-memory packet queue of \<open>src/reference/tsf4g/tbus/src/tbus.c\<close>: one sender, one
  receiver, variable-length packets with an eight-byte header in a circular buffer, a packet
  never wrapping around.

  Offsets are \<open>uint32_t\<close>: naturals whose sums and differences are taken modulo \<open>2 ^ 32\<close>.  The buffer
  is the byte list \<open>t_buff\<close>; a header written outside it has no result.  Attaching to the shared
  segment (\<open>tbus_at\<close>, \<open>tbus_dt\<close>) is left to the operating system.
\<close>

section \<open>State\<close>

definition u32 :: "nat \<Rightarrow> nat" where
  "u32 n = n mod 2 ^ 32"

definition u32_add :: "nat \<Rightarrow> nat \<Rightarrow> nat" where
  "u32_add a b = (a + b) mod 2 ^ 32"

definition u32_sub :: "nat \<Rightarrow> nat \<Rightarrow> nat" where
  "u32_sub a b = (a + 2 ^ 32 - b) mod 2 ^ 32"

lemma u32_add_small [simp]: "a + b < 2 ^ 32 \<Longrightarrow> u32_add a b = a + b"
  by (simp add: u32_add_def)

lemma u32_sub_small [simp]:
  assumes "b \<le> a" and "a < 2 ^ 32"
  shows "u32_sub a b = a - b"
proof -
  have "a + 2 ^ 32 - b = (a - b) + 2 ^ 32" using assms(1) by simp
  then have "u32_sub a b = (a - b) mod 2 ^ 32" by (simp only: u32_sub_def mod_add_self2)
  also have "a - b < 2 ^ 32" by (rule le_less_trans [OF diff_le_self assms(2)])
  then have "(a - b) mod 2 ^ 32 = a - b" by (rule mod_less)
  finally show ?thesis .
qed

definition e_tbus_cmd_package :: nat where
  "e_tbus_cmd_package = 1"

definition e_tbus_cmd_ignore :: nat where
  "e_tbus_cmd_ignore = 2"

definition header_size :: nat where
  "header_size = 8"

record tbus =
  t_head :: nat
  t_tail :: nat
  t_packet_size :: nat
  t_size :: nat
  t_buff :: "byte list"

text \<open>The two fields of the header at an offset.\<close>

definition header_cmd :: "byte list \<Rightarrow> nat \<Rightarrow> nat" where
  "header_cmd buf at = le_nat (slice buf at 4)"

definition header_len :: "byte list \<Rightarrow> nat \<Rightarrow> nat" where
  "header_len buf at = le_nat (slice buf (at + 4) 4)"

definition set_header_cmd :: "nat \<Rightarrow> nat \<Rightarrow> byte list \<Rightarrow> byte list option" where
  "set_header_cmd at cmd buf = mem_write at (le_bytes 4 cmd) buf"

definition set_header_len :: "nat \<Rightarrow> nat \<Rightarrow> byte list \<Rightarrow> byte list option" where
  "set_header_len at len buf = mem_write (at + 4) (le_bytes 4 len) buf"

section \<open>Operations\<close>

definition tbus_init :: "nat \<Rightarrow> nat \<Rightarrow> byte list \<Rightarrow> tbus" where
  "tbus_init packet number buf =
     (let packet_size = u32 (packet + header_size) in
      \<lparr>t_head = 0, t_tail = 0, t_packet_size = packet_size, t_size = u32 (packet_size * number),
       t_buff = buf\<rparr>)"

text \<open>The writable size and the offset of the payload; size 0 is "full".\<close>

function tbus_send_begin :: "tbus \<Rightarrow> (nat \<times> nat option \<times> tbus) option" where
  "tbus_send_begin tb =
     (let head_offset = t_head tb; tail_offset = t_tail tb in
      if head_offset \<le> tail_offset
      then let write_size = u32_sub (t_size tb) tail_offset in
           if write_size < header_size
           then (if head_offset \<noteq> 0 then tbus_send_begin (tb\<lparr>t_tail := 0\<rparr>) else Some (0, None, tb))
           else if write_size < t_packet_size tb
           then (case set_header_cmd tail_offset e_tbus_cmd_ignore (t_buff tb) of
                   None \<Rightarrow> None
                 | Some buf \<Rightarrow>
                     if head_offset \<noteq> 0 then tbus_send_begin (tb\<lparr>t_buff := buf, t_tail := 0\<rparr>)
                     else Some (0, None, tb\<lparr>t_buff := buf\<rparr>))
           else Some (u32_sub write_size header_size, Some (tail_offset + header_size), tb)
      else let write_size = u32_sub (u32_sub head_offset tail_offset) 1 in
           if write_size < t_packet_size tb then Some (0, None, tb)
           else Some (u32_sub write_size header_size, Some (tail_offset + header_size), tb))"
  by pat_completeness auto
termination
  by (relation "measure (\<lambda>tb. if t_head tb \<le> t_tail tb then 1 else 0)") auto

declare tbus_send_begin.simps [simp del]

definition tbus_send_end :: "nat \<Rightarrow> tbus \<Rightarrow> tbus option" where
  "tbus_send_end len tb =
     (let tail_offset = t_tail tb in
      if len = 0 then Some tb
      else case set_header_cmd tail_offset e_tbus_cmd_package (t_buff tb) of
             None \<Rightarrow> None
           | Some buf1 \<Rightarrow>
               (case set_header_len tail_offset len buf1 of
                  None \<Rightarrow> None
                | Some buf2 \<Rightarrow>
                    let tail1 = u32_add tail_offset (u32_add header_size len);
                        tail2 = (if tail1 \<ge> t_size tb \<and> t_head tb \<noteq> 0 then 0 else tail1)
                    in Some (tb\<lparr>t_buff := buf2, t_tail := tail2\<rparr>)))"

text \<open>The result of \<open>peek\<close> is the offset reached, \<open>None\<close> for a null pointer, and the vectors filled.\<close>

function peek :: "byte list \<Rightarrow> nat \<Rightarrow> nat \<Rightarrow> nat \<Rightarrow> (nat \<times> nat) list \<Rightarrow> nat option \<times> (nat \<times> nat) list" where
  "peek buf ch limit iov_num iov =
     (if ch < limit
      then if limit - ch < header_size then (Some limit, iov)
           else if header_cmd buf ch = e_tbus_cmd_ignore then (Some limit, iov)
           else if header_cmd buf ch \<noteq> e_tbus_cmd_package then (None, iov)
           else if limit - ch < header_size + header_len buf ch then (None, iov)
           else if length iov \<ge> iov_num then (Some ch, iov)
           else peek buf (ch + header_size + header_len buf ch) limit iov_num
                  (iov @ [(ch + header_size, header_len buf ch)])
      else (Some ch, iov))"
  by pat_completeness auto
termination
  by (relation "measure (\<lambda>(buf, ch, limit, n, iov). limit - ch)") (auto simp: header_size_def)

declare peek.simps [simp del]

definition tbus_read_begin :: "nat \<Rightarrow> tbus \<Rightarrow> nat \<times> (nat \<times> nat) list" where
  "tbus_read_begin iov_num tb =
     (let tail = t_tail tb; head = t_head tb in
      if head \<le> tail
      then (case peek (t_buff tb) head tail iov_num [] of
              (None, _) \<Rightarrow> (tail, [])
            | (Some cur, iov) \<Rightarrow> (cur, iov))
      else (case peek (t_buff tb) head (t_size tb) iov_num [] of
              (None, _) \<Rightarrow> (tail, [])
            | (Some cur, iov0) \<Rightarrow>
                if cur = t_size tb
                then (case peek (t_buff tb) 0 tail (iov_num - length iov0) [] of
                        (None, _) \<Rightarrow> (tail, [])
                      | (Some curr2, iov1) \<Rightarrow> (curr2, iov0 @ iov1))
                else (cur, iov0)))"

definition tbus_read_end :: "nat \<Rightarrow> tbus \<Rightarrow> tbus" where
  "tbus_read_end head tb = tb\<lparr>t_head := head\<rparr>"

text \<open>What the receiver finds through the vectors.\<close>

definition iov_data :: "byte list \<Rightarrow> (nat \<times> nat) list \<Rightarrow> byte list list" where
  "iov_data buf iov = map (\<lambda>(base, len). slice buf base len) iov"

section \<open>The packets in the buffer\<close>

text \<open>\<open>chain buf a b ps\<close>: from offset \<open>a\<close> to offset \<open>b\<close> lie exactly the packets \<open>ps\<close>.\<close>

fun chain :: "byte list \<Rightarrow> nat \<Rightarrow> nat \<Rightarrow> byte list list \<Rightarrow> bool" where
  "chain buf a b [] \<longleftrightarrow> a = b"
| "chain buf a b (p # ps) \<longleftrightarrow>
     p \<noteq> [] \<and> header_cmd buf a = e_tbus_cmd_package \<and> header_len buf a = length p \<and>
     slice buf (a + header_size) (length p) = p \<and> chain buf (a + header_size + length p) b ps"

text \<open>
  The packets of a queue.  Without wrap-around they lie between head and tail; otherwise they run
  from the head to an end mark, which is an ignore header or too little room for a header, and
  from the start to the tail.
\<close>

definition end_mark :: "tbus \<Rightarrow> nat \<Rightarrow> bool" where
  "end_mark tb e \<longleftrightarrow>
     e \<le> t_size tb \<and> (t_size tb - e < header_size \<or> header_cmd (t_buff tb) e = e_tbus_cmd_ignore)"

definition holds_packets :: "tbus \<Rightarrow> byte list list \<Rightarrow> bool" where
  "holds_packets tb ps \<longleftrightarrow>
     (if t_head tb \<le> t_tail tb then chain (t_buff tb) (t_head tb) (t_tail tb) ps
      else \<exists>ps0 ps1 e. ps = ps0 @ ps1 \<and> chain (t_buff tb) (t_head tb) e ps0 \<and> end_mark tb e \<and>
             chain (t_buff tb) 0 (t_tail tb) ps1)"

lemma holds_wrapped:
  "t_tail tb < t_head tb \<Longrightarrow> chain (t_buff tb) (t_head tb) e ps0 \<Longrightarrow> end_mark tb e \<Longrightarrow>
     chain (t_buff tb) 0 (t_tail tb) ps1 \<Longrightarrow> holds_packets tb (ps0 @ ps1)"
  unfolding holds_packets_def by auto

definition tbus_ok :: "tbus \<Rightarrow> bool" where
  "tbus_ok tb \<longleftrightarrow>
     t_head tb \<le> t_size tb \<and> t_tail tb \<le> t_size tb \<and> t_size tb < 2 ^ 32 \<and>
     t_size tb \<le> length (t_buff tb) \<and> header_size < t_packet_size tb"

lemma tbus_init_ok:
  assumes "0 < packet" and "(packet + header_size) * number < 2 ^ 32" and "0 < number"
    and "(packet + header_size) * number \<le> length buf"
  shows "tbus_ok (tbus_init packet number buf)" and "holds_packets (tbus_init packet number buf) []"
    and "t_packet_size (tbus_init packet number buf) = packet + header_size"
    and "t_size (tbus_init packet number buf) = (packet + header_size) * number"
proof -
  have "(packet + header_size) * 1 \<le> (packet + header_size) * number"
    using assms(3) by (intro mult_le_mono2) simp
  then have "(packet + header_size) * 1 < 2 ^ 32" using assms(2) by (rule le_less_trans)
  then have "packet + header_size < 2 ^ 32" by simp
  then have p: "u32 (packet + header_size) = packet + header_size"
      "u32 ((packet + header_size) * number) = (packet + header_size) * number"
    using assms(2) by (simp_all only: u32_def mod_less)
  then show "t_packet_size (tbus_init packet number buf) = packet + header_size"
      "t_size (tbus_init packet number buf) = (packet + header_size) * number"
    by (simp_all add: tbus_init_def Let_def)
  then show "tbus_ok (tbus_init packet number buf)"
    using assms by (simp add: tbus_ok_def) (simp add: tbus_init_def Let_def)
  show "holds_packets (tbus_init packet number buf) []"
    by (simp add: holds_packets_def tbus_init_def Let_def)
qed

lemma chain_le: "chain buf a b ps \<Longrightarrow> a \<le> b"
  by (induction buf a b ps rule: chain.induct) auto

text \<open>A write outside the packets does not change them.\<close>

lemma chain_frame:
  assumes "\<And>o' n. a \<le> o' \<Longrightarrow> o' + n \<le> b \<Longrightarrow> slice buf' o' n = slice buf o' n"
  shows "chain buf a b ps \<longleftrightarrow> chain buf' a b ps"
  using assms
proof (induction ps arbitrary: a)
  case (Cons p ps)
  have tl: "chain buf (a + header_size + length p) b ps \<longleftrightarrow> chain buf' (a + header_size + length p) b ps"
    by (rule Cons.IH) (rule Cons.prems, auto)
  have "header_cmd buf' a = header_cmd buf a" "header_len buf' a = header_len buf a"
      "slice buf' (a + header_size) (length p) = slice buf (a + header_size) (length p)"
    if "a + header_size + length p \<le> b"
    using that Cons.prems [of a 4] Cons.prems [of "a + 4" 4] Cons.prems [of "a + header_size" "length p"]
    by (simp_all add: header_cmd_def header_len_def header_size_def)
  then show ?case using tl chain_le by (metis chain.simps(2))
qed simp

lemma chain_append:
  "chain buf a m ps \<Longrightarrow> chain buf m b qs \<Longrightarrow> chain buf a b (ps @ qs)"
  by (induction buf a m ps rule: chain.induct) auto

section \<open>Reading\<close>

text \<open>
  \<open>peek\<close> over a chain that ends at \<open>e\<close>: it takes as many packets as there are vectors and stops
  before the next one, or it takes all and goes on from \<open>e\<close>.
\<close>

lemma peek_chain:
  assumes "chain buf a e ps" and "e \<le> limit" and "length ps + length iov \<le> n \<or> length iov \<le> n"
  shows "\<exists>iov' a'. iov_data buf iov' = take (n - length iov) ps \<and> chain buf a' e (drop (n - length iov) ps) \<and>
    a \<le> a' \<and> length iov' = length (take (n - length iov) ps) \<and>
    (if length ps \<le> n - length iov then a' = e \<and> peek buf a limit n iov = peek buf e limit n (iov @ iov')
     else a' < e \<and> peek buf a limit n iov = (Some a', iov @ iov'))"
  using assms
proof (induction ps arbitrary: a iov)
  case Nil
  then show ?case by (intro exI [of _ "[]"] exI [of _ e]) (simp add: iov_data_def)
next
  case (Cons p ps)
  let ?a = "a + header_size + length p"
  have c: "p \<noteq> []" "header_cmd buf a = e_tbus_cmd_package" "header_len buf a = length p"
      "slice buf (a + header_size) (length p) = p" "chain buf ?a e ps"
    using Cons.prems(1) by simp_all
  have le: "?a \<le> e" using c(5) by (rule chain_le)
  then have lt: "a < limit" "\<not> limit - a < header_size" "\<not> limit - a < header_size + length p" "a < e"
    using Cons.prems(2) c(1) by (auto simp: header_size_def)
  have ne: "header_cmd buf a \<noteq> e_tbus_cmd_ignore"
    using c(2) by (simp add: e_tbus_cmd_ignore_def e_tbus_cmd_package_def)
  show ?case
  proof (cases "length iov \<ge> n")
    case True
    then have "n - length iov = 0" by simp
    moreover have "peek buf a limit n iov = (Some a, iov)"
      using True lt c ne by (subst peek.simps) simp
    ultimately show ?thesis
      using Cons.prems(1) lt(4) by (intro exI [of _ "[]"] exI [of _ a]) (simp add: iov_data_def)
  next
    case False
    let ?iov = "iov @ [(a + header_size, length p)]"
    have step: "peek buf a limit n iov = peek buf ?a limit n ?iov"
      using False lt c ne by (subst peek.simps) simp
    have suc: "n - length iov = Suc (n - length ?iov)" using False by simp
    have "length ps + length ?iov \<le> n \<or> length ?iov \<le> n" using False by simp
    from Cons.IH [OF c(5) Cons.prems(2) this] obtain iov' a' where
      ih: "iov_data buf iov' = take (n - length ?iov) ps" "chain buf a' e (drop (n - length ?iov) ps)"
        "?a \<le> a'" "length iov' = length (take (n - length ?iov) ps)"
        "if length ps \<le> n - length ?iov
         then a' = e \<and> peek buf ?a limit n ?iov = peek buf e limit n (?iov @ iov')
         else a' < e \<and> peek buf ?a limit n ?iov = (Some a', ?iov @ iov')"
      by blast
    have "iov_data buf ((a + header_size, length p) # iov') = take (n - length iov) (p # ps)"
      unfolding suc using ih(1) c(4) by (simp add: iov_data_def)
    moreover have "chain buf a' e (drop (n - length iov) (p # ps))" unfolding suc using ih(2) by simp
    moreover have "a \<le> a'" using ih(3) by simp
    moreover have "length ((a + header_size, length p) # iov') = length (take (n - length iov) (p # ps))"
      unfolding suc using ih(4) by simp
    ultimately show ?thesis
      using ih(5) step unfolding suc
      by (intro exI [of _ "(a + header_size, length p) # iov'"] exI [of _ a']) (simp split: if_splits)
  qed
qed

lemma peek_end: "peek buf e e n iov = (Some e, iov)"
  by (subst peek.simps) simp

lemma peek_mark:
  "end_mark tb e \<Longrightarrow> peek (t_buff tb) e (t_size tb) n iov = (Some (t_size tb), iov)"
  by (subst peek.simps) (auto simp: end_mark_def)

text \<open>
  The receiver gets the oldest packets, as many as it has vectors; \<open>tbus_read_end\<close> with the offset
  it got removes exactly those.
\<close>

lemma tbus_read_spec:
  assumes "tbus_ok tb" and "holds_packets tb ps"
  shows "\<exists>ret iov. tbus_read_begin n tb = (ret, iov) \<and> iov_data (t_buff tb) iov = take n ps \<and>
    tbus_ok (tbus_read_end ret tb) \<and> holds_packets (tbus_read_end ret tb) (drop n ps)"
proof (cases "t_head tb \<le> t_tail tb")
  case True
  let ?b = "t_buff tb"
  have c: "chain ?b (t_head tb) (t_tail tb) ps" using assms(2) True by (simp add: holds_packets_def)
  obtain iov' a' where p: "iov_data ?b iov' = take n ps" "chain ?b a' (t_tail tb) (drop n ps)"
      "if length ps \<le> n then a' = t_tail tb \<and>
         peek ?b (t_head tb) (t_tail tb) n [] = peek ?b (t_tail tb) (t_tail tb) n iov'
       else a' < t_tail tb \<and> peek ?b (t_head tb) (t_tail tb) n [] = (Some a', iov')"
    using peek_chain [OF c order_refl, of "[]" n] by auto
  have "peek ?b (t_head tb) (t_tail tb) n [] = (Some a', iov')" and a': "a' \<le> t_tail tb"
    using p(3) by (auto simp: peek_end split: if_splits)
  then have "tbus_read_begin n tb = (a', iov')" using True by (simp add: tbus_read_begin_def)
  moreover have "tbus_ok (tbus_read_end a' tb)"
    using assms(1) a' by (simp add: tbus_ok_def tbus_read_end_def)
  moreover have "holds_packets (tbus_read_end a' tb) (drop n ps)"
    using p(2) a' by (simp add: holds_packets_def tbus_read_end_def)
  ultimately show ?thesis using p(1) by blast
next
  case False
  let ?b = "t_buff tb"
  obtain ps0 ps1 e where c: "ps = ps0 @ ps1" "chain ?b (t_head tb) e ps0" "end_mark tb e"
      "chain ?b 0 (t_tail tb) ps1"
    using assms(2) False by (auto simp: holds_packets_def)
  have e: "e \<le> t_size tb" using c(3) by (simp add: end_mark_def)
  obtain iov0 a0 where p0: "iov_data ?b iov0 = take n ps0" "chain ?b a0 e (drop n ps0)" "t_head tb \<le> a0"
      "length iov0 = length (take n ps0)"
      "if length ps0 \<le> n then a0 = e \<and> peek ?b (t_head tb) (t_size tb) n [] = peek ?b e (t_size tb) n iov0
       else a0 < e \<and> peek ?b (t_head tb) (t_size tb) n [] = (Some a0, iov0)"
    using peek_chain [OF c(2) e, of "[]" n] by auto
  show ?thesis
  proof (cases "length ps0 \<le> n")
    case True
    then have k0: "peek ?b (t_head tb) (t_size tb) n [] = (Some (t_size tb), iov0)" "length iov0 = length ps0"
      using p0(4,5) peek_mark [OF c(3)] by simp_all
    let ?n = "n - length iov0"
    obtain iov1 a1 where p1: "iov_data ?b iov1 = take ?n ps1" "chain ?b a1 (t_tail tb) (drop ?n ps1)"
        "if length ps1 \<le> ?n then a1 = t_tail tb \<and> peek ?b 0 (t_tail tb) ?n [] = peek ?b (t_tail tb) (t_tail tb) ?n iov1
         else a1 < t_tail tb \<and> peek ?b 0 (t_tail tb) ?n [] = (Some a1, iov1)"
      using peek_chain [OF c(4) order_refl, of "[]" ?n] by auto
    have "peek ?b 0 (t_tail tb) ?n [] = (Some a1, iov1)" and a1: "a1 \<le> t_tail tb"
      using p1(3) by (auto simp: peek_end split: if_splits)
    then have "tbus_read_begin n tb = (a1, iov0 @ iov1)"
      using False k0(1) by (simp add: tbus_read_begin_def Let_def)
    moreover have "iov_data ?b (iov0 @ iov1) = take n ps"
      using p0(1) p1(1) c(1) True k0(2) by (simp add: iov_data_def)
    moreover have "tbus_ok (tbus_read_end a1 tb)"
      using assms(1) a1 by (simp add: tbus_ok_def tbus_read_end_def)
    moreover have "holds_packets (tbus_read_end a1 tb) (drop n ps)"
      using p1(2) a1 c(1) True k0(2) by (simp add: holds_packets_def tbus_read_end_def)
    ultimately show ?thesis by blast
  next
    case n: False
    then have k0: "peek ?b (t_head tb) (t_size tb) n [] = (Some a0, iov0)" "a0 < e" using p0(5) by simp_all
    then have "tbus_read_begin n tb = (a0, iov0)"
      using False e by (simp add: tbus_read_begin_def Let_def)
    moreover have "tbus_ok (tbus_read_end a0 tb)"
      using assms(1) k0(2) e by (simp add: tbus_ok_def tbus_read_end_def)
    moreover have "drop n ps = drop n ps0 @ ps1" using c(1) n by simp
    then have "holds_packets (tbus_read_end a0 tb) (drop n ps)"
      using c(3,4) p0(2,3) False unfolding holds_packets_def tbus_read_end_def end_mark_def
      by simp blast
    ultimately show ?thesis using p0(1) c(1) n by (auto intro!: exI [of _ a0] exI [of _ iov0])
  qed
qed

section \<open>Sending\<close>

text \<open>What \<open>tbus_send_begin\<close> promises when it returns \<open>n \<noteq> 0\<close>.\<close>

definition room :: "tbus \<Rightarrow> nat \<Rightarrow> bool" where
  "room tb n \<longleftrightarrow>
     t_packet_size tb \<le> n + header_size \<and>
     (if t_head tb \<le> t_tail tb then t_tail tb + header_size + n \<le> t_size tb
      else t_tail tb + header_size + n < t_head tb)"

definition same_shape :: "tbus \<Rightarrow> tbus \<Rightarrow> bool" where
  "same_shape tb tb' \<longleftrightarrow>
     t_head tb' = t_head tb \<and> t_size tb' = t_size tb \<and> t_packet_size tb' = t_packet_size tb \<and>
     length (t_buff tb') = length (t_buff tb)"

definition begun :: "tbus \<Rightarrow> byte list list \<Rightarrow> nat \<times> nat option \<times> tbus \<Rightarrow> bool" where
  "begun tb ps r \<longleftrightarrow>
     (case r of (n, p, tb') \<Rightarrow>
        tbus_ok tb' \<and> holds_packets tb' ps \<and> same_shape tb tb' \<and>
        (n \<noteq> 0 \<longrightarrow> p = Some (t_tail tb' + header_size) \<and> room tb' n))"

lemma send_begin_wrapped:
  assumes "tbus_ok tb" and "holds_packets tb ps" and "t_tail tb < t_head tb"
  shows "\<exists>r. tbus_send_begin tb = Some r \<and> begun tb ps r"
proof -
  have b: "t_head tb \<le> t_size tb" "t_size tb < 2 ^ 32" "header_size < t_packet_size tb"
    using assms(1) by (simp_all add: tbus_ok_def)
  have "t_head tb < 2 ^ 32" using b by (metis le_less_trans)
  then have w: "u32_sub (u32_sub (t_head tb) (t_tail tb)) 1 = t_head tb - t_tail tb - 1"
    using assms(3) by simp
  have w2: "u32_sub (t_head tb - t_tail tb - 1) header_size = t_head tb - t_tail tb - 1 - header_size"
    if "\<not> t_head tb - t_tail tb - 1 < t_packet_size tb"
    using that b(3) \<open>t_head tb < 2 ^ 32\<close> by (intro u32_sub_small) auto
  show ?thesis
  proof (cases "t_head tb - t_tail tb - 1 < t_packet_size tb")
    case True
    then have "tbus_send_begin tb = Some (0, None, tb)"
      using assms(3) w by (subst tbus_send_begin.simps) (simp add: Let_def)
    then show ?thesis using assms(1,2) by (simp add: begun_def same_shape_def)
  next
    case False
    then have "tbus_send_begin tb =
        Some (t_head tb - t_tail tb - 1 - header_size, Some (t_tail tb + header_size), tb)"
      using assms(3) w w2 by (subst tbus_send_begin.simps) (simp add: Let_def)
    moreover have "room tb (t_head tb - t_tail tb - 1 - header_size)"
      using False assms(3) b(3) by (auto simp: room_def)
    ultimately show ?thesis using assms(1,2) by (simp add: begun_def same_shape_def)
  qed
qed

text \<open>Going back to the start leaves an end mark at the old tail.\<close>

lemma holds_wrap:
  assumes "holds_packets tb ps" and "t_head tb \<le> t_tail tb" and "t_head tb \<noteq> 0"
    and "end_mark tb (t_tail tb)"
  shows "holds_packets (tb\<lparr>t_tail := 0\<rparr>) ps"
proof -
  have "chain (t_buff tb) (t_head tb) (t_tail tb) ps" using assms(1,2) by (simp add: holds_packets_def)
  moreover have "end_mark (tb\<lparr>t_tail := 0\<rparr>) (t_tail tb)" using assms(4) by (simp add: end_mark_def)
  ultimately show ?thesis
    using assms(3) holds_wrapped [of "tb\<lparr>t_tail := 0\<rparr>" "t_tail tb" ps "[]"] by simp
qed

lemma set_header_facts:
  assumes "pos + header_size \<le> length buf" and "cmd < 2 ^ 32"
  shows "\<exists>buf'. set_header_cmd pos cmd buf = Some buf' \<and> length buf' = length buf \<and>
    header_cmd buf' pos = cmd \<and>
    (\<forall>o' n. o' + n \<le> pos \<or> pos + 4 \<le> o' \<longrightarrow> slice buf' o' n = slice buf o' n)"
proof -
  obtain buf' where buf': "set_header_cmd pos cmd buf = Some buf'"
    using assms(1) by (simp add: set_header_cmd_def mem_write_def header_size_def)
  note w = mem_write_Some [OF buf' [unfolded set_header_cmd_def]]
  have "le_nat (le_bytes 4 cmd) = cmd" using assms(2) by (intro le_nat_le_bytes) simp
  then have "header_cmd buf' pos = cmd" using w(2) by (simp add: header_cmd_def)
  then show ?thesis using buf' w(1,3) by auto
qed

lemma tbus_send_begin_spec:
  assumes "tbus_ok tb" and "holds_packets tb ps"
  shows "\<exists>r. tbus_send_begin tb = Some r \<and> begun tb ps r"
proof (cases "t_head tb \<le> t_tail tb")
  case False
  then show ?thesis using send_begin_wrapped [OF assms] by simp
next
  case True
  let ?w = "t_size tb - t_tail tb"
  have b: "t_tail tb \<le> t_size tb" "t_size tb < 2 ^ 32" "header_size < t_packet_size tb"
      "t_size tb \<le> length (t_buff tb)"
    using assms(1) by (simp_all add: tbus_ok_def)
  have w: "u32_sub (t_size tb) (t_tail tb) = ?w" using b by simp
  have sb: "tbus_send_begin tb =
      (if ?w < header_size
       then (if t_head tb \<noteq> 0 then tbus_send_begin (tb\<lparr>t_tail := 0\<rparr>) else Some (0, None, tb))
       else if ?w < t_packet_size tb
       then (case set_header_cmd (t_tail tb) e_tbus_cmd_ignore (t_buff tb) of
               None \<Rightarrow> None
             | Some buf \<Rightarrow>
                 if t_head tb \<noteq> 0 then tbus_send_begin (tb\<lparr>t_buff := buf, t_tail := 0\<rparr>)
                 else Some (0, None, tb\<lparr>t_buff := buf\<rparr>))
       else Some (u32_sub ?w header_size, Some (t_tail tb + header_size), tb))"
    using True by (subst tbus_send_begin.simps) (simp add: Let_def w)
  have ok0: "tbus_ok (tb\<lparr>t_tail := 0\<rparr>)" using assms(1) by (simp add: tbus_ok_def)
  consider "?w < header_size" | "\<not> ?w < header_size" "?w < t_packet_size tb"
    | "\<not> ?w < header_size" "\<not> ?w < t_packet_size tb" by blast
  then show ?thesis
  proof cases
    case 1
    then have mark: "end_mark tb (t_tail tb)" using b by (simp add: end_mark_def)
    show ?thesis
    proof (cases "t_head tb = 0")
      case True
      then show ?thesis using sb 1 assms by (simp add: begun_def same_shape_def)
    next
      case False
      have "\<exists>r. tbus_send_begin (tb\<lparr>t_tail := 0\<rparr>) = Some r \<and> begun (tb\<lparr>t_tail := 0\<rparr>) ps r"
        using send_begin_wrapped [OF ok0 holds_wrap [OF assms(2) True False mark]] False by simp
      then show ?thesis using sb 1 False by (auto simp: begun_def same_shape_def)
    qed
  next
    case 2
    have "t_tail tb + header_size \<le> length (t_buff tb)" using 2(1) b by simp
    then obtain buf where buf: "set_header_cmd (t_tail tb) e_tbus_cmd_ignore (t_buff tb) = Some buf"
        "length buf = length (t_buff tb)" "header_cmd buf (t_tail tb) = e_tbus_cmd_ignore"
        "\<And>o' n. o' + n \<le> t_tail tb \<Longrightarrow> slice buf o' n = slice (t_buff tb) o' n"
      using set_header_facts [of "t_tail tb" "t_buff tb" e_tbus_cmd_ignore]
      by (auto simp: e_tbus_cmd_ignore_def)
    let ?tb = "tb\<lparr>t_buff := buf\<rparr>"
    have "chain (t_buff tb) (t_head tb) (t_tail tb) ps" using assms(2) True by (simp add: holds_packets_def)
    then have "chain buf (t_head tb) (t_tail tb) ps"
      using chain_frame [of "t_head tb" "t_tail tb" buf "t_buff tb" ps] buf(4) by simp
    then have h: "holds_packets ?tb ps" using True by (simp add: holds_packets_def)
    have ok: "tbus_ok ?tb" "tbus_ok (?tb\<lparr>t_tail := 0\<rparr>)" using assms(1) buf(2) by (simp_all add: tbus_ok_def)
    have mark: "end_mark ?tb (t_tail ?tb)" using buf(3) b(1) by (simp add: end_mark_def)
    show ?thesis
    proof (cases "t_head tb = 0")
      case True
      then show ?thesis using sb 2 buf(1,2) h ok by (simp add: begun_def same_shape_def)
    next
      case False
      have "\<exists>r. tbus_send_begin (?tb\<lparr>t_tail := 0\<rparr>) = Some r \<and> begun (?tb\<lparr>t_tail := 0\<rparr>) ps r"
        using send_begin_wrapped [OF ok(2) holds_wrap [OF h _ _ mark]] True False by simp
      then show ?thesis using sb 2 buf(1,2) False by (auto simp: begun_def same_shape_def)
    qed
  next
    case 3
    have "u32_sub ?w header_size = ?w - header_size" using 3 b by (intro u32_sub_small) auto
    moreover have "room tb (?w - header_size)" using 3 b True by (auto simp: room_def)
    ultimately show ?thesis using sb 3 assms by (simp add: begun_def same_shape_def)
  qed
qed

text \<open>
  The sender writes the payload where it was told to, at most as much as it was told, and ends the
  packet: the queue grows by it.
\<close>

lemma tbus_send_end_spec:
  assumes "tbus_ok tb" and "holds_packets tb ps" and "room tb n" and "p \<noteq> []" and "length p \<le> n"
  shows "\<exists>buf1 tb'. mem_write (t_tail tb + header_size) p (t_buff tb) = Some buf1 \<and>
    tbus_send_end (length p) (tb\<lparr>t_buff := buf1\<rparr>) = Some tb' \<and> tbus_ok tb' \<and> holds_packets tb' (ps @ [p])"
proof -
  let ?t = "t_tail tb" and ?b = "t_buff tb"
  let ?t1 = "?t + header_size + length p"
  have ok: "t_head tb \<le> t_size tb" "?t \<le> t_size tb" "t_size tb < 2 ^ 32" "t_size tb \<le> length ?b"
    using assms(1) by (simp_all add: tbus_ok_def)
  have t1: "?t1 \<le> t_size tb" "\<not> t_head tb \<le> ?t \<Longrightarrow> ?t1 < t_head tb"
    using assms(3,5) ok(1) by (auto simp: room_def split: if_splits)
  have fits: "?t1 \<le> length ?b" using t1(1) ok(4) by simp
  obtain buf1 where b1: "mem_write (?t + header_size) p ?b = Some buf1"
    using fits by (simp add: mem_write_def)
  note w1 = mem_write_Some [OF b1]
  have "?t + header_size \<le> length buf1" using fits w1(1) by simp
  then obtain buf2 where b2: "set_header_cmd ?t e_tbus_cmd_package buf1 = Some buf2" "length buf2 = length buf1"
      "header_cmd buf2 ?t = e_tbus_cmd_package"
      "\<And>o' n. o' + n \<le> ?t \<or> ?t + 4 \<le> o' \<Longrightarrow> slice buf2 o' n = slice buf1 o' n"
    using set_header_facts [of ?t buf1 e_tbus_cmd_package] by (auto simp: e_tbus_cmd_package_def)
  obtain buf3 where b3: "mem_write (?t + 4) (le_bytes 4 (length p)) buf2 = Some buf3"
    using fits w1(1) b2(2) by (simp add: mem_write_def header_size_def)
  note w3 = mem_write_Some [OF b3]
  have small: "length p < 256 ^ 4" using t1(1) ok(3) by simp
  have out: "slice buf3 o' k = slice ?b o' k" if "o' + k \<le> ?t \<or> ?t1 \<le> o'" for o' k
  proof -
    have "slice buf3 o' k = slice buf2 o' k" by (rule w3(3)) (use that in \<open>auto simp: header_size_def\<close>)
    also have "\<dots> = slice buf1 o' k" by (rule b2(4)) (use that in \<open>auto simp: header_size_def\<close>)
    also have "\<dots> = slice ?b o' k" by (rule w1(3)) (use that in auto)
    finally show ?thesis .
  qed
  have "header_cmd buf3 ?t = e_tbus_cmd_package"
    using b2(3) w3(3) [of ?t 4] by (simp add: header_cmd_def)
  moreover have "header_len buf3 ?t = length p"
    using w3(2) le_nat_le_bytes [OF small] by (simp add: header_len_def)
  moreover have "slice buf3 (?t + header_size) (length p) = p"
    using w3(3) [of "?t + header_size" "length p"] b2(4) [of "?t + header_size" "length p"] w1(2)
    by (simp add: header_size_def)
  ultimately have new: "chain buf3 ?t ?t1 [p]" using assms(4) by simp
  let ?tail = "if ?t1 \<ge> t_size tb \<and> t_head tb \<noteq> 0 then 0 else ?t1"
  let ?tb = "tb\<lparr>t_buff := buf3, t_tail := ?tail\<rparr>"
  have add: "u32_add ?t (u32_add header_size (length p)) = ?t1"
    using t1(1) ok(3) by simp
  have send: "tbus_send_end (length p) (tb\<lparr>t_buff := buf1\<rparr>) = Some ?tb"
    using assms(4) b2(1) b3 by (simp add: tbus_send_end_def Let_def set_header_len_def add)
  have "tbus_ok ?tb" using assms(1) t1(1) w3(1) b2(2) w1(1) by (simp add: tbus_ok_def)
  moreover have "holds_packets ?tb (ps @ [p])"
  proof (cases "t_head tb \<le> ?t")
    case True
    then have "chain ?b (t_head tb) ?t ps" using assms(2) by (simp add: holds_packets_def)
    then have "chain buf3 (t_head tb) ?t ps"
      using chain_frame [of "t_head tb" ?t buf3 ?b ps] out by simp
    then have c: "chain buf3 (t_head tb) ?t1 (ps @ [p])" using new by (rule chain_append)
    show ?thesis
    proof (cases "?t1 \<ge> t_size tb \<and> t_head tb \<noteq> 0")
      case wrap: True
      then have "?t1 = t_size tb" using t1(1) by simp
      then have "end_mark ?tb ?t1" by (simp add: end_mark_def header_size_def)
      then show ?thesis using c wrap holds_wrapped [of ?tb ?t1 "ps @ [p]" "[]"] by simp
    next
      case False
      then show ?thesis using c True by (auto simp: holds_packets_def)
    qed
  next
    case False
    then obtain ps0 ps1 e where d: "ps = ps0 @ ps1" "chain ?b (t_head tb) e ps0" "end_mark tb e"
        "chain ?b 0 ?t ps1"
      using assms(2) by (auto simp: holds_packets_def)
    note lt = t1(2) [OF False]
    have "chain buf3 (t_head tb) e ps0"
      using d(2) chain_frame [of "t_head tb" e buf3 ?b ps0] out lt by simp
    moreover have "chain buf3 0 ?t ps1"
      using d(4) chain_frame [of 0 ?t buf3 ?b ps1] out by simp
    then have "chain buf3 0 ?t1 (ps1 @ [p])" using new by (rule chain_append)
    moreover have "header_cmd buf3 e = header_cmd ?b e"
      using out [of e 4] lt chain_le [OF d(2)] by (simp add: header_cmd_def)
    then have "end_mark ?tb e" using d(3) by (simp add: end_mark_def)
    moreover have "\<not> ?t1 \<ge> t_size tb" using lt ok(1) by simp
    ultimately show ?thesis
      using lt d(1) holds_wrapped [of ?tb e ps0 "ps1 @ [p]"] by simp
  qed
  ultimately show ?thesis using b1 send by blast
qed

section \<open>Property\<close>

text \<open>One send of a client: it asks for space, writes the packet there when it fits, and commits it.\<close>

definition tb_send :: "byte list \<Rightarrow> tbus \<Rightarrow> (bool \<times> tbus) option" where
  "tb_send p tb =
     (case tbus_send_begin tb of
        None \<Rightarrow> None
      | Some (n, ptr, tb1) \<Rightarrow>
          if p = [] \<or> n < length p then Some (False, tb1)
          else (case ptr of
                  None \<Rightarrow> None
                | Some a \<Rightarrow>
                    (case mem_write a p (t_buff tb1) of
                       None \<Rightarrow> None
                     | Some buf \<Rightarrow> map_option (Pair True) (tbus_send_end (length p) (tb1\<lparr>t_buff := buf\<rparr>)))))"

lemma tb_send_spec:
  assumes "tbus_ok tb" and "holds_packets tb ps"
  shows "\<exists>b tb'. tb_send p tb = Some (b, tb') \<and> tbus_ok tb' \<and> holds_packets tb' (ps @ (if b then [p] else []))"
proof -
  obtain n ptr tb1 where b: "tbus_send_begin tb = Some (n, ptr, tb1)" "begun tb ps (n, ptr, tb1)"
    using tbus_send_begin_spec [OF assms] by auto
  then have tb1: "tbus_ok tb1" "holds_packets tb1 ps" by (simp_all add: begun_def)
  show ?thesis
  proof (cases "p = [] \<or> n < length p")
    case True
    then show ?thesis using b(1) tb1 by (auto simp: tb_send_def)
  next
    case False
    then have r: "ptr = Some (t_tail tb1 + header_size)" "room tb1 n" using b(2) by (auto simp: begun_def)
    show ?thesis
      using tbus_send_end_spec [OF tb1 r(2), of p] False b(1) r(1) by (auto simp: tb_send_def)
  qed
qed

fun tb_run :: "(byte list + nat) list \<Rightarrow> tbus \<Rightarrow> (byte list list \<times> byte list list \<times> tbus) option" where
  "tb_run [] tb = Some ([], [], tb)"
| "tb_run (Inl p # ops) tb =
     (case tb_send p tb of
        None \<Rightarrow> None
      | Some (b, tb1) \<Rightarrow>
          map_option (\<lambda>(acc, out, tb'). ((if b then [p] else []) @ acc, out, tb')) (tb_run ops tb1))"
| "tb_run (Inr n # ops) tb =
     (case tbus_read_begin n tb of
        (ret, iov) \<Rightarrow>
          map_option (\<lambda>(acc, out, tb'). (acc, iov_data (t_buff tb) iov @ out, tb'))
            (tb_run ops (tbus_read_end ret tb)))"

lemma tb_run_fifo:
  "tbus_ok tb \<Longrightarrow> holds_packets tb ps \<Longrightarrow>
     \<exists>acc out tb' left. tb_run ops tb = Some (acc, out, tb') \<and> tbus_ok tb' \<and> holds_packets tb' left \<and>
       ps @ acc = out @ left"
proof (induction ops tb arbitrary: ps rule: tb_run.induct)
  case (2 p ops tb)
  obtain b tb1 where s: "tb_send p tb = Some (b, tb1)" "tbus_ok tb1" "holds_packets tb1 (ps @ (if b then [p] else []))"
    using tb_send_spec [OF 2(2,3), of p] by blast
  show ?case using 2(1) [OF s(1) refl s(2,3)] s(1) by auto
next
  case (3 n ops tb)
  obtain ret iov where r: "tbus_read_begin n tb = (ret, iov)" "iov_data (t_buff tb) iov = take n ps"
      "tbus_ok (tbus_read_end ret tb)" "holds_packets (tbus_read_end ret tb) (drop n ps)"
    using tbus_read_spec [OF 3(2,3), of n] by blast
  obtain acc out tb' left where "tb_run ops (tbus_read_end ret tb) = Some (acc, out, tb')" "tbus_ok tb'"
      "holds_packets tb' left" "drop n ps @ acc = out @ left"
    using 3(1) [OF r(1) [symmetric] r(3,4)] by blast
  moreover from this(4) have "ps @ acc = take n ps @ out @ left" by (metis append.assoc append_take_drop_id)
  ultimately show ?case using r(1,2) by auto
qed auto

text \<open>C40: A tbus channel is a queue of packets: after \<open>tbus_init\<close> every sequence of sends and batched
  reads returns, and the packets read, followed by those still in the channel, are exactly those
  sent, whole and in order, across every wrap of the buffer.\<close>

theorem tbus_fifo:
  assumes "0 < packet" and "0 < number" and "(packet + header_size) * number < 2 ^ 32"
    and "(packet + header_size) * number \<le> length buf"
  shows "\<exists>sent out tb left. tb_run ops (tbus_init packet number buf) = Some (sent, out, tb) \<and>
    tbus_ok tb \<and> holds_packets tb left \<and> sent = out @ left"
  using tb_run_fifo [OF tbus_init_ok(1,2) [OF assms(1,3,2,4)], of ops] by simp

lemma tbus_fifo_witness:
  "\<exists>sent out tb left. tb_run [Inl [7], Inr 1] (tbus_init 4 2 (replicate 24 0)) = Some (sent, out, tb) \<and>
     holds_packets tb left \<and> sent = out @ left"
  using tbus_fifo [of 4 2 "replicate 24 0" "[Inl [7], Inr 1]"] by (auto simp: header_size_def)

end
